(* ===== verification/Prelude.thy ===== *)
theory Prelude
  imports Main "HOL-Library.Word"
begin

text \<open>
  Shared vocabulary of the development: the machine types of the LP64 targets the
  libraries are built for (x86-64 Linux and arm64 OHOS), the outcome of running a piece
  of C code, a weakest-precondition predicate over outcomes with its rules, and generic
  lemmas on words and finite lists that the component theories use.
\<close>

unbundle bit_operations_syntax

named_theorems wp_rules \<open>weakest-precondition rules of the operations\<close>
named_theorems layout \<open>sizes and alignments of the C types of the LP64 targets\<close>

type_synonym byte = "8 word"
type_synonym wchar = "32 word"
type_synonym size_t = "64 word"
type_synonym ptr = "64 word"

text \<open>
  A cell of an object is a byte, or \<open>None\<close> where the program has not written the byte yet
  (the content of a fresh \<open>malloc\<close> block is indeterminate).
\<close>

type_synonym cell = "byte option"

abbreviation NULL :: ptr where "NULL \<equiv> 0"
abbreviation SIZE_MAX :: size_t where "SIZE_MAX \<equiv> - 1"
abbreviation SSIZE_MAX :: nat where "SSIZE_MAX \<equiv> 2 ^ 63 - 1"

datatype errno = EOK | ENOMEM | EINVAL | ENOENT | ENAMETOOLONG | ELOOP | ENOSYS | EOTHER nat

section \<open>Outcomes of C code\<close>

text \<open>
  Running C code from a state returns (\<open>Done\<close>, with the value and the state), ends the
  process through \<open>_exit\<close> (\<open>Exit\<close>), is undefined (\<open>Undef\<close>: an access outside an object, a
  read of an indeterminate byte, freeing what is not allocated) or spins forever on a lock
  (\<open>Spin\<close>).
\<close>

datatype 'a outcome = Done 'a | Exit int | Undef | Spin

fun obind :: "'a outcome \<Rightarrow> ('a \<Rightarrow> 'b outcome) \<Rightarrow> 'b outcome" where
  "obind (Done x) f = f x"
| "obind (Exit c) f = Exit c"
| "obind Undef f = Undef"
| "obind Spin f = Spin"

lemma obind_cong [fundef_cong]:
  "m = m' \<Longrightarrow> (\<And>x. m' = Done x \<Longrightarrow> f x = g x) \<Longrightarrow> obind m f = obind m' g"
  by (cases m') auto

lemma obind_Done_right [simp]: "obind m Done = m"
  by (cases m) auto

lemma obind_assoc: "obind (obind m f) g = obind m (\<lambda>x. obind (f x) g)"
  by (cases m) auto

lemma obind_eq_Done: "obind m f = Done y \<longleftrightarrow> (\<exists>x. m = Done x \<and> f x = Done y)"
  by (cases m) auto

text \<open>
  \<open>wp E m Q\<close>: the code is never undefined and never spins, it ends the process only where
  \<open>E\<close> allows it, and where it returns the result satisfies \<open>Q\<close>. With \<open>E = False\<close> it is
  total correctness.
\<close>

fun wp :: "bool \<Rightarrow> 'a outcome \<Rightarrow> ('a \<Rightarrow> bool) \<Rightarrow> bool" where
  "wp E (Done x) Q = Q x"
| "wp E (Exit c) Q = E"
| "wp E Undef Q = False"
| "wp E Spin Q = False"

lemma wp_bind: "wp E (obind m f) Q \<longleftrightarrow> wp E m (\<lambda>x. wp E (f x) Q)"
  by (cases m) auto

lemma wp_conseq: "wp E m P \<Longrightarrow> (E \<Longrightarrow> E') \<Longrightarrow> (\<And>x. P x \<Longrightarrow> Q x) \<Longrightarrow> wp E' m Q"
  by (cases m) auto

lemma wp_bindI:
  "wp E m P \<Longrightarrow> (E \<Longrightarrow> E') \<Longrightarrow> (\<And>x. P x \<Longrightarrow> wp E' (f x) Q) \<Longrightarrow> wp E' (obind m f) Q"
  by (cases m) auto

lemma wp_Done_cases:
  "wp E m Q \<Longrightarrow> \<not> E \<Longrightarrow> \<exists>x. m = Done x \<and> Q x"
  by (cases m) auto

lemma wp_DoneD: "wp E m Q \<Longrightarrow> m = Done x \<Longrightarrow> Q x"
  by simp

lemma wp_value: "wp E m P \<Longrightarrow> wp E m (\<lambda>x. P x \<and> m = Done x)"
  by (cases m) simp_all

lemma wp_conj: "wp E m P \<Longrightarrow> wp E m Q \<Longrightarrow> wp E m (\<lambda>x. P x \<and> Q x)"
  by (cases m) auto

lemma wp_if: "wp E (if b then m else n) Q \<longleftrightarrow> (if b then wp E m Q else wp E n Q)"
  by simp

section \<open>Words\<close>

lemma unat_SIZE_MAX: "unat (- 1 :: 64 word) = 2 ^ 64 - 1"
  by (simp add: unsigned_minus_1_eq_mask mask_eq_exp_minus_1)

lemma unat_add_no_wrap:
  fixes a b :: "64 word"
  shows "unat a + unat b < 2 ^ 64 \<Longrightarrow> unat (a + b) = unat a + unat b"
  by (simp add: unat_word_ariths)

lemma unat_sub_no_wrap:
  fixes a b :: "64 word"
  shows "b \<le> a \<Longrightarrow> unat (a - b) = unat a - unat b"
  by (rule unat_sub)

lemma unat_of_nat_lt: "n < 2 ^ 64 \<Longrightarrow> unat (of_nat n :: 64 word) = n"
  by (simp add: unat_of_nat take_bit_nat_eq_self)

text \<open>Masking with \<open>2 ^ k - 1\<close> is the remainder modulo \<open>2 ^ k\<close>.\<close>

lemma unat_and_mask16:
  fixes w :: "64 word"
  shows "unat (w AND 65535) = unat w mod 65536"
proof -
  have "(65535 :: 64 word) = mask 16"
    by (simp add: mask_eq_exp_minus_1)
  then have "unat (w AND 65535) = unat (take_bit 16 w)"
    by (simp only: take_bit_eq_mask)
  also have "\<dots> = take_bit 16 (unat w)"
    by (simp add: unsigned_take_bit_eq)
  finally show ?thesis
    by (simp add: take_bit_eq_mod)
qed

text \<open>A bitwise disjunction is at least each of its operands.\<close>

lemma word_le_or_left:
  fixes a b :: "'a::len word"
  shows "a \<le> a OR b"
  by (simp add: word_le_def uint_or or_greater_eq)

lemma word_le_or_right:
  fixes a b :: "'a::len word"
  shows "b \<le> a OR b"
  using word_le_or_left [of b a] by (simp add: or.commute)

text \<open>The digits of a number in base \<open>b\<close>.\<close>

lemma base_expansion: "(\<Sum>i<n. x div b ^ i mod b * b ^ i) = (x::nat) mod b ^ n"
proof (induction n)
  case (Suc n)
  have "x mod b ^ Suc n = b ^ n * (x div b ^ n mod b) + x mod b ^ n"
    by (metis mod_mult2_eq power_Suc2)
  with Suc show ?case by (simp add: mult.commute)
qed simp

section \<open>Lists of cells\<close>

text \<open>Overwriting a range of a list in place.\<close>

definition overwrite :: "nat \<Rightarrow> 'a list \<Rightarrow> 'a list \<Rightarrow> 'a list" where
  "overwrite off cs bs = take off bs @ cs @ drop (off + length cs) bs"

lemma length_overwrite [simp]:
  "off + length cs \<le> length bs \<Longrightarrow> length (overwrite off cs bs) = length bs"
  by (simp add: overwrite_def)

lemma overwrite_Nil [simp]: "overwrite off [] bs = bs"
  by (simp add: overwrite_def)

lemma nth_overwrite:
  "off + length cs \<le> length bs \<Longrightarrow> i < length bs \<Longrightarrow>
   overwrite off cs bs ! i = (if off \<le> i \<and> i < off + length cs then cs ! (i - off) else bs ! i)"
  by (auto simp: overwrite_def nth_append min_def)

lemma take_overwrite_below: "n \<le> off \<Longrightarrow> off \<le> length bs \<Longrightarrow> take n (overwrite off cs bs) = take n bs"
  by (simp add: overwrite_def min_def)

lemma take_overwrite_end:
  "off \<le> length bs \<Longrightarrow> take (off + length cs) (overwrite off cs bs) = take off bs @ cs"
  by (simp add: overwrite_def min_def)

lemma drop_overwrite_end:
  "off \<le> length bs \<Longrightarrow> off + length cs \<le> n \<Longrightarrow> drop n (overwrite off cs bs) = drop n bs"
  by (auto simp: overwrite_def min_def)

lemma overwrite_full: "length cs = length bs \<Longrightarrow> overwrite 0 cs bs = cs"
  by (simp add: overwrite_def)

section \<open>Finite maps of sizes\<close>

text \<open>The sum of the sizes a map of allocations holds, in the 64-bit arithmetic of the
  counters.\<close>

definition total_size :: "('k \<Rightarrow> (size_t \<times> 'b) option) \<Rightarrow> size_t" where
  "total_size m = (\<Sum>k\<in>dom m. fst (the (m k)))"

lemma total_size_empty [simp]: "total_size (\<lambda>_. None) = 0"
  by (simp add: total_size_def)

lemma total_size_insert:
  assumes "finite (dom m)" "m k = None"
  shows "total_size (m(k \<mapsto> v)) = total_size m + fst v"
proof -
  have "(\<Sum>x\<in>dom m. fst (the ((m(k \<mapsto> v)) x))) = (\<Sum>x\<in>dom m. fst (the (m x)))"
    using assms(2) by (intro sum.cong) auto
  moreover have "k \<notin> dom m" using assms(2) by blast
  ultimately show ?thesis
    using assms(1) by (simp add: total_size_def add.commute)
qed

lemma total_size_remove:
  assumes "finite (dom m)" "m k = Some v"
  shows "total_size (m(k := None)) = total_size m - fst v"
proof -
  have "m = (m(k := None))(k \<mapsto> v)"
    using assms(2) by auto
  moreover have "total_size ((m(k := None))(k \<mapsto> v)) = total_size (m(k := None)) + fst v"
    using assms(1) by (intro total_size_insert) auto
  ultimately show ?thesis by (metis add_diff_cancel_right')
qed

lemma card_dom_insert:
  "finite (dom m) \<Longrightarrow> m k = None \<Longrightarrow> card (dom (m(k \<mapsto> v))) = Suc (card (dom m))"
  by (simp add: domIff)

lemma card_dom_remove:
  assumes "finite (dom m)" "m k = Some v"
  shows "Suc (card (dom (m(k := None)))) = card (dom m)"
proof -
  have "k \<in> dom m" using assms(2) by blast
  then show ?thesis
    using assms(1) card.remove [of "dom m" k] by simp
qed

end
