(* ===== verification/C_Memory.thy ===== *)
theory C_Memory
  imports Prelude
begin

text \<open>
  The C runtime the two libraries run on: heap objects, \<open>errno\<close>, the allocation functions
  of the system libc (the ones \<open>mock_allocator.c\<close> reaches through \<open>RTLD_NEXT\<close>) and the
  memory and string functions of \<open>string.h\<close> and \<open>wchar.h\<close> that the sources call.

  The heap maps the address of each live object to its cells. Which address the system
  allocator picks, and when it reports exhaustion, is the environment's choice: \<open>answers\<close>
  holds the choices still to come, and each call takes one. An answer that no conforming
  allocator could give (a null, misaligned, already used or statically occupied address, a
  block larger than \<open>PTRDIFF_MAX\<close>) counts as exhaustion, so a theorem for every list of
  answers covers every conforming allocator.
\<close>

section \<open>Machine state\<close>

record libc =
  blocks :: "ptr \<Rightarrow> cell list option"
  answers :: "ptr option list"
  errno :: errno
  static_base :: ptr

text \<open>
  \<open>static_base\<close> is the address the loader gave to \<open>g_bootstrap_heap\<close>, 64 KiB of static
  storage of \<open>libmock_allocator.so\<close>; the system allocator never hands out addresses there.
\<close>

definition in_static :: "ptr \<Rightarrow> ptr \<Rightarrow> bool" where
  "in_static base p \<longleftrightarrow> base \<le> p \<and> unat p < unat base + 65536"

definition fresh_block :: "'a libc_scheme \<Rightarrow> ptr \<Rightarrow> size_t \<Rightarrow> bool" where
  "fresh_block w p n \<longleftrightarrow>
     p \<noteq> NULL \<and> unat p mod 16 = 0 \<and> blocks w p = None \<and> \<not> in_static (static_base w) p
     \<and> unat n \<le> SSIZE_MAX \<and> unat p + unat n < 2 ^ 64"

section \<open>The system allocator\<close>

definition real_malloc :: "size_t \<Rightarrow> 'a libc_scheme \<Rightarrow> ptr \<times> 'a libc_scheme" where
  "real_malloc n w =
     (case answers w of
        Some p # as \<Rightarrow>
          if fresh_block w p n
          then (p, w\<lparr>answers := as, blocks := (blocks w)(p \<mapsto> replicate (unat n) None)\<rparr>)
          else (NULL, w\<lparr>answers := as, errno := ENOMEM\<rparr>)
      | None # as \<Rightarrow> (NULL, w\<lparr>answers := as, errno := ENOMEM\<rparr>)
      | [] \<Rightarrow> (NULL, w\<lparr>errno := ENOMEM\<rparr>))"

definition real_calloc :: "size_t \<Rightarrow> size_t \<Rightarrow> 'a libc_scheme \<Rightarrow> ptr \<times> 'a libc_scheme" where
  "real_calloc nmemb sz w =
     (if unat nmemb * unat sz < 2 ^ 64
      then let (p, w') = real_malloc (nmemb * sz) w
           in if p = NULL then (NULL, w')
              else (p, w'\<lparr>blocks := (blocks w')(p \<mapsto> replicate (unat (nmemb * sz)) (Some 0))\<rparr>)
      else (NULL, w\<lparr>errno := ENOMEM\<rparr>))"

definition real_free :: "ptr \<Rightarrow> 'a libc_scheme \<Rightarrow> 'a libc_scheme outcome" where
  "real_free p w =
     (if p = NULL then Done w
      else if blocks w p = None then Undef
      else Done (w\<lparr>blocks := (blocks w)(p := None)\<rparr>))"

text \<open>
  \<open>resized n cs\<close>: the cells after a \<open>realloc\<close> to \<open>n\<close> bytes, the old content up to the
  smaller size and indeterminate bytes after it.
\<close>

definition resized :: "nat \<Rightarrow> cell list \<Rightarrow> cell list" where
  "resized n cs = take n cs @ replicate (n - length cs) None"

lemma length_resized [simp]: "length (resized n cs) = n"
  by (simp add: resized_def)

lemma take_resized: "m \<le> n \<Longrightarrow> m \<le> length cs \<Longrightarrow> take m (resized n cs) = take m cs"
  by (simp add: resized_def min_def)

text \<open>
  \<open>realloc\<close> may keep the object where it is or move it. A \<open>NULL\<close> answer to a request of
  size zero means that the object was freed (glibc); to any other request, that nothing
  changed.
\<close>

definition real_realloc :: "ptr \<Rightarrow> size_t \<Rightarrow> 'a libc_scheme \<Rightarrow> (ptr \<times> 'a libc_scheme) outcome" where
  "real_realloc p n w =
     (if p = NULL then Done (real_malloc n w)
      else case blocks w p of
        None \<Rightarrow> Undef
      | Some cs \<Rightarrow>
          (case answers w of
             Some q # as \<Rightarrow>
               if q = p \<and> unat n \<le> SSIZE_MAX \<or> fresh_block w q n
               then Done (q, w\<lparr>answers := as,
                               blocks := (blocks w)(p := None, q \<mapsto> resized (unat n) cs)\<rparr>)
               else if n = 0
               then Done (NULL, w\<lparr>answers := as, blocks := (blocks w)(p := None)\<rparr>)
               else Done (NULL, w\<lparr>answers := as, errno := ENOMEM\<rparr>)
           | None # as \<Rightarrow>
               if n = 0 then Done (NULL, w\<lparr>answers := as, blocks := (blocks w)(p := None)\<rparr>)
               else Done (NULL, w\<lparr>answers := as, errno := ENOMEM\<rparr>)
           | [] \<Rightarrow>
               if n = 0 then Done (NULL, w\<lparr>blocks := (blocks w)(p := None)\<rparr>)
               else Done (NULL, w\<lparr>errno := ENOMEM\<rparr>)))"

lemma real_malloc_cases:
  obtains (null) w' where "real_malloc n w = (NULL, w')"
      and "blocks w' = blocks w" "static_base w' = static_base w" "errno w' = ENOMEM"
      and "libc.more w' = libc.more w"
  | (block) p w' where "real_malloc n w = (p, w')" "fresh_block w p n"
      and "blocks w' = (blocks w)(p \<mapsto> replicate (unat n) None)"
      and "static_base w' = static_base w" "errno w' = errno w" "libc.more w' = libc.more w"
proof (cases "answers w")
  case Nil
  then show ?thesis by (intro null [of "w\<lparr>errno := ENOMEM\<rparr>"]) (auto simp: real_malloc_def)
next
  case (Cons a as)
  show ?thesis
  proof (cases "\<exists>p. a = Some p \<and> fresh_block w p n")
    case True
    then obtain p where p: "a = Some p" "fresh_block w p n" by blast
    with Cons show ?thesis by (intro block [of p "w\<lparr>answers := as, blocks := (blocks w)(p \<mapsto> replicate (unat n) None)\<rparr>"]) (auto simp: real_malloc_def)
  next
    case False
    with Cons show ?thesis
      by (intro null [of "w\<lparr>answers := as, errno := ENOMEM\<rparr>"])
        (auto simp: real_malloc_def split: option.splits)
  qed
qed

lemma fresh_blockD:
  assumes "fresh_block w p n"
  shows "p \<noteq> 0" "p \<noteq> 1" "blocks w p = None" "\<not> in_static (static_base w) p" "unat n \<le> SSIZE_MAX"
  using assms by (auto simp: fresh_block_def)

lemma real_realloc_cases:
  assumes "p \<noteq> NULL" "blocks w p = Some cs"
  obtains (moved) q w' where "real_realloc p n w = Done (q, w')" "q \<noteq> NULL"
      and "q = p \<or> fresh_block w q n" "unat n \<le> SSIZE_MAX"
      and "blocks w' = (blocks w)(p := None, q \<mapsto> resized (unat n) cs)"
      and "static_base w' = static_base w" "errno w' = errno w" "libc.more w' = libc.more w"
  | (failed) w' where "real_realloc p n w = Done (NULL, w')" "n \<noteq> 0" "blocks w' = blocks w"
      and "static_base w' = static_base w" "errno w' = ENOMEM" "libc.more w' = libc.more w"
  | (freed) w' where "real_realloc p n w = Done (NULL, w')" "n = 0" "blocks w' = (blocks w)(p := None)"
      and "static_base w' = static_base w" "errno w' = errno w" "libc.more w' = libc.more w"
proof -
  define as where "as = tl (answers w)"
  show ?thesis
  proof (cases "\<exists>q. answers w = Some q # as \<and> (q = p \<and> unat n \<le> SSIZE_MAX \<or> fresh_block w q n)")
    case True
    then obtain q where q: "answers w = Some q # as" "q = p \<and> unat n \<le> SSIZE_MAX \<or> fresh_block w q n"
      by blast
    have "q \<noteq> NULL" "q = p \<or> fresh_block w q n" "unat n \<le> SSIZE_MAX"
      using q(2) assms(1) by (auto dest: fresh_blockD)
    with q show ?thesis
      using assms by (intro moved [of q "w\<lparr>answers := as,
        blocks := (blocks w)(p := None, q \<mapsto> resized (unat n) cs)\<rparr>"]) (simp_all add: real_realloc_def)
  next
    case False
    define u where "u = (if answers w = [] then w else w\<lparr>answers := as\<rparr>)"
    have u: "real_realloc p n w = Done (NULL,
        if n = 0 then u\<lparr>blocks := (blocks w)(p := None)\<rparr> else u\<lparr>errno := ENOMEM\<rparr>)"
      using assms False by (auto simp: real_realloc_def u_def as_def split: list.splits option.splits)
    show ?thesis
    proof (cases "n = 0")
      case True
      with u show ?thesis
        by (intro freed [of "u\<lparr>blocks := (blocks w)(p := None)\<rparr>"]) (simp_all add: u_def)
    next
      case False
      with u show ?thesis
        by (intro failed [of "u\<lparr>errno := ENOMEM\<rparr>"]) (simp_all add: u_def)
    qed
  qed
qed

section \<open>Access to heap objects\<close>

text \<open>Reading and writing a range of an object; outside the object both are undefined.\<close>

definition read_cells :: "cell list \<Rightarrow> nat \<Rightarrow> nat \<Rightarrow> cell list outcome" where
  "read_cells cs off n = (if off + n \<le> length cs then Done (take n (drop off cs)) else Undef)"

definition object :: "ptr \<Rightarrow> 'a libc_scheme \<Rightarrow> cell list outcome" where
  "object p w = (case blocks w p of None \<Rightarrow> Undef | Some cs \<Rightarrow> Done cs)"

definition write_cells :: "ptr \<Rightarrow> nat \<Rightarrow> cell list \<Rightarrow> 'a libc_scheme \<Rightarrow> 'a libc_scheme outcome" where
  "write_cells p off new w =
     (case blocks w p of
        None \<Rightarrow> Undef
      | Some cs \<Rightarrow>
          if off + length new \<le> length cs
          then Done (w\<lparr>blocks := (blocks w)(p \<mapsto> overwrite off new cs)\<rparr>)
          else Undef)"

lemma write_cells_Done:
  "blocks w p = Some cs \<Longrightarrow> off + length new \<le> length cs \<Longrightarrow>
   write_cells p off new w = Done (w\<lparr>blocks := (blocks w)(p \<mapsto> overwrite off new cs)\<rparr>)"
  by (simp add: write_cells_def)

section \<open>Strings\<close>

text \<open>
  \<open>strlen\<close> and \<open>strnlen\<close> walk the cells of the object a pointer points into until the
  terminating NUL; they are undefined when they reach an indeterminate byte or the end of the
  object first.
\<close>

fun strlen :: "cell list \<Rightarrow> nat outcome" where
  "strlen [] = Undef"
| "strlen (None # cs) = Undef"
| "strlen (Some b # cs) = (if b = 0 then Done 0 else obind (strlen cs) (\<lambda>n. Done (Suc n)))"

fun strnlen :: "cell list \<Rightarrow> nat \<Rightarrow> nat outcome" where
  "strnlen cs 0 = Done 0"
| "strnlen [] (Suc n) = Undef"
| "strnlen (None # cs) (Suc n) = Undef"
| "strnlen (Some b # cs) (Suc n) =
     (if b = 0 then Done 0 else obind (strnlen cs n) (\<lambda>k. Done (Suc k)))"

text \<open>\<open>cstring s cs\<close>: the cells start with the C string \<open>s\<close> and its terminator.\<close>

definition cstring :: "byte list \<Rightarrow> cell list \<Rightarrow> bool" where
  "cstring s cs \<longleftrightarrow> 0 \<notin> set s \<and> take (Suc (length s)) cs = map Some s @ [Some 0]"

lemma cstring_Cons:
  "cstring (b # s) cs \<longleftrightarrow> b \<noteq> 0 \<and> (\<exists>cs'. cs = Some b # cs' \<and> cstring s cs')"
  by (cases cs) (auto simp: cstring_def)

lemma cstring_Nil: "cstring [] cs \<longleftrightarrow> (\<exists>cs'. cs = Some 0 # cs')"
  by (cases cs) (auto simp: cstring_def)

lemma cstring_length: "cstring s cs \<Longrightarrow> length s < length cs"
proof (induction s arbitrary: cs)
  case Nil
  then show ?case by (auto simp: cstring_Nil)
next
  case (Cons b s)
  then show ?case by (fastforce simp: cstring_Cons)
qed

lemma strlen_cstring: "cstring s cs \<Longrightarrow> strlen cs = Done (length s)"
proof (induction s arbitrary: cs)
  case Nil
  then show ?case by (auto simp: cstring_Nil)
next
  case (Cons b s)
  then show ?case by (auto simp: cstring_Cons)
qed

lemma strnlen_cstring: "cstring s cs \<Longrightarrow> strnlen cs n = Done (min (length s) n)"
proof (induction s arbitrary: cs n)
  case Nil
  then show ?case by (cases n) (auto simp: cstring_Nil)
next
  case (Cons b s)
  then show ?case by (cases n) (auto simp: cstring_Cons)
qed

lemma strlen_Done_cstring: "strlen cs = Done n \<Longrightarrow> \<exists>s. length s = n \<and> cstring s cs"
proof (induction cs arbitrary: n rule: strlen.induct)
  case (3 b cs)
  show ?case
  proof (cases "b = 0")
    case True
    with "3.prems" show ?thesis by (auto simp: cstring_Nil)
  next
    case False
    with "3.prems" obtain m where m: "strlen cs = Done m" "n = Suc m"
      by (auto simp: obind_eq_Done)
    with "3.IH" [OF False, of m] obtain s where "length s = m" "cstring s cs" by blast
    with False m show ?thesis by (intro exI [of _ "b # s"]) (simp add: cstring_Cons)
  qed
qed auto

text \<open>Two adjacent writes are one write.\<close>

lemma write_cells_append:
  "obind (write_cells p off a w) (write_cells p (off + length a) b) = write_cells p off (a @ b) w"
proof (cases "blocks w p")
  case None
  then show ?thesis by (simp add: write_cells_def)
next
  case (Some cs)
  show ?thesis
  proof (cases "off + length a + length b \<le> length cs")
    case True
    then have "overwrite (off + length a) b (overwrite off a cs) = overwrite off (a @ b) cs"
      by (intro nth_equalityI) (auto simp: nth_overwrite nth_append)
    with True Some show ?thesis by (simp add: write_cells_def)
  next
    case False
    with Some show ?thesis by (auto simp: write_cells_def)
  qed
qed

section \<open>Wide strings\<close>

text \<open>
  A \<open>wchar_t\<close> has four bytes on both targets, least significant first. \<open>wcslen\<close> counts wide
  characters up to the terminating null character.
\<close>

definition sizeof_wchar_t :: nat where [layout]: "sizeof_wchar_t = 4"

definition wchar_bytes :: "wchar \<Rightarrow> byte list" where
  "wchar_bytes c =
     [of_nat (unat c), of_nat (unat c div 256), of_nat (unat c div 256 ^ 2), of_nat (unat c div 256 ^ 3)]"

fun wcslen :: "cell list \<Rightarrow> nat outcome" where
  "wcslen (Some a # Some b # Some c # Some d # cs) =
     (if a = 0 \<and> b = 0 \<and> c = 0 \<and> d = 0 then Done 0 else obind (wcslen cs) (\<lambda>n. Done (Suc n)))"
| "wcslen _ = Undef"

definition wide_cells :: "wchar list \<Rightarrow> cell list" where
  "wide_cells ws = map Some (concat (map wchar_bytes ws))"

definition wcstring :: "wchar list \<Rightarrow> cell list \<Rightarrow> bool" where
  "wcstring ws cs \<longleftrightarrow> 0 \<notin> set ws \<and> take (4 * Suc (length ws)) cs = wide_cells (ws @ [0])"

lemma length_wchar_bytes [simp]: "length (wchar_bytes c) = 4"
  by (simp add: wchar_bytes_def)

lemma length_wide_cells [simp]: "length (wide_cells ws) = 4 * length ws"
  by (induction ws) (simp_all add: wide_cells_def)

lemma wide_cells_Nil [simp]: "wide_cells [] = []"
  by (simp add: wide_cells_def)

lemma wide_cells_Cons: "wide_cells (c # ws) = map Some (wchar_bytes c) @ wide_cells ws"
  by (simp add: wide_cells_def)

lemma unat_byte_of_nat: "unat (of_nat n :: byte) = n mod 256"
  by (simp add: unat_of_nat take_bit_eq_mod)

lemma unat_lt4294967296: "unat (c :: wchar) < 4294967296"
  by (rule less_le_trans [OF unsigned_less]) simp

lemma wchar_bytes_zero: "wchar_bytes c = [0, 0, 0, 0] \<longleftrightarrow> c = 0"
proof
  assume z: "wchar_bytes c = [0, 0, 0, 0]"
  then have "unat (of_nat (unat c) :: byte) = 0" "unat (of_nat (unat c div 256) :: byte) = 0"
      "unat (of_nat (unat c div 256 ^ 2) :: byte) = 0" "unat (of_nat (unat c div 256 ^ 3) :: byte) = 0"
    by (simp_all add: wchar_bytes_def)
  then have d: "unat c mod 256 = 0" "unat c div 256 mod 256 = 0"
      "unat c div 256 ^ 2 mod 256 = 0" "unat c div 256 ^ 3 mod 256 = 0"
    by (simp_all only: unat_byte_of_nat)
  have "unat c mod 256 ^ 4 = (\<Sum>i<4. unat c div 256 ^ i mod 256 * 256 ^ i)"
    by (rule base_expansion [symmetric])
  also have "\<dots> = 0"
  proof (intro sum.neutral ballI)
    fix i :: nat assume "i \<in> {..<4}"
    then consider "i = 0" | "i = 1" | "i = 2" | "i = 3" by (auto simp: less_Suc_eq numeral_eq_Suc)
    then show "unat c div 256 ^ i mod 256 * 256 ^ i = 0" using d by cases simp_all
  qed
  finally have "unat c mod 4294967296 = 0" by simp
  moreover have "unat c < 4294967296" by (rule unat_lt4294967296)
  ultimately have "unat c = 0" by simp
  then show "c = 0" by (simp add: unat_eq_zero)
next
  assume "c = 0"
  then show "wchar_bytes c = [0, 0, 0, 0]" by (simp add: wchar_bytes_def)
qed

lemma wchar_bytes_eq: "\<exists>a b c d. wchar_bytes x = [a, b, c, d]"
  by (simp add: wchar_bytes_def)

lemma take_eq_Cons: "take (Suc n) cs = y # ys \<Longrightarrow> \<exists>cs'. cs = y # cs' \<and> take n cs' = ys"
  by (cases cs) auto

text \<open>Splitting off the first wide character of a string.\<close>

lemma wcstring_Cons:
  assumes "wcstring (x # ws) cs"
  obtains a b c d cs' where "cs = Some a # Some b # Some c # Some d # cs'" "wchar_bytes x = [a, b, c, d]"
    and "x \<noteq> 0" "wcstring ws cs'"
proof -
  obtain a b c d where x: "wchar_bytes x = [a, b, c, d]" using wchar_bytes_eq by blast
  have t: "take (Suc (Suc (Suc (Suc (4 * Suc (length ws)))))) cs
      = Some a # Some b # Some c # Some d # wide_cells (ws @ [0])"
    using assms x by (simp add: wcstring_def wide_cells_def)
  obtain cs' where "cs = Some a # Some b # Some c # Some d # cs'"
      "take (4 * Suc (length ws)) cs' = wide_cells (ws @ [0])"
    using take_eq_Cons [OF t] take_eq_Cons by metis
  with x assms show ?thesis
    by (intro that [of a b c d cs']) (auto simp: wcstring_def)
qed

lemma wcslen_wcstring: "wcstring ws cs \<Longrightarrow> wcslen cs = Done (length ws)"
proof (induction ws arbitrary: cs)
  case Nil
  then have "take 4 cs = [Some 0, Some 0, Some 0, Some 0]"
    using wchar_bytes_zero [of 0] by (simp add: wcstring_def wide_cells_def)
  then obtain cs' where "cs = Some 0 # Some 0 # Some 0 # Some 0 # cs'"
    by (metis append_Cons append_Nil append_take_drop_id)
  then show ?case by simp
next
  case (Cons x ws)
  obtain a b c d cs' where cs: "cs = Some a # Some b # Some c # Some d # cs'"
      "wchar_bytes x = [a, b, c, d]" "x \<noteq> 0" "wcstring ws cs'"
    using wcstring_Cons [OF Cons.prems] .
  then have "\<not> (a = 0 \<and> b = 0 \<and> c = 0 \<and> d = 0)"
    using wchar_bytes_zero [of x] by auto
  with cs Cons.IH [of cs'] show ?case by simp
qed

end
