(* ===== verification/Ptr_Map.thy ===== *)
theory Ptr_Map
  imports Prelude
begin

text \<open>
  The interface of the allocation registry as its client, the mock allocator, uses it: a
  bounded finite map from addresses to a requested size and an allocation id. The laws are
  what insertion and removal promise; the facts the allocator needs about free room and about
  the sum of the recorded sizes are proved here once, from the laws alone.
\<close>

locale ptr_map =
  fixes content :: "'r \<Rightarrow> 64 word \<Rightarrow> (size_t \<times> 64 word) option"
    and insrt :: "64 word \<Rightarrow> size_t \<Rightarrow> 64 word \<Rightarrow> 'r \<Rightarrow> 'r option"
    and remov :: "64 word \<Rightarrow> 'r \<Rightarrow> ((size_t \<times> 64 word) \<times> 'r) option"
    and ok :: "'r \<Rightarrow> bool"
    and valid :: "64 word \<Rightarrow> bool"
    and cap :: nat
  assumes content_valid: "content r k = Some v \<Longrightarrow> valid k"
    and finite_content: "ok r \<Longrightarrow> finite (dom (content r))"
    and card_content: "ok r \<Longrightarrow> card (dom (content r)) \<le> cap"
    and insrt_Some: "ok r \<Longrightarrow> valid k \<Longrightarrow> insrt k sz aid r = Some r' \<Longrightarrow>
          ok r' \<and> content r' = (content r)(k \<mapsto> (sz, aid))"
    and insrt_None: "ok r \<Longrightarrow> valid k \<Longrightarrow> insrt k sz aid r = None \<Longrightarrow>
          content r k = None \<and> card (dom (content r)) = cap"
    and remov_None: "valid k \<Longrightarrow> remov k r = None \<longleftrightarrow> content r k = None"
    and remov_Some: "ok r \<Longrightarrow> valid k \<Longrightarrow> remov k r = Some (v, r') \<Longrightarrow>
          ok r' \<and> content r k = Some v \<and> content r' = (content r)(k := None)"
begin

text \<open>Insertion of a new address: the number of entries and the sum of the sizes.\<close>

lemma insrt_new:
  assumes "ok r" "valid k" "content r k = None" "insrt k sz aid r = Some r'"
  shows "card (dom (content r')) = Suc (card (dom (content r)))"
    and "total_size (content r') = total_size (content r) + sz"
  using assms finite_content insrt_Some [OF assms(1,2,4)]
  by (simp_all add: card_dom_insert total_size_insert del: dom_fun_upd)

lemma insrt_room:
  assumes "ok r" "valid k" "card (dom (content r)) < cap"
  shows "\<exists>r'. insrt k sz aid r = Some r'"
  using insrt_None [OF assms(1,2), of sz aid] assms(3) by (cases "insrt k sz aid r") auto

text \<open>Removal of an address.\<close>

lemma remov_present:
  assumes "ok r" "valid k" "remov k r = Some (v, r')"
  shows "Suc (card (dom (content r'))) = card (dom (content r))"
    and "total_size (content r') = total_size (content r) - fst v"
  using assms finite_content remov_Some [OF assms]
  by (simp_all add: card_dom_remove total_size_remove del: dom_fun_upd)

text \<open>An insertion right after a removal always finds room.\<close>

lemma insrt_after_remov:
  assumes "ok r" "valid k" "remov k r = Some (v, r')" "valid q"
  shows "\<exists>r''. insrt q sz aid r' = Some r''"
proof -
  have "card (dom (content r')) < cap"
    using remov_present(1) [OF assms(1-3)] card_content [OF assms(1)] by simp
  then show ?thesis
    using insrt_room [of r' q] remov_Some [OF assms(1-3)] assms(4) by blast
qed

end

end
