(* ===== verification/Registry.thy ===== *)
theory Registry
  imports Ptr_Map
begin

text \<open>
  The allocation registry of \<open>src/mock_allocator.c\<close>: a fixed table of 65536 entries with
  linear probing and tombstones, keyed by the address of the allocation. The loops of
  insertion, lookup and removal are translated one to one; the table is a function on
  indices, of which the code only touches those below the capacity. Every operation is then
  shown to implement the corresponding operation on a finite map (\<open>ptr_map\<close>).
\<close>

section \<open>The table\<close>

record ao_registry_entry =
  key :: "64 word"
  requested_size :: size_t
  allocation_id :: "64 word"

type_synonym registry = "nat \<Rightarrow> ao_registry_entry"

definition AO_REGISTRY_CAPACITY :: nat where "AO_REGISTRY_CAPACITY = 65536"
definition AO_REGISTRY_EMPTY :: "64 word" where "AO_REGISTRY_EMPTY = 0"
definition AO_REGISTRY_TOMBSTONE :: "64 word" where "AO_REGISTRY_TOMBSTONE = 1"

definition empty_entry :: ao_registry_entry where
  "empty_entry = \<lparr>key = 0, requested_size = 0, allocation_id = 0\<rparr>"

text \<open>The static table starts zeroed, so every entry is empty.\<close>

definition empty_registry :: registry where
  "empty_registry = (\<lambda>_. empty_entry)"

definition ao_registry_index_for :: "64 word \<Rightarrow> size_t" where
  "ao_registry_index_for k = drop_bit 4 k AND 65535"

text \<open>The \<open>i\<close>-th entry that the loops probe for a key.\<close>

definition probe :: "64 word \<Rightarrow> nat \<Rightarrow> nat" where
  "probe k i = unat ((ao_registry_index_for k + of_nat i) AND 65535)"

function lookup_loop :: "registry \<Rightarrow> 64 word \<Rightarrow> nat \<Rightarrow> (size_t \<times> 64 word) option" where
  "lookup_loop reg k i =
     (if i < AO_REGISTRY_CAPACITY
      then let entry = reg (probe k i)
           in if key entry = AO_REGISTRY_EMPTY then None
              else if key entry = k then Some (requested_size entry, allocation_id entry)
              else lookup_loop reg k (Suc i)
      else None)"
  by pat_completeness auto
termination
  by (relation "measure (\<lambda>(reg, k, i). AO_REGISTRY_CAPACITY - i)") auto

definition ao_registry_lookup_locked :: "64 word \<Rightarrow> registry \<Rightarrow> (size_t \<times> 64 word) option" where
  "ao_registry_lookup_locked k reg = lookup_loop reg k 0"

text \<open>
  Insertion returns the new table, or \<open>None\<close> for the return value 0. The second index is
  \<open>first_tombstone\<close>, which is the capacity as long as no tombstone was met.
\<close>

function insert_loop ::
  "registry \<Rightarrow> 64 word \<Rightarrow> size_t \<Rightarrow> 64 word \<Rightarrow> nat \<Rightarrow> nat \<Rightarrow> registry option" where
  "insert_loop reg k sz aid first_tombstone i =
     (let new = \<lparr>key = k, requested_size = sz, allocation_id = aid\<rparr>
      in if i < AO_REGISTRY_CAPACITY
         then let entry = reg (probe k i)
              in if key entry = k
                 then Some (reg(probe k i := entry\<lparr>requested_size := sz, allocation_id := aid\<rparr>))
                 else if key entry = AO_REGISTRY_TOMBSTONE \<and> first_tombstone = AO_REGISTRY_CAPACITY
                 then insert_loop reg k sz aid (probe k i) (Suc i)
                 else if key entry = AO_REGISTRY_EMPTY
                 then let target = if first_tombstone = AO_REGISTRY_CAPACITY
                                   then probe k i else first_tombstone
                      in Some (reg(target := new))
                 else insert_loop reg k sz aid first_tombstone (Suc i)
         else if first_tombstone \<noteq> AO_REGISTRY_CAPACITY
         then Some (reg(first_tombstone := new))
         else None)"
  by pat_completeness auto
termination
  by (relation "measure (\<lambda>(reg, k, sz, aid, ft, i). AO_REGISTRY_CAPACITY - i)") auto

definition ao_registry_insert_locked ::
  "64 word \<Rightarrow> size_t \<Rightarrow> 64 word \<Rightarrow> registry \<Rightarrow> registry option" where
  "ao_registry_insert_locked k sz aid reg = insert_loop reg k sz aid AO_REGISTRY_CAPACITY 0"

text \<open>Removal returns what the entry held and the new table, or \<open>None\<close> for 0.\<close>

function remove_loop ::
  "registry \<Rightarrow> 64 word \<Rightarrow> nat \<Rightarrow> ((size_t \<times> 64 word) \<times> registry) option" where
  "remove_loop reg k i =
     (if i < AO_REGISTRY_CAPACITY
      then let entry = reg (probe k i)
           in if key entry = AO_REGISTRY_EMPTY then None
              else if key entry = k
              then Some ((requested_size entry, allocation_id entry),
                         reg(probe k i := \<lparr>key = AO_REGISTRY_TOMBSTONE,
                                           requested_size = 0, allocation_id = 0\<rparr>))
              else remove_loop reg k (Suc i)
      else None)"
  by pat_completeness auto
termination
  by (relation "measure (\<lambda>(reg, k, i). AO_REGISTRY_CAPACITY - i)") auto

definition ao_registry_remove_locked ::
  "64 word \<Rightarrow> registry \<Rightarrow> ((size_t \<times> 64 word) \<times> registry) option" where
  "ao_registry_remove_locked k reg = remove_loop reg k 0"

declare lookup_loop.simps [simp del] insert_loop.simps [simp del] remove_loop.simps [simp del]

lemmas registry_consts =
  AO_REGISTRY_CAPACITY_def AO_REGISTRY_EMPTY_def AO_REGISTRY_TOMBSTONE_def

section \<open>Probe sequences\<close>

lemma probe_mod: "probe k i = (unat (ao_registry_index_for k) + i) mod AO_REGISTRY_CAPACITY"
proof -
  have "probe k i = unat (ao_registry_index_for k + of_nat i) mod 65536"
    by (simp add: probe_def unat_and_mask16)
  also have "\<dots> = ((unat (ao_registry_index_for k) + unat (of_nat i :: 64 word)) mod 2 ^ 64) mod 2 ^ 16"
    by (simp add: unat_word_ariths)
  also have "\<dots> = (unat (ao_registry_index_for k) + unat (of_nat i :: 64 word)) mod 2 ^ 16"
    by (rule mod_mod_cancel) (simp add: le_imp_power_dvd)
  also have "\<dots> = (unat (ao_registry_index_for k) + i mod 2 ^ 64) mod 2 ^ 16"
    by (simp add: unat_of_nat take_bit_eq_mod)
  also have "\<dots> = (unat (ao_registry_index_for k) + i mod 2 ^ 64 mod 2 ^ 16) mod 2 ^ 16"
    by (rule mod_add_right_eq [symmetric])
  also have "i mod 2 ^ 64 mod 2 ^ 16 = i mod 2 ^ 16"
    by (rule mod_mod_cancel) (simp add: le_imp_power_dvd)
  finally show ?thesis
    by (simp add: AO_REGISTRY_CAPACITY_def mod_add_right_eq)
qed

lemma probe_less: "probe k i < AO_REGISTRY_CAPACITY"
  by (simp add: probe_mod AO_REGISTRY_CAPACITY_def)

lemma probe_inj:
  assumes "i < AO_REGISTRY_CAPACITY" "j < AO_REGISTRY_CAPACITY" "probe k i = probe k j"
  shows "i = j"
proof -
  let ?h = "unat (ao_registry_index_for k)"
  have "(?h + i) mod 65536 = (?h + j) mod 65536"
    using assms(3) by (simp add: probe_mod AO_REGISTRY_CAPACITY_def)
  then have "int 65536 dvd int (?h + i) - int (?h + j)"
    by (metis mod_eq_dvd_iff zmod_int)
  then obtain d where d: "int i - int j = 65536 * d"
    by (auto simp: dvd_def)
  have "int i < 65536" "int j < 65536"
    using assms(1,2) by (simp_all add: AO_REGISTRY_CAPACITY_def)
  with d have "d < 1" "- 1 < d" by linarith+
  with d show ?thesis by simp
qed

lemma probe_surj:
  assumes "j < AO_REGISTRY_CAPACITY"
  shows "\<exists>i < AO_REGISTRY_CAPACITY. probe k i = j"
proof -
  have "probe k ` {..<AO_REGISTRY_CAPACITY} \<subseteq> {..<AO_REGISTRY_CAPACITY}"
    by (auto simp: probe_less)
  moreover have "inj_on (probe k) {..<AO_REGISTRY_CAPACITY}"
    by (auto intro: inj_onI probe_inj)
  ultimately have "probe k ` {..<AO_REGISTRY_CAPACITY} = {..<AO_REGISTRY_CAPACITY}"
    by (intro endo_inj_surj) auto
  with assms show ?thesis
    by (metis imageE lessThan_iff)
qed

section \<open>Invariant of the table\<close>

definition live_key :: "64 word \<Rightarrow> bool" where
  "live_key k \<longleftrightarrow> k \<noteq> AO_REGISTRY_EMPTY \<and> k \<noteq> AO_REGISTRY_TOMBSTONE"

text \<open>\<open>at reg k n\<close>: the key is in the \<open>n\<close>-th entry of its probe sequence, and the loops
  reach that entry, since no entry before it is empty or holds the key.\<close>

definition clear_before :: "registry \<Rightarrow> 64 word \<Rightarrow> nat \<Rightarrow> bool" where
  "clear_before reg k n \<longleftrightarrow>
     (\<forall>m<n. key (reg (probe k m)) \<noteq> AO_REGISTRY_EMPTY \<and> key (reg (probe k m)) \<noteq> k)"

definition at :: "registry \<Rightarrow> 64 word \<Rightarrow> nat \<Rightarrow> bool" where
  "at reg k n \<longleftrightarrow> n < AO_REGISTRY_CAPACITY \<and> key (reg (probe k n)) = k \<and> clear_before reg k n"

text \<open>Every live key of the table is where its probe sequence finds it.\<close>

definition registry_ok :: "registry \<Rightarrow> bool" where
  "registry_ok reg \<longleftrightarrow>
     (\<forall>j<AO_REGISTRY_CAPACITY. live_key (key (reg j)) \<longrightarrow>
        (\<exists>n. at reg (key (reg j)) n \<and> probe (key (reg j)) n = j))"

lemma at_unique: "at reg k n \<Longrightarrow> at reg k m \<Longrightarrow> n = m"
  by (auto simp: at_def clear_before_def) (metis linorder_neqE_nat)

lemma registry_ok_at:
  assumes "registry_ok reg" "live_key k" "j < AO_REGISTRY_CAPACITY" "key (reg j) = k"
  shows "\<exists>n. at reg k n \<and> probe k n = j"
  using assms by (auto simp: registry_ok_def)

lemma registry_ok_unique:
  assumes "registry_ok reg" "live_key k"
    and "i < AO_REGISTRY_CAPACITY" "key (reg i) = k" "j < AO_REGISTRY_CAPACITY" "key (reg j) = k"
  shows "i = j"
  using registry_ok_at [OF assms(1,2,3,4)] registry_ok_at [OF assms(1,2,5,6)] at_unique by blast

lemma registry_ok_empty: "registry_ok empty_registry"
  by (simp add: registry_ok_def empty_registry_def empty_entry_def live_key_def AO_REGISTRY_EMPTY_def)

section \<open>Lookup\<close>

lemma lookup_loop_Some:
  "k \<noteq> AO_REGISTRY_EMPTY \<Longrightarrow> clear_before reg k i \<Longrightarrow>
   lookup_loop reg k i = Some v \<longleftrightarrow>
     (\<exists>n\<ge>i. at reg k n \<and>
        v = (requested_size (reg (probe k n)), allocation_id (reg (probe k n))))"
proof (induction reg k i rule: lookup_loop.induct)
  case (1 reg k i)
  let ?e = "reg (probe k i)"
  show ?case
  proof (cases "i < AO_REGISTRY_CAPACITY \<and> key ?e \<noteq> AO_REGISTRY_EMPTY \<and> key ?e \<noteq> k")
    case True
    then have "clear_before reg k (Suc i)"
      using "1.prems" by (auto simp: clear_before_def less_Suc_eq)
    moreover have "lookup_loop reg k i = lookup_loop reg k (Suc i)"
      using True by (subst lookup_loop.simps) (simp add: Let_def)
    moreover have "\<not> at reg k i"
      using True by (simp add: at_def)
    ultimately show ?thesis
      using "1.IH" [OF _ refl] True "1.prems" by (metis Suc_leD le_antisym not_less_eq_eq)
  next
    case False
    show ?thesis
    proof (cases "i < AO_REGISTRY_CAPACITY \<and> key ?e = k")
      case True
      then have "at reg k i" using "1.prems" by (simp add: at_def)
      then have "(\<exists>n\<ge>i. at reg k n \<and> v = (requested_size (reg (probe k n)), allocation_id (reg (probe k n))))
          \<longleftrightarrow> v = (requested_size ?e, allocation_id ?e)"
        using at_unique by blast
      then show ?thesis
        using True "1.prems"(1) by (subst lookup_loop.simps) (auto simp: Let_def)
    next
      case no: False
      have "\<not> at reg k n" if "i \<le> n" for n
        using False no that by (auto simp: at_def clear_before_def le_less)
      then show ?thesis
        using False no by (subst lookup_loop.simps) (auto simp: Let_def)
    qed
  qed
qed

lemma lookup_Some_at:
  "k \<noteq> AO_REGISTRY_EMPTY \<Longrightarrow>
   ao_registry_lookup_locked k reg = Some v \<longleftrightarrow>
     (\<exists>n. at reg k n \<and> v = (requested_size (reg (probe k n)), allocation_id (reg (probe k n))))"
  unfolding ao_registry_lookup_locked_def
  by (subst lookup_loop_Some) (auto simp: clear_before_def)

text \<open>The content of the table as a map; the two reserved keys are never in it.\<close>

definition registry_map :: "registry \<Rightarrow> 64 word \<Rightarrow> (size_t \<times> 64 word) option" where
  "registry_map reg k = (if live_key k then ao_registry_lookup_locked k reg else None)"

lemma registry_map_iff:
  assumes "registry_ok reg"
  shows "registry_map reg k = Some v \<longleftrightarrow>
     live_key k \<and> (\<exists>j<AO_REGISTRY_CAPACITY. key (reg j) = k \<and> v = (requested_size (reg j), allocation_id (reg j)))"
proof (cases "live_key k")
  case True
  then have "registry_map reg k = Some v \<longleftrightarrow>
      (\<exists>n. at reg k n \<and> v = (requested_size (reg (probe k n)), allocation_id (reg (probe k n))))"
    by (simp add: registry_map_def lookup_Some_at live_key_def)
  also have "\<dots> \<longleftrightarrow> (\<exists>j<AO_REGISTRY_CAPACITY. key (reg j) = k \<and> v = (requested_size (reg j), allocation_id (reg j)))"
    using registry_ok_at [OF assms True] probe_less by (metis at_def)
  finally show ?thesis using True by simp
qed (simp add: registry_map_def)

text \<open>How the map follows a change of one entry.\<close>

lemma registry_map_entry:
  assumes "registry_ok reg" "j < AO_REGISTRY_CAPACITY" "live_key (key (reg j))"
  shows "registry_map reg (key (reg j)) = Some (requested_size (reg j), allocation_id (reg j))"
  using registry_map_iff [OF assms(1)] assms(2,3) by blast

lemma registry_map_upd_other:
  assumes ok: "registry_ok reg" and ok': "registry_ok (reg(j := e))"
    and x: "x \<noteq> key e" "x \<noteq> key (reg j)"
  shows "registry_map (reg(j := e)) x = registry_map reg x"
proof -
  have "(i < AO_REGISTRY_CAPACITY \<and> key ((reg(j := e)) i) = x \<and> P ((reg(j := e)) i)) \<longleftrightarrow>
      (i < AO_REGISTRY_CAPACITY \<and> key (reg i) = x \<and> P (reg i))" for i P
    using x by (cases "i = j") auto
  from this [where P = "\<lambda>e. v = (requested_size e, allocation_id e)" for v]
  have "registry_map (reg(j := e)) x = Some v \<longleftrightarrow> registry_map reg x = Some v" for v
    by (simp only: registry_map_iff [OF ok] registry_map_iff [OF ok'])
  then show ?thesis
    by (cases "registry_map reg x"; cases "registry_map (reg(j := e)) x") auto
qed

lemma registry_map_upd_gone:
  assumes ok: "registry_ok reg" and ok': "registry_ok (reg(j := e))"
    and j: "j < AO_REGISTRY_CAPACITY" "live_key (key (reg j))" "key e \<noteq> key (reg j)"
  shows "registry_map (reg(j := e)) (key (reg j)) = None"
proof (rule ccontr)
  assume "registry_map (reg(j := e)) (key (reg j)) \<noteq> None"
  then obtain v where "registry_map (reg(j := e)) (key (reg j)) = Some v" by blast
  then obtain i where i: "i < AO_REGISTRY_CAPACITY" "key ((reg(j := e)) i) = key (reg j)"
    unfolding registry_map_iff [OF ok'] by blast
  with j(3) have "i \<noteq> j" "key (reg i) = key (reg j)" by (auto split: if_splits)
  with registry_ok_unique [OF ok j(2) i(1) _ j(1) refl] show False by blast
qed

section \<open>Insertion\<close>

definition new_entry :: "64 word \<Rightarrow> size_t \<Rightarrow> 64 word \<Rightarrow> ao_registry_entry" where
  "new_entry k sz aid = \<lparr>key = k, requested_size = sz, allocation_id = aid\<rparr>"

text \<open>The entry an insertion writes: the one that holds the key, or, when none does, a
  reusable one (a tombstone or an empty entry) that lookups of the key reach.\<close>

definition insert_target :: "registry \<Rightarrow> 64 word \<Rightarrow> nat \<Rightarrow> bool" where
  "insert_target reg k t \<longleftrightarrow>
     at reg k t \<or>
     (\<nexists>n. at reg k n) \<and> t < AO_REGISTRY_CAPACITY \<and> clear_before reg k t
       \<and> \<not> live_key (key (reg (probe k t)))"

lemma clear_before_mono: "clear_before reg k n \<Longrightarrow> m \<le> n \<Longrightarrow> clear_before reg k m"
  by (simp add: clear_before_def)

lemma clear_before_Suc:
  "clear_before reg k (Suc n) \<longleftrightarrow> clear_before reg k n
     \<and> key (reg (probe k n)) \<noteq> AO_REGISTRY_EMPTY \<and> key (reg (probe k n)) \<noteq> k"
  by (auto simp: clear_before_def less_Suc_eq)

lemma insert_loop_result:
  assumes "live_key k" "clear_before reg k i" "i \<le> AO_REGISTRY_CAPACITY"
    and "ft = AO_REGISTRY_CAPACITY \<or>
         (\<exists>t<i. ft = probe k t \<and> key (reg (probe k t)) = AO_REGISTRY_TOMBSTONE)"
  shows "case insert_loop reg k sz aid ft i of
           Some reg' \<Rightarrow> \<exists>t. insert_target reg k t \<and> reg' = reg(probe k t := new_entry k sz aid)
         | None \<Rightarrow> ft = AO_REGISTRY_CAPACITY \<and>
             (\<forall>m. i \<le> m \<and> m < AO_REGISTRY_CAPACITY \<longrightarrow>
                live_key (key (reg (probe k m))) \<and> key (reg (probe k m)) \<noteq> k)"
  using assms
proof (induction reg k sz aid ft i rule: insert_loop.induct)
  case (1 reg k sz aid ft i)
  let ?cap = AO_REGISTRY_CAPACITY and ?e = "reg (probe k i)"
  have ft: "insert_target reg k t" if "t < i" "ft = probe k t" "\<nexists>n. at reg k n"
      "key (reg (probe k t)) = AO_REGISTRY_TOMBSTONE" for t
    using that "1.prems" clear_before_mono [of reg k i t]
    by (auto simp: insert_target_def live_key_def)
  consider (full) "i = ?cap" | (hit) "i < ?cap" "key ?e = k"
    | (empty) "i < ?cap" "key ?e = AO_REGISTRY_EMPTY"
    | (tomb) "i < ?cap" "key ?e \<noteq> k" "key ?e = AO_REGISTRY_TOMBSTONE" "ft = ?cap"
    | (other) "i < ?cap" "key ?e \<noteq> k" "key ?e \<noteq> AO_REGISTRY_EMPTY"
        "\<not> (key ?e = AO_REGISTRY_TOMBSTONE \<and> ft = ?cap)"
    using "1.prems"(3) by linarith
  then show ?case
  proof cases
    case full
    then have "\<nexists>n. at reg k n"
      using "1.prems"(2) by (auto simp: at_def clear_before_def)
    with full ft "1.prems"(4) show ?thesis
      by (subst insert_loop.simps) (auto simp: new_entry_def)
  next
    case hit
    then have "insert_target reg k i"
      using "1.prems"(2) by (simp add: insert_target_def at_def)
    moreover have "?e\<lparr>requested_size := sz, allocation_id := aid\<rparr> = new_entry k sz aid"
      using hit(2) by (cases ?e) (simp add: new_entry_def)
    ultimately show ?thesis
      using hit by (subst insert_loop.simps) (auto simp: Let_def)
  next
    case empty
    then have none: "\<nexists>n. at reg k n"
      using "1.prems"(1,2)
      by (auto simp: at_def clear_before_def live_key_def) (metis linorder_neqE_nat)
    then have "insert_target reg k i"
      using empty "1.prems"(2) by (simp add: insert_target_def live_key_def)
    with empty none ft "1.prems"(1,4) show ?thesis
      by (subst insert_loop.simps)
        (auto simp: new_entry_def Let_def live_key_def AO_REGISTRY_EMPTY_def AO_REGISTRY_TOMBSTONE_def)
  next
    case tomb
    then have "clear_before reg k (Suc i)"
      using "1.prems"(2) by (simp add: clear_before_Suc AO_REGISTRY_EMPTY_def AO_REGISTRY_TOMBSTONE_def)
    moreover have "insert_loop reg k sz aid ft i = insert_loop reg k sz aid (probe k i) (Suc i)"
      using tomb by (subst insert_loop.simps) (simp add: Let_def)
    moreover have "probe k i \<noteq> ?cap"
      using probe_less [of k i] by simp
    moreover have "\<exists>t<Suc i. probe k i = probe k t \<and> key (reg (probe k t)) = AO_REGISTRY_TOMBSTONE"
      using tomb(3) by blast
    ultimately show ?thesis
      using "1.IH"(1) [OF refl tomb(1) refl tomb(2) conjI [OF tomb(3,4)]] tomb(1) "1.prems"(1)
      by (cases "insert_loop reg k sz aid (probe k i) (Suc i)") (auto simp del: fun_upd_apply)
  next
    case other
    then have "clear_before reg k (Suc i)"
      using "1.prems"(2) by (simp add: clear_before_Suc)
    moreover have "insert_loop reg k sz aid ft i = insert_loop reg k sz aid ft (Suc i)"
      using other by (subst insert_loop.simps) (auto simp: Let_def)
    moreover have prefix: "ft = ?cap \<or>
        (\<exists>t<Suc i. ft = probe k t \<and> key (reg (probe k t)) = AO_REGISTRY_TOMBSTONE)"
      using "1.prems"(4) less_SucI by blast
    moreover have "live_key (key ?e)" if "ft = ?cap"
      using that other by (simp add: live_key_def)
    ultimately show ?thesis
      using "1.IH"(2) [OF refl other(1) refl other(2) other(4) other(3)] other "1.prems"(1)
        prefix by (auto split: option.splits) (metis Suc_leI le_neq_implies_less)+
  qed
qed

lemma insert_Some_target:
  assumes "live_key k" "ao_registry_insert_locked k sz aid reg = Some reg'"
  obtains t where "insert_target reg k t" "reg' = reg(probe k t := new_entry k sz aid)"
  using insert_loop_result [of k reg 0 AO_REGISTRY_CAPACITY sz aid] assms
  by (auto simp: ao_registry_insert_locked_def clear_before_def)

lemma insert_target_clear:
  "insert_target reg k t \<Longrightarrow> t < AO_REGISTRY_CAPACITY \<and> clear_before reg k t"
  by (auto simp: insert_target_def at_def)

lemma at_insert:
  assumes "insert_target reg k t"
  shows "at (reg(probe k t := new_entry k sz aid)) k t"
proof -
  have "probe k m \<noteq> probe k t" if "m < t" for m
    using probe_inj [of m t k] insert_target_clear [OF assms] that by auto
  then show ?thesis
    using insert_target_clear [OF assms] by (simp add: at_def clear_before_def new_entry_def)
qed

text \<open>Other keys stay where they are when an entry that does not hold them is overwritten
  by anything but an empty entry.\<close>

lemma at_upd_other:
  assumes "at reg k' n" "probe k' n \<noteq> j" "key e \<noteq> AO_REGISTRY_EMPTY" "key e \<noteq> k'"
  shows "at (reg(j := e)) k' n"
  using assms by (auto simp: at_def clear_before_def)

lemma insert_other_key:
  assumes "registry_ok reg" "insert_target reg k t" "live_key k"
    and "j < AO_REGISTRY_CAPACITY" "j \<noteq> probe k t"
  shows "key (reg j) \<noteq> k"
proof
  assume "key (reg j) = k"
  then obtain n where "at reg k n" "probe k n = j"
    using registry_ok_at [OF assms(1,3,4)] by blast
  with assms(2,5) show False
    using at_unique [of reg k n t] by (auto simp: insert_target_def)
qed

lemma registry_ok_insert:
  assumes ok: "registry_ok reg" and k: "live_key k"
    and ins: "ao_registry_insert_locked k sz aid reg = Some reg'"
  shows "registry_ok reg'"
proof -
  obtain t where t: "insert_target reg k t" and reg': "reg' = reg(probe k t := new_entry k sz aid)"
    using insert_Some_target [OF k ins] .
  show ?thesis
    unfolding registry_ok_def
  proof (intro allI impI)
    fix j assume j: "j < AO_REGISTRY_CAPACITY" and live: "live_key (key (reg' j))"
    show "\<exists>n. at reg' (key (reg' j)) n \<and> probe (key (reg' j)) n = j"
    proof (cases "j = probe k t")
      case True
      then have "key (reg' j) = k" by (simp add: reg' new_entry_def)
      with True at_insert [OF t] show ?thesis by (auto simp: reg')
    next
      case False
      then have eq: "key (reg' j) = key (reg j)" by (simp add: reg')
      have "key (reg j) \<noteq> k" by (rule insert_other_key [OF ok t k j False])
      moreover obtain n where "at reg (key (reg j)) n" "probe (key (reg j)) n = j"
        using registry_ok_at [OF ok _ j refl] live eq by auto
      ultimately have "at reg' (key (reg j)) n \<and> probe (key (reg j)) n = j"
        using False k unfolding reg'
        by (auto intro!: at_upd_other simp: new_entry_def live_key_def)
      with eq show ?thesis by auto
    qed
  qed
qed

lemma registry_map_insert:
  assumes ok: "registry_ok reg" and k: "live_key k"
    and ins: "ao_registry_insert_locked k sz aid reg = Some reg'"
  shows "registry_map reg' = (registry_map reg)(k \<mapsto> (sz, aid))"
proof -
  obtain t where t: "insert_target reg k t" and reg': "reg' = reg(probe k t := new_entry k sz aid)"
    using insert_Some_target [OF k ins] .
  have ok': "registry_ok (reg(probe k t := new_entry k sz aid))"
    using registry_ok_insert [OF ok k ins] by (simp add: reg')
  show ?thesis
  proof
    fix x
    consider "x = k" | "x \<noteq> k" "x = key (reg (probe k t))" | "x \<noteq> k" "x \<noteq> key (reg (probe k t))"
      by blast
    then show "registry_map reg' x = ((registry_map reg)(k \<mapsto> (sz, aid))) x"
    proof cases
      case 1
      then show ?thesis
        using registry_map_entry [OF ok' probe_less [of k t]] k by (simp add: reg' new_entry_def)
    next
      case 2
      with t have "\<not> live_key x" by (auto simp: insert_target_def at_def)
      with 2 show ?thesis by (simp add: registry_map_def)
    next
      case 3
      then show ?thesis
        using registry_map_upd_other [OF ok ok', of x] by (simp add: reg' new_entry_def)
    qed
  qed
qed

text \<open>Insertion fails exactly when every entry holds another live key.\<close>

lemma insert_None_iff:
  assumes "live_key k"
  shows "ao_registry_insert_locked k sz aid reg = None \<longleftrightarrow>
     (\<forall>j<AO_REGISTRY_CAPACITY. live_key (key (reg j)) \<and> key (reg j) \<noteq> k)"
proof
  assume "ao_registry_insert_locked k sz aid reg = None"
  with insert_loop_result [of k reg 0 AO_REGISTRY_CAPACITY sz aid] assms
  show "\<forall>j<AO_REGISTRY_CAPACITY. live_key (key (reg j)) \<and> key (reg j) \<noteq> k"
    using probe_surj [of _ k] by (auto simp: ao_registry_insert_locked_def clear_before_def) metis+
next
  assume full: "\<forall>j<AO_REGISTRY_CAPACITY. live_key (key (reg j)) \<and> key (reg j) \<noteq> k"
  show "ao_registry_insert_locked k sz aid reg = None"
  proof (cases "ao_registry_insert_locked k sz aid reg")
    case (Some reg')
    then obtain t where "insert_target reg k t"
      using insert_Some_target [OF assms] by blast
    with full probe_less show ?thesis by (auto simp: insert_target_def at_def)
  qed
qed

section \<open>Removal\<close>

definition tombstone_entry :: ao_registry_entry where
  "tombstone_entry = \<lparr>key = AO_REGISTRY_TOMBSTONE, requested_size = 0, allocation_id = 0\<rparr>"

lemma remove_loop_None: "remove_loop reg k i = None \<longleftrightarrow> lookup_loop reg k i = None"
proof (induction reg k i rule: lookup_loop.induct)
  case (1 reg k i)
  then show ?case
    by (subst lookup_loop.simps, subst remove_loop.simps) (auto simp: Let_def)
qed

lemma remove_loop_at:
  assumes "k \<noteq> AO_REGISTRY_EMPTY" "at reg k n" "i \<le> n"
  shows "remove_loop reg k i =
    Some ((requested_size (reg (probe k n)), allocation_id (reg (probe k n))),
          reg(probe k n := tombstone_entry))"
  using assms(3)
proof (induction i rule: inc_induct)
  case base
  from assms(1,2) show ?case
    by (subst remove_loop.simps) (simp add: at_def Let_def tombstone_entry_def)
next
  case (step i)
  then have "remove_loop reg k i = remove_loop reg k (Suc i)"
    using assms(2) by (subst remove_loop.simps) (auto simp: at_def clear_before_def Let_def)
  with step.IH show ?case by simp
qed

lemma remove_eq:
  assumes "live_key k"
  shows "ao_registry_remove_locked k reg = None \<longleftrightarrow> registry_map reg k = None"
    and "at reg k n \<Longrightarrow> ao_registry_remove_locked k reg =
      Some ((requested_size (reg (probe k n)), allocation_id (reg (probe k n))),
            reg(probe k n := tombstone_entry))"
  using assms remove_loop_None [of reg k 0] remove_loop_at [of k reg n 0]
  by (auto simp: ao_registry_remove_locked_def registry_map_def ao_registry_lookup_locked_def live_key_def)

lemma remove_Some_at:
  assumes "live_key k" "ao_registry_remove_locked k reg = Some (v, reg')"
  obtains n where "at reg k n" "registry_map reg k = Some v"
    and "reg' = reg(probe k n := tombstone_entry)"
proof -
  obtain u where u: "registry_map reg k = Some u"
    using remove_eq(1) [OF assms(1), of reg] assms(2) by (cases "registry_map reg k") auto
  then obtain n where n: "at reg k n"
      "u = (requested_size (reg (probe k n)), allocation_id (reg (probe k n)))"
    using assms(1) by (auto simp: registry_map_def lookup_Some_at live_key_def)
  with u remove_eq(2) [OF assms(1) n(1)] assms(2) show ?thesis
    by (intro that [of n]) auto
qed

lemma registry_ok_remove:
  assumes ok: "registry_ok reg" and k: "live_key k"
    and rem: "ao_registry_remove_locked k reg = Some (v, reg')"
  shows "registry_ok reg'"
proof -
  obtain n where n: "at reg k n" and reg': "reg' = reg(probe k n := tombstone_entry)"
    using remove_Some_at [OF k rem] by metis
  show ?thesis
    unfolding registry_ok_def
  proof (intro allI impI)
    fix j assume j: "j < AO_REGISTRY_CAPACITY" and live: "live_key (key (reg' j))"
    have jn: "j \<noteq> probe k n"
      using live by (auto simp: reg' tombstone_entry_def live_key_def)
    then have eq: "key (reg' j) = key (reg j)" by (simp add: reg')
    obtain m where "at reg (key (reg j)) m" "probe (key (reg j)) m = j"
      using registry_ok_at [OF ok _ j refl] live eq by auto
    then have "at reg' (key (reg j)) m \<and> probe (key (reg j)) m = j"
      using jn live eq unfolding reg'
      by (auto intro!: at_upd_other
            simp: tombstone_entry_def live_key_def AO_REGISTRY_EMPTY_def AO_REGISTRY_TOMBSTONE_def)
    with eq show "\<exists>m. at reg' (key (reg' j)) m \<and> probe (key (reg' j)) m = j" by auto
  qed
qed

lemma registry_map_remove:
  assumes ok: "registry_ok reg" and k: "live_key k"
    and rem: "ao_registry_remove_locked k reg = Some (v, reg')"
  shows "registry_map reg' = (registry_map reg)(k := None)"
proof -
  obtain n where n: "at reg k n" and reg': "reg' = reg(probe k n := tombstone_entry)"
    using remove_Some_at [OF k rem] by metis
  have ok': "registry_ok (reg(probe k n := tombstone_entry))"
    using registry_ok_remove [OF ok k rem] by (simp add: reg')
  have kn: "key (reg (probe k n)) = k" using n by (simp add: at_def)
  show ?thesis
  proof
    fix x
    consider "x = k" | "x = AO_REGISTRY_TOMBSTONE" | "x \<noteq> k" "x \<noteq> AO_REGISTRY_TOMBSTONE" by blast
    then show "registry_map reg' x = ((registry_map reg)(k := None)) x"
    proof cases
      case 1
      then show ?thesis
        using registry_map_upd_gone [OF ok ok' probe_less] kn k
        by (auto simp: reg' tombstone_entry_def live_key_def)
    next
      case 2
      then show ?thesis by (simp add: registry_map_def live_key_def)
    next
      case 3
      then show ?thesis
        using registry_map_upd_other [OF ok ok', of x] kn by (simp add: reg' tombstone_entry_def)
    qed
  qed
qed

section \<open>The table implements the pointer map\<close>

lemma dom_registry_map:
  assumes "registry_ok reg"
  shows "dom (registry_map reg) = {k \<in> (\<lambda>j. key (reg j)) ` {..<AO_REGISTRY_CAPACITY}. live_key k}"
  using registry_map_iff [OF assms] by (auto simp: dom_def)

lemma finite_registry_map: "registry_ok reg \<Longrightarrow> finite (dom (registry_map reg))"
  by (simp add: dom_registry_map)

lemma card_registry_map:
  assumes "registry_ok reg"
  shows "card (dom (registry_map reg)) \<le> AO_REGISTRY_CAPACITY"
proof -
  have "card (dom (registry_map reg)) \<le> card ((\<lambda>j. key (reg j)) ` {..<AO_REGISTRY_CAPACITY})"
    unfolding dom_registry_map [OF assms] by (intro card_mono) auto
  also have "\<dots> \<le> AO_REGISTRY_CAPACITY"
    using card_image_le [of "{..<AO_REGISTRY_CAPACITY}" "\<lambda>j. key (reg j)"] by simp
  finally show ?thesis .
qed

lemma insert_None_full:
  assumes ok: "registry_ok reg" and k: "live_key k"
    and ins: "ao_registry_insert_locked k sz aid reg = None"
  shows "registry_map reg k = None \<and> card (dom (registry_map reg)) = AO_REGISTRY_CAPACITY"
proof -
  have full: "\<forall>j<AO_REGISTRY_CAPACITY. live_key (key (reg j)) \<and> key (reg j) \<noteq> k"
    using ins by (simp add: insert_None_iff [OF k])
  then have "registry_map reg k = None"
    using registry_map_iff [OF ok, of k] by (cases "registry_map reg k") auto
  moreover have "inj_on (\<lambda>j. key (reg j)) {..<AO_REGISTRY_CAPACITY}"
    using registry_ok_unique [OF ok] full by (auto intro!: inj_onI)
  moreover have "dom (registry_map reg) = (\<lambda>j. key (reg j)) ` {..<AO_REGISTRY_CAPACITY}"
    using full by (auto simp: dom_registry_map [OF ok])
  ultimately show ?thesis by (simp add: card_image)
qed

interpretation reg: ptr_map registry_map ao_registry_insert_locked ao_registry_remove_locked
  registry_ok live_key AO_REGISTRY_CAPACITY
proof unfold_locales
  show "registry_map r k = Some v \<Longrightarrow> live_key k" for r k v
    by (simp add: registry_map_def split: if_splits)
  show "registry_ok r \<Longrightarrow> finite (dom (registry_map r))" for r
    by (rule finite_registry_map)
  show "registry_ok r \<Longrightarrow> card (dom (registry_map r)) \<le> AO_REGISTRY_CAPACITY" for r
    by (rule card_registry_map)
  show "registry_ok r \<Longrightarrow> live_key k \<Longrightarrow> ao_registry_insert_locked k sz aid r = Some r' \<Longrightarrow>
      registry_ok r' \<and> registry_map r' = (registry_map r)(k \<mapsto> (sz, aid))" for r k sz aid r'
    by (simp add: registry_ok_insert registry_map_insert)
  show "registry_ok r \<Longrightarrow> live_key k \<Longrightarrow> ao_registry_insert_locked k sz aid r = None \<Longrightarrow>
      registry_map r k = None \<and> card (dom (registry_map r)) = AO_REGISTRY_CAPACITY" for r k sz aid
    by (rule insert_None_full)
  show "live_key k \<Longrightarrow> ao_registry_remove_locked k r = None \<longleftrightarrow> registry_map r k = None" for r k
    by (rule remove_eq(1))
  show "registry_ok r \<Longrightarrow> live_key k \<Longrightarrow> ao_registry_remove_locked k r = Some (v, r') \<Longrightarrow>
      registry_ok r' \<and> registry_map r k = Some v \<and> registry_map r' = (registry_map r)(k := None)"
    for r k v r'
    using remove_Some_at [of k r v r'] by (auto simp: registry_ok_remove registry_map_remove)
qed

lemma lookup_registry_map: "live_key k \<Longrightarrow> ao_registry_lookup_locked k reg = registry_map reg k"
  by (simp add: registry_map_def)

lemma registry_map_empty: "registry_map empty_registry = (\<lambda>_. None)"
proof
  fix k
  show "registry_map empty_registry k = None"
    using registry_map_iff [OF registry_ok_empty, of k]
    by (cases "registry_map empty_registry k")
      (auto simp: empty_registry_def empty_entry_def live_key_def AO_REGISTRY_EMPTY_def)
qed

end
