(* ===== verification/Mock_State.thy ===== *)
theory Mock_State
  imports C_Memory Registry
begin

text \<open>
  The global state of \<open>libmock_allocator.so\<close> (\<open>src/mock_allocator.c\<close>) on top of the C
  runtime, the registry lock, the capture depth, the statistics counters and the test API
  that reads and resets them. All counters are 64-bit and wrap; \<open>g_capture_depth\<close> is a
  32-bit signed atomic.
\<close>

section \<open>Globals\<close>

record ao_atomic_stats =
  malloc_calls :: "64 word"
  calloc_calls :: "64 word"
  realloc_calls :: "64 word"
  free_calls :: "64 word"
  successful_allocations :: "64 word"
  successful_allocation_bytes :: "64 word"
  failed_allocations :: "64 word"
  bypass_realloc_calls :: "64 word"
  bypass_free_calls :: "64 word"
  live_blocks :: "64 word"
  live_bytes :: "64 word"

text \<open>
  \<open>dlsym_found\<close> and \<open>dlsym_calls\<close> describe the dynamic loader: whether \<open>dlsym\<close> finds a symbol,
  and the allocation calls \<open>dlsym\<close> itself makes while it runs (they come back into this library
  before the real functions are known). Each call may depend on the pointers the loader was given
  so far, the newest first, which \<open>dlsym_given\<close> keeps. \<open>g_resolve_once\<close> is the state of the
  \<open>pthread_once_t\<close>; a \<open>g_real_\<close> pointer is modelled by whether it is non-null.
\<close>

datatype dl_call = DL_malloc size_t | DL_calloc size_t size_t | DL_realloc ptr size_t | DL_free ptr

datatype once_state = Once_init | Once_running | Once_done

record mock = libc +
  g_registry :: registry
  g_registry_lock :: bool
  g_stats :: ao_atomic_stats
  g_capture_depth :: "32 word"
  g_next_allocation_id :: "64 word"
  g_bootstrap_heap :: "nat \<Rightarrow> byte"
  g_bootstrap_offset :: "64 word"
  g_in_resolver :: bool
  g_resolve_once :: once_state
  g_real_malloc :: bool
  g_real_calloc :: bool
  g_real_realloc :: bool
  g_real_free :: bool
  dlsym_found :: "string \<Rightarrow> bool"
  dlsym_calls :: "string \<Rightarrow> (ptr list \<Rightarrow> dl_call) list"
  dlsym_given :: "ptr list"

definition zero_stats :: ao_atomic_stats where
  "zero_stats = \<lparr>malloc_calls = 0, calloc_calls = 0, realloc_calls = 0, free_calls = 0,
     successful_allocations = 0, successful_allocation_bytes = 0, failed_allocations = 0,
     bypass_realloc_calls = 0, bypass_free_calls = 0, live_blocks = 0, live_bytes = 0\<rparr>"

section \<open>The registry lock\<close>

text \<open>
  The spin lock: acquiring a lock that the only running thread already holds never returns.
\<close>

definition ao_registry_lock :: "mock \<Rightarrow> mock outcome" where
  "ao_registry_lock w = (if g_registry_lock w then Spin else Done (w\<lparr>g_registry_lock := True\<rparr>))"

definition ao_registry_unlock :: "mock \<Rightarrow> mock" where
  "ao_registry_unlock w = w\<lparr>g_registry_lock := False\<rparr>"

definition ao_registry_contains :: "ptr \<Rightarrow> mock \<Rightarrow> (bool \<times> mock) outcome" where
  "ao_registry_contains p w =
     obind (ao_registry_lock w) (\<lambda>w.
       let found = ao_registry_lookup_locked p (g_registry w) \<noteq> None
       in Done (found, ao_registry_unlock w))"

section \<open>Counters\<close>

definition ao_capture_enabled :: "mock \<Rightarrow> bool" where
  "ao_capture_enabled w \<longleftrightarrow> 0 < sint (g_capture_depth w)"

definition ao_record_failed_allocation :: "mock \<Rightarrow> mock" where
  "ao_record_failed_allocation w =
     (if ao_capture_enabled w
      then w\<lparr>g_stats := (g_stats w)\<lparr>failed_allocations := failed_allocations (g_stats w) + 1\<rparr>\<rparr>
      else w)"

definition ao_record_successful_allocation :: "nat \<Rightarrow> size_t \<Rightarrow> mock \<Rightarrow> mock" where
  "ao_record_successful_allocation kind requested w =
     (if \<not> ao_capture_enabled w then w
      else let st = g_stats w;
               st = (if kind = 0 then st\<lparr>malloc_calls := malloc_calls st + 1\<rparr>
                     else if kind = 1 then st\<lparr>calloc_calls := calloc_calls st + 1\<rparr>
                     else if kind = 2 then st\<lparr>realloc_calls := realloc_calls st + 1\<rparr>
                     else st)
           in w\<lparr>g_stats := st\<lparr>
                successful_allocations := successful_allocations st + 1,
                successful_allocation_bytes := successful_allocation_bytes st + requested\<rparr>\<rparr>)"

definition ao_record_free :: "bool \<Rightarrow> mock \<Rightarrow> mock" where
  "ao_record_free bypass w =
     (if \<not> ao_capture_enabled w then w
      else let st = (g_stats w)\<lparr>free_calls := free_calls (g_stats w) + 1\<rparr>
           in w\<lparr>g_stats := (if bypass then st\<lparr>bypass_free_calls := bypass_free_calls st + 1\<rparr> else st)\<rparr>)"

definition ao_record_realloc :: "bool \<Rightarrow> mock \<Rightarrow> mock" where
  "ao_record_realloc bypass w =
     (if \<not> ao_capture_enabled w then w
      else let st = (g_stats w)\<lparr>realloc_calls := realloc_calls (g_stats w) + 1\<rparr>
           in w\<lparr>g_stats := (if bypass then st\<lparr>bypass_realloc_calls := bypass_realloc_calls st + 1\<rparr> else st)\<rparr>)"

definition ao_live_add :: "size_t \<Rightarrow> mock \<Rightarrow> mock" where
  "ao_live_add requested w =
     w\<lparr>g_stats := (g_stats w)\<lparr>live_blocks := live_blocks (g_stats w) + 1,
                                live_bytes := live_bytes (g_stats w) + requested\<rparr>\<rparr>"

definition ao_live_update :: "size_t \<Rightarrow> size_t \<Rightarrow> mock \<Rightarrow> mock" where
  "ao_live_update old_size new_size w =
     (if old_size < new_size
      then w\<lparr>g_stats := (g_stats w)\<lparr>live_bytes := live_bytes (g_stats w) + (new_size - old_size)\<rparr>\<rparr>
      else if new_size < old_size
      then w\<lparr>g_stats := (g_stats w)\<lparr>live_bytes := live_bytes (g_stats w) - (old_size - new_size)\<rparr>\<rparr>
      else w)"

definition ao_live_remove :: "size_t \<Rightarrow> mock \<Rightarrow> mock" where
  "ao_live_remove requested w =
     w\<lparr>g_stats := (g_stats w)\<lparr>live_blocks := live_blocks (g_stats w) - 1,
                                live_bytes := live_bytes (g_stats w) - requested\<rparr>\<rparr>"

definition ao_next_allocation_id :: "mock \<Rightarrow> 64 word \<times> mock" where
  "ao_next_allocation_id w =
     (g_next_allocation_id w, w\<lparr>g_next_allocation_id := g_next_allocation_id w + 1\<rparr>)"

section \<open>Test API\<close>

text \<open>\<open>ao_mock_reset\<close> clears the nine call counters and keeps the two live counters.\<close>

definition ao_mock_reset :: "mock \<Rightarrow> mock" where
  "ao_mock_reset w =
     w\<lparr>g_stats := (g_stats w)\<lparr>malloc_calls := 0, calloc_calls := 0, realloc_calls := 0,
       free_calls := 0, successful_allocations := 0, successful_allocation_bytes := 0,
       failed_allocations := 0, bypass_realloc_calls := 0, bypass_free_calls := 0\<rparr>\<rparr>"

definition ao_mock_begin_capture :: "mock \<Rightarrow> mock" where
  "ao_mock_begin_capture w = w\<lparr>g_capture_depth := g_capture_depth w + 1\<rparr>"

definition ao_mock_end_capture :: "mock \<Rightarrow> mock" where
  "ao_mock_end_capture w =
     (if 0 < sint (g_capture_depth w) then w\<lparr>g_capture_depth := g_capture_depth w - 1\<rparr> else w)"

record ao_mock_stats =
  out_malloc_calls :: "64 word"
  out_calloc_calls :: "64 word"
  out_realloc_calls :: "64 word"
  out_free_calls :: "64 word"
  out_successful_allocations :: "64 word"
  out_successful_allocation_bytes :: "64 word"
  out_failed_allocations :: "64 word"
  out_bypass_realloc_calls :: "64 word"
  out_bypass_free_calls :: "64 word"
  out_live_blocks :: "64 word"
  out_live_bytes :: "64 word"

text \<open>\<open>None\<close> is a null output pointer, with which nothing is written.\<close>

definition ao_mock_get_stats :: "ao_mock_stats option \<Rightarrow> mock \<Rightarrow> ao_mock_stats option" where
  "ao_mock_get_stats dest w =
     (case dest of
        None \<Rightarrow> None
      | Some _ \<Rightarrow>
          let st = g_stats w in
          Some \<lparr>out_malloc_calls = malloc_calls st, out_calloc_calls = calloc_calls st,
                out_realloc_calls = realloc_calls st, out_free_calls = free_calls st,
                out_successful_allocations = successful_allocations st,
                out_successful_allocation_bytes = successful_allocation_bytes st,
                out_failed_allocations = failed_allocations st,
                out_bypass_realloc_calls = bypass_realloc_calls st,
                out_bypass_free_calls = bypass_free_calls st,
                out_live_blocks = live_blocks st, out_live_bytes = live_bytes st\<rparr>)"

definition ao_mock_is_tracked_allocation :: "ptr \<Rightarrow> mock \<Rightarrow> (bool \<times> mock) outcome" where
  "ao_mock_is_tracked_allocation p w =
     (if p = NULL then Done (False, w) else ao_registry_contains p w)"

section \<open>What the counters leave alone\<close>

text \<open>Everything of the state but the call counters.\<close>

definition same_but_calls :: "mock \<Rightarrow> mock \<Rightarrow> bool" where
  "same_but_calls w w' \<longleftrightarrow>
     (\<exists>st. w' = w\<lparr>g_stats := st\<rparr> \<and> live_blocks st = live_blocks (g_stats w)
        \<and> live_bytes st = live_bytes (g_stats w))"

named_theorems calls_only \<open>operations that change the call counters only\<close>

lemma same_but_calls_refl [calls_only]: "same_but_calls w w"
  by (auto simp: same_but_calls_def intro: exI [of _ "g_stats w"])

lemma same_but_calls_stats:
  "live_blocks st = live_blocks (g_stats w) \<Longrightarrow> live_bytes st = live_bytes (g_stats w) \<Longrightarrow>
   same_but_calls w (w\<lparr>g_stats := st\<rparr>)"
  by (auto simp: same_but_calls_def)

lemma record_failed_calls [calls_only]: "same_but_calls w (ao_record_failed_allocation w)"
  by (auto simp: ao_record_failed_allocation_def intro!: same_but_calls_stats same_but_calls_refl)

lemma record_successful_calls [calls_only]:
  "same_but_calls w (ao_record_successful_allocation kind n w)"
  by (auto simp: ao_record_successful_allocation_def Let_def
        intro!: same_but_calls_stats same_but_calls_refl)

lemma record_free_calls [calls_only]: "same_but_calls w (ao_record_free b w)"
  by (auto simp: ao_record_free_def Let_def intro!: same_but_calls_stats same_but_calls_refl)

lemma record_realloc_calls [calls_only]: "same_but_calls w (ao_record_realloc b w)"
  by (auto simp: ao_record_realloc_def Let_def intro!: same_but_calls_stats same_but_calls_refl)

lemma reset_calls [calls_only]: "same_but_calls w (ao_mock_reset w)"
  by (auto simp: ao_mock_reset_def intro!: same_but_calls_stats)

lemma same_but_callsD:
  assumes "same_but_calls w w'"
  shows "blocks w' = blocks w" "answers w' = answers w" "errno w' = errno w"
    "static_base w' = static_base w" "g_registry w' = g_registry w"
    "g_registry_lock w' = g_registry_lock w" "g_next_allocation_id w' = g_next_allocation_id w"
    "g_bootstrap_heap w' = g_bootstrap_heap w" "g_bootstrap_offset w' = g_bootstrap_offset w"
    "g_in_resolver w' = g_in_resolver w" "g_resolve_once w' = g_resolve_once w"
    "g_real_malloc w' = g_real_malloc w" "g_real_calloc w' = g_real_calloc w"
    "g_real_realloc w' = g_real_realloc w" "g_real_free w' = g_real_free w"
    "live_blocks (g_stats w') = live_blocks (g_stats w)"
    "live_bytes (g_stats w') = live_bytes (g_stats w)"
  using assms by (auto simp: same_but_calls_def)

lemma same_but_calls_trans: "same_but_calls u v \<Longrightarrow> same_but_calls v w \<Longrightarrow> same_but_calls u w"
  by (auto simp: same_but_calls_def)

end
