(* ===== verification/Bootstrap.thy ===== *)
theory Bootstrap
  imports Mock_State
begin

text \<open>
  The bootstrap heap of \<open>src/mock_allocator.c\<close>: 64 KiB of static storage from which
  allocations are cut while \<open>dlsym\<close> resolves the real allocation functions. Each block has a
  header with the requested size in front; blocks are never returned.
  The layout is that of the LP64 targets: \<open>max_align_t\<close> has 32 bytes and alignment 16, so
  \<open>ao_bootstrap_header\<close> (a \<open>size_t\<close> and a \<open>max_align_t\<close>) has 48 bytes.
\<close>

definition AO_BOOTSTRAP_HEAP_SIZE :: "64 word" where "AO_BOOTSTRAP_HEAP_SIZE = 64 * 1024"
definition sizeof_max_align_t :: "64 word" where [layout]: "sizeof_max_align_t = 32"
definition sizeof_ao_bootstrap_header :: "64 word" where [layout]: "sizeof_ao_bootstrap_header = 48"

section \<open>Objects in the static array\<close>

text \<open>A \<open>size_t\<close> stored in eight bytes, least significant byte first.\<close>

definition put64 :: "(nat \<Rightarrow> byte) \<Rightarrow> nat \<Rightarrow> 64 word \<Rightarrow> (nat \<Rightarrow> byte)" where
  "put64 m off v = (\<lambda>i. if off \<le> i \<and> i < off + 8 then of_nat (unat v div 256 ^ (i - off)) else m i)"

definition get64 :: "(nat \<Rightarrow> byte) \<Rightarrow> nat \<Rightarrow> 64 word" where
  "get64 m off = of_nat (\<Sum>i<8. unat (m (off + i)) * 256 ^ i)"

definition fill_bytes :: "(nat \<Rightarrow> byte) \<Rightarrow> nat \<Rightarrow> nat \<Rightarrow> byte \<Rightarrow> (nat \<Rightarrow> byte)" where
  "fill_bytes m off n b = (\<lambda>i. if off \<le> i \<and> i < off + n then b else m i)"

definition copy_bytes :: "(nat \<Rightarrow> byte) \<Rightarrow> nat \<Rightarrow> nat \<Rightarrow> nat \<Rightarrow> (nat \<Rightarrow> byte)" where
  "copy_bytes m dst src n = (\<lambda>i. if dst \<le> i \<and> i < dst + n then m (src + (i - dst)) else m i)"

lemma get64_put64 [simp]: "get64 (put64 m off v) off = v"
proof -
  have "(\<Sum>i<8. unat (put64 m off v (off + i)) * 256 ^ i) = (\<Sum>i<8. unat v div 256 ^ i mod 256 * 256 ^ i)"
    by (intro sum.cong) (simp_all add: put64_def unat_of_nat take_bit_eq_mod)
  also have "\<dots> = unat v mod 256 ^ 8"
    by (rule base_expansion)
  also have "\<dots> = unat v"
    using unsigned_less [of v] by (intro mod_less) simp
  finally show ?thesis by (simp add: get64_def)
qed

lemma get64_cong: "(\<And>i. i < 8 \<Longrightarrow> m (off + i) = m' (off + i)) \<Longrightarrow> get64 m off = get64 m' off"
  unfolding get64_def by (intro arg_cong [where f = of_nat] sum.cong) simp_all

section \<open>Operations\<close>

definition ao_align_up :: "size_t \<Rightarrow> size_t \<Rightarrow> size_t" where
  "ao_align_up value alignment =
     (let remainder = value mod alignment
      in if remainder = 0 then value else value + (alignment - remainder))"

text \<open>
  Without another thread the compare-exchange succeeds with the offset just read. The header
  is written at the old offset; an offset whose header would lie outside the array is an
  access outside the object.
\<close>

definition ao_bootstrap_alloc :: "size_t \<Rightarrow> mock \<Rightarrow> (ptr \<times> mock) outcome" where
  "ao_bootstrap_alloc n w =
     (let total = ao_align_up (sizeof_ao_bootstrap_header + n) sizeof_max_align_t;
          current = g_bootstrap_offset w
      in if AO_BOOTSTRAP_HEAP_SIZE < current \<or> AO_BOOTSTRAP_HEAP_SIZE - current < total
         then Done (NULL, w\<lparr>errno := ENOMEM\<rparr>)
         else if 65536 < unat current + 8 then Undef
         else Done (static_base w + current + sizeof_ao_bootstrap_header,
                    w\<lparr>g_bootstrap_offset := current + total,
                      g_bootstrap_heap := put64 (g_bootstrap_heap w) (unat current) n\<rparr>))"

definition ao_bootstrap_contains :: "ptr \<Rightarrow> mock \<Rightarrow> bool" where
  "ao_bootstrap_contains p w \<longleftrightarrow> in_static (static_base w) p"

text \<open>The offset of an address of the static array.\<close>

definition boot_offset :: "ptr \<Rightarrow> mock \<Rightarrow> nat" where
  "boot_offset p w = unat (p - static_base w)"

definition ao_bootstrap_realloc :: "ptr \<Rightarrow> size_t \<Rightarrow> mock \<Rightarrow> (ptr \<times> mock) outcome" where
  "ao_bootstrap_realloc p n w =
     (if p = NULL then ao_bootstrap_alloc n w
      else if \<not> ao_bootstrap_contains p w then Done (NULL, w\<lparr>errno := ENOMEM\<rparr>)
      else obind (ao_bootstrap_alloc n w) (\<lambda>(new_ptr, w).
        if new_ptr = NULL then Done (NULL, w)
        else if boot_offset p w < 48 then Undef
        else let old = get64 (g_bootstrap_heap w) (boot_offset p w - 48);
                 copy_size = if old < n then old else n
             in if copy_size = 0 then Done (new_ptr, w)
                else if 65536 < boot_offset p w + unat copy_size
                        \<or> 65536 < boot_offset new_ptr w + unat copy_size then Undef
                else Done (new_ptr, w\<lparr>g_bootstrap_heap :=
                       copy_bytes (g_bootstrap_heap w) (boot_offset new_ptr w)
                         (boot_offset p w) (unat copy_size)\<rparr>)))"

section \<open>Alignment\<close>

lemma round_up_32:
  fixes x :: nat
  shows "(x + 31) div 32 * 32 = (if x mod 32 = 0 then x else x + (32 - x mod 32))"
proof -
  define q r y z where "q = x div 32" and "r = x mod 32"
    and "y = (x + 31) div 32" and "z = (x + 31) mod 32"
  have x: "x = 32 * q + r" "r < 32" and xz: "x + 31 = 32 * y + z" "z < 32"
    by (simp_all add: q_def r_def y_def z_def)
  have "y = (if r = 0 then q else q + 1)"
  proof (cases "r = 0")
    case True
    then have "\<not> y < q" "\<not> q < y" using x xz by linarith+
    with True show ?thesis by simp
  next
    case False
    then have "\<not> y < q + 1" "\<not> q + 1 < y" using x xz by linarith+
    with False show ?thesis by simp
  qed
  with x show ?thesis
    unfolding y_def [symmetric] r_def [symmetric] by auto
qed

lemma unat_ao_align_up:
  assumes "unat v + 31 < 2 ^ 64"
  shows "unat (ao_align_up v 32) = (unat v + 31) div 32 * 32"
proof -
  have m: "unat (v mod 32) = unat v mod 32"
    by (simp add: unat_mod)
  show ?thesis
  proof (cases "unat v mod 32 = 0")
    case True
    then have "v mod 32 = 0" using m by (simp add: unat_eq_zero)
    then have "ao_align_up v 32 = v" by (simp add: ao_align_up_def)
    moreover have "unat v = (unat v + 31) div 32 * 32" using True round_up_32 [of "unat v"] by simp
    ultimately show ?thesis by simp
  next
    case False
    then have nz: "v mod 32 \<noteq> 0" using m by (metis unat_eq_zero)
    have "v mod 32 \<le> 32"
      using m by (simp add: word_le_nat_alt)
    then have d: "unat (32 - v mod 32) = 32 - unat v mod 32"
      using m by (simp add: unat_sub)
    then have "unat (ao_align_up v 32) = unat v + (32 - unat v mod 32)"
      using nz assms d False
      by (simp add: ao_align_up_def Let_def unat_add_no_wrap)
    also have "\<dots> = (unat v + 31) div 32 * 32"
      using False round_up_32 [of "unat v"] by simp
    finally show ?thesis .
  qed
qed

section \<open>Invariant and allocation\<close>

definition boot_ok :: "mock \<Rightarrow> bool" where
  "boot_ok w \<longleftrightarrow>
     unat (g_bootstrap_offset w) \<le> 65536 \<and> 32 dvd unat (g_bootstrap_offset w)
     \<and> static_base w \<noteq> NULL \<and> 16 dvd unat (static_base w) \<and> unat (static_base w) + 65536 < 2 ^ 64"

text \<open>The bytes a request takes from the array, header and padding included.\<close>

definition boot_total :: "size_t \<Rightarrow> nat" where
  "boot_total n = (unat n + 79) div 32 * 32"

lemma boot_total_word:
  assumes "unat n + 79 < 2 ^ 64"
  shows "unat (ao_align_up (sizeof_ao_bootstrap_header + n) sizeof_max_align_t) = boot_total n"
proof -
  have "unat (sizeof_ao_bootstrap_header + n) = 48 + unat n"
    using assms by (simp add: unat_add_no_wrap sizeof_ao_bootstrap_header_def)
  with assms show ?thesis
    by (simp add: sizeof_max_align_t_def unat_ao_align_up boot_total_def add.commute)
qed

lemma boot_total_bounds: "unat n + 48 \<le> boot_total n" "32 dvd boot_total n" "64 \<le> boot_total n"
proof -
  show "unat n + 48 \<le> boot_total n" "32 dvd boot_total n"
    using round_up_32 [of "unat n + 48"] by (simp_all add: boot_total_def)
  have "2 \<le> (unat n + 79) div 32"
    using div_le_mono [of 64 "unat n + 79" 32] by simp
  then show "64 \<le> boot_total n"
    by (simp add: boot_total_def)
qed

text \<open>
  A request that does not overflow either reports \<open>ENOMEM\<close> and changes nothing else, exactly
  when it does not fit, or cuts the next piece of the array.
\<close>

lemma boot_alloc_eq:
  assumes ok: "boot_ok w" and n: "unat n + 79 < 2 ^ 64"
  shows "ao_bootstrap_alloc n w =
    (if 65536 < unat (g_bootstrap_offset w) + boot_total n
     then Done (NULL, w\<lparr>errno := ENOMEM\<rparr>)
     else Done (static_base w + g_bootstrap_offset w + 48,
        w\<lparr>g_bootstrap_offset := of_nat (unat (g_bootstrap_offset w) + boot_total n),
          g_bootstrap_heap := put64 (g_bootstrap_heap w) (unat (g_bootstrap_offset w)) n\<rparr>))"
proof -
  let ?t = "ao_align_up (sizeof_ao_bootstrap_header + n) sizeof_max_align_t"
  let ?c = "g_bootstrap_offset w"
  have c: "?c \<le> 65536" "\<not> 65536 < ?c" and t: "unat ?t = boot_total n"
    using ok boot_total_word [OF n] by (auto simp: boot_ok_def word_le_nat_alt word_less_nat_alt)
  have "unat (65536 - ?c) = 65536 - unat ?c"
    using c by (simp add: unat_sub)
  then have fits: "65536 - ?c < ?t \<longleftrightarrow> 65536 < unat ?c + boot_total n"
    using t c by (auto simp: word_less_nat_alt word_le_nat_alt)
  have "of_nat (unat ?c + boot_total n) = ?c + ?t"
    by (simp flip: t)
  moreover have "unat ?c + 8 \<le> 65536" if "unat ?c + boot_total n \<le> 65536"
    using that boot_total_bounds(1) [of n] by simp
  ultimately show ?thesis
    using fits c by (auto simp: ao_bootstrap_alloc_def Let_def AO_BOOTSTRAP_HEAP_SIZE_def
        sizeof_ao_bootstrap_header_def)
qed

lemma boot_offset_block:
  assumes "boot_ok w" "off \<le> 65536"
  shows "unat (static_base w + of_nat off) = unat (static_base w) + off"
    and "boot_offset (static_base w + of_nat off) w = off"
  using assms by (simp_all add: boot_ok_def unat_add_no_wrap unat_of_nat_lt boot_offset_def)

text \<open>The block an allocation returns.\<close>

definition boot_block :: "ptr \<Rightarrow> size_t \<Rightarrow> mock \<Rightarrow> bool" where
  "boot_block p n w \<longleftrightarrow>
     ao_bootstrap_contains p w \<and> 16 dvd unat p \<and> 48 \<le> boot_offset p w
     \<and> get64 (g_bootstrap_heap w) (boot_offset p w - 48) = n
     \<and> boot_offset p w + unat n \<le> unat (g_bootstrap_offset w)"

lemma boot_alloc_block:
  assumes ok: "boot_ok w" and n: "unat n + 79 < 2 ^ 64"
    and fits: "unat (g_bootstrap_offset w) + boot_total n \<le> 65536"
  shows "\<exists>p w'. ao_bootstrap_alloc n w = Done (p, w') \<and> p \<noteq> NULL \<and> boot_ok w' \<and> boot_block p n w'
     \<and> boot_offset p w' = unat (g_bootstrap_offset w) + 48
     \<and> unat (g_bootstrap_offset w') = unat (g_bootstrap_offset w) + boot_total n
     \<and> (\<forall>i<unat (g_bootstrap_offset w). g_bootstrap_heap w' i = g_bootstrap_heap w i)
     \<and> static_base w' = static_base w"
proof -
  let ?c = "unat (g_bootstrap_offset w)"
  define p where "p = static_base w + of_nat (?c + 48)"
  define w' where "w' = w\<lparr>g_bootstrap_offset := of_nat (?c + boot_total n),
          g_bootstrap_heap := put64 (g_bootstrap_heap w) ?c n\<rparr>"
  have tot: "unat n + 48 \<le> boot_total n" "32 dvd boot_total n" "64 \<le> boot_total n" by (rule boot_total_bounds)+
  have off': "unat (g_bootstrap_offset w') = ?c + boot_total n"
    using fits by (simp add: w'_def unat_of_nat_lt del: of_nat_add)
  have up: "unat p = unat (static_base w) + (?c + 48)" "boot_offset p w' = ?c + 48"
    using boot_offset_block [OF ok, of "?c + 48"] fits tot(1)
    by (simp_all add: p_def w'_def boot_offset_def)
  have eq: "ao_bootstrap_alloc n w = Done (p, w')"
    using boot_alloc_eq [OF ok n] fits by (simp add: p_def w'_def add.assoc)
  have "boot_ok w'"
    using ok off' tot fits by (simp add: boot_ok_def w'_def)
  moreover have "p \<noteq> NULL"
    using up(1) by auto
  moreover have "16 dvd unat p"
  proof -
    have "16 dvd ?c" "16 dvd unat (static_base w)" using ok by (auto simp: boot_ok_def dvd_def)
    then show ?thesis by (simp add: up(1))
  qed
  moreover have "ao_bootstrap_contains p w'"
    using up(1) fits tot(3) by (simp add: ao_bootstrap_contains_def in_static_def w'_def word_le_nat_alt)
  moreover have "get64 (g_bootstrap_heap w') ?c = n"
    by (simp add: w'_def)
  moreover have "\<forall>i<?c. g_bootstrap_heap w' i = g_bootstrap_heap w i"
    by (simp add: w'_def put64_def)
  moreover have "static_base w' = static_base w" by (simp add: w'_def)
  ultimately show ?thesis
    using eq up(2) off' tot(1) by (auto simp: boot_block_def)
qed

text \<open>
  Reallocation of a bootstrap block gives a block of the new size that starts with the old
  content, up to the smaller of the two sizes; the old block keeps its bytes.
\<close>

lemma boot_realloc_copies:
  assumes ok: "boot_ok w" and n: "unat n + 79 < 2 ^ 64"
    and fits: "unat (g_bootstrap_offset w) + boot_total n \<le> 65536"
    and p: "p \<noteq> NULL" "boot_block p old w"
  shows "\<exists>q w'. ao_bootstrap_realloc p n w = Done (q, w') \<and> q \<noteq> NULL \<and> boot_ok w' \<and> boot_block q n w'
     \<and> (\<forall>i<min (unat old) (unat n).
          g_bootstrap_heap w' (boot_offset q w' + i) = g_bootstrap_heap w (boot_offset p w + i))
     \<and> (\<forall>i<unat (g_bootstrap_offset w). g_bootstrap_heap w' i = g_bootstrap_heap w i)"
proof -
  let ?c = "unat (g_bootstrap_offset w)"
  obtain q u where q: "ao_bootstrap_alloc n w = Done (q, u)" "q \<noteq> NULL" "boot_ok u" "boot_block q n u"
      "boot_offset q u = ?c + 48" "unat (g_bootstrap_offset u) = ?c + boot_total n"
      "\<forall>i<?c. g_bootstrap_heap u i = g_bootstrap_heap w i" "static_base u = static_base w"
    using boot_alloc_block [OF ok n fits] by blast
  let ?k = "if old < n then old else n"
  have po: "boot_offset p u = boot_offset p w" "48 \<le> boot_offset p w"
      "boot_offset p w + unat old \<le> ?c" "ao_bootstrap_contains p w"
    using p q(8) by (simp_all add: boot_block_def boot_offset_def)
  have hdr: "get64 (g_bootstrap_heap u) (boot_offset p u - 48) = old"
    using q(7) po p(2) get64_cong [of "g_bootstrap_heap u" "boot_offset p w - 48" "g_bootstrap_heap w"]
    by (simp add: boot_block_def)
  have k: "unat ?k = min (unat old) (unat n)"
    by (simp add: word_less_nat_alt min_def)
  have bounds: "boot_offset p u + unat ?k \<le> 65536" "boot_offset q u + unat ?k \<le> 65536"
    using po q(5) fits boot_total_bounds(1) [of n] k by auto
  let ?w' = "u\<lparr>g_bootstrap_heap := copy_bytes (g_bootstrap_heap u) (boot_offset q u) (boot_offset p u) (unat ?k)\<rparr>"
  have res: "ao_bootstrap_realloc p n w = Done (q, if ?k = 0 then u else ?w')"
    using p(1) po q(1,2) hdr bounds by (simp add: ao_bootstrap_realloc_def Let_def not_less)
  have copied: "g_bootstrap_heap ?w' (boot_offset q u + i) = g_bootstrap_heap w (boot_offset p w + i)"
    if "i < unat ?k" for i
    using that q(7) po k by (simp add: copy_bytes_def)
  have below: "g_bootstrap_heap ?w' i = g_bootstrap_heap u i" if "i < ?c + 48" for i
    using that q(5) by (simp add: copy_bytes_def)
  then have "get64 (g_bootstrap_heap ?w') ?c = get64 (g_bootstrap_heap u) ?c"
    by (intro get64_cong) simp
  then have "boot_block q n ?w'"
    using q(4,5) by (simp add: boot_block_def ao_bootstrap_contains_def boot_offset_def)
  moreover have "boot_ok ?w'"
    using q(3) by (simp add: boot_ok_def)
  moreover have "boot_offset q ?w' = boot_offset q u"
    by (simp add: boot_offset_def)
  ultimately show ?thesis
    using res q(2,3,4,7) copied below k
    by (intro exI [of _ q] exI [of _ "if ?k = 0 then u else ?w'"]) (auto simp: unat_eq_zero [symmetric])
qed

text \<open>
  Without the bound on the size the arithmetic wraps: a request of \<open>2 ^ 64 - 48\<close> bytes has a
  total of zero and succeeds, and the offset stays, so that the next request gets the same
  address.
\<close>

lemma boot_alloc_wraps:
  assumes "boot_ok w" "unat (g_bootstrap_offset w) + 48 \<le> 65536"
  shows "\<exists>p w'. ao_bootstrap_alloc (- 48) w = Done (p, w') \<and> p \<noteq> NULL
     \<and> g_bootstrap_offset w' = g_bootstrap_offset w
     \<and> (\<exists>w''. ao_bootstrap_alloc (- 48) w' = Done (p, w''))"
proof -
  let ?c = "unat (g_bootstrap_offset w)"
  have "static_base w + g_bootstrap_offset w + 48 \<noteq> NULL"
    using boot_offset_block(1) [OF assms(1), of "?c + 48"] assms(2)
    by (auto simp: add.assoc)
  moreover have "\<not> 65536 < g_bootstrap_offset w"
    using assms by (simp add: word_less_nat_alt)
  ultimately show ?thesis
    using assms(2)
    by (simp add: ao_bootstrap_alloc_def Let_def AO_BOOTSTRAP_HEAP_SIZE_def ao_align_up_def
        sizeof_ao_bootstrap_header_def sizeof_max_align_t_def)
qed

end
