(* ===== verification/Allocator.thy ===== *)
theory Allocator
  imports C_Memory
begin

text \<open>
  The allocator as the override library uses it: \<open>malloc\<close>, \<open>realloc\<close> and \<open>free\<close> are dynamic
  symbols, bound to whichever library is preloaded. The locale states what the overrides rely
  on: a returned block is fresh and has the requested size, a failure changes no object and
  sets \<open>ENOMEM\<close>, and the block is \<open>owned\<close> by the allocator. \<open>room\<close> bounds the number of further blocks
  the allocator can register before it gives up and ends the process. The clients'
  overrides are verified once against these laws; the plain libc allocator is interpreted
  here and the mock allocator in its own theory.
\<close>

text \<open>The result of \<open>malloc (n)\<close> from \<open>w\<close>, seen through the heap.\<close>

definition malloc_result ::
  "('a libc_scheme \<Rightarrow> ptr \<Rightarrow> bool) \<Rightarrow> ('a libc_scheme \<Rightarrow> nat) \<Rightarrow>
   size_t \<Rightarrow> 'a libc_scheme \<Rightarrow> ptr \<Rightarrow> 'a libc_scheme \<Rightarrow> bool" where
  "malloc_result owned room n w p w' \<longleftrightarrow>
     (if p = NULL
      then blocks w' = blocks w \<and> errno w' = ENOMEM \<and> owned w' = owned w \<and> room w \<le> room w'
      else blocks w p = None \<and> blocks w' = (blocks w)(p \<mapsto> replicate (unat n) None)
           \<and> errno w' = errno w \<and> owned w' = (owned w)(p := True)
           \<and> room w \<le> Suc (room w') \<and> unat n \<le> SSIZE_MAX)"

text \<open>The result of \<open>realloc (p, n)\<close> of an object with cells \<open>cs\<close>.\<close>

definition realloc_result ::
  "('a libc_scheme \<Rightarrow> ptr \<Rightarrow> bool) \<Rightarrow> ('a libc_scheme \<Rightarrow> nat) \<Rightarrow>
   ptr \<Rightarrow> cell list \<Rightarrow> size_t \<Rightarrow> 'a libc_scheme \<Rightarrow> ptr \<Rightarrow> 'a libc_scheme \<Rightarrow> bool" where
  "realloc_result owned room p cs n w q w' \<longleftrightarrow>
     room w \<le> room w' \<and>
     (if q = NULL
      then blocks w' = blocks w \<and> errno w' = ENOMEM \<and> owned w' = owned w
      else (q = p \<or> blocks w q = None)
           \<and> blocks w' = (blocks w)(p := None, q \<mapsto> resized (unat n) cs)
           \<and> errno w' = errno w \<and> owned w' = (owned w)(p := False, q := True)
           \<and> unat n \<le> SSIZE_MAX)"

text \<open>
  \<open>replaced owned s w s' w'\<close>: between \<open>w\<close> and \<open>w'\<close> the object at \<open>s\<close> (none when \<open>s\<close> is \<open>NULL\<close>) gave way to the
  object at \<open>s'\<close>; every other object is unchanged, nothing is leaked and nothing else freed.
\<close>

definition replaced ::
  "('a libc_scheme \<Rightarrow> ptr \<Rightarrow> bool) \<Rightarrow> ptr \<Rightarrow> 'a libc_scheme \<Rightarrow> ptr \<Rightarrow> 'a libc_scheme \<Rightarrow> bool" where
  "replaced owned s w s' w' \<longleftrightarrow>
     (s' = s \<or> blocks w s' = None) \<and> blocks w' = (blocks w)(s := None, s' := blocks w' s')
     \<and> (\<forall>q. q \<noteq> s \<longrightarrow> q \<noteq> s' \<longrightarrow> blocks w q \<noteq> None \<longrightarrow> owned w' q = owned w q)"

text \<open>Every object of \<open>w\<close> is untouched in \<open>w'\<close> and has the same owner; there may be new ones.\<close>

definition grows ::
  "('a libc_scheme \<Rightarrow> ptr \<Rightarrow> bool) \<Rightarrow> 'a libc_scheme \<Rightarrow> 'a libc_scheme \<Rightarrow> bool" where
  "grows owned w w' \<longleftrightarrow> (\<forall>q. blocks w q \<noteq> None \<longrightarrow> blocks w' q = blocks w q \<and> owned w' q = owned w q)"

lemma grows_unchanged: "blocks w' = blocks w \<Longrightarrow> owned w' = owned w \<Longrightarrow> grows owned w w'"
  by (simp add: grows_def)

lemma grows_trans: "grows owned w u \<Longrightarrow> grows owned u v \<Longrightarrow> grows owned w v"
  unfolding grows_def by metis

lemma grows_fresh:
  "blocks w p = None \<Longrightarrow> blocks w' = (blocks w)(p \<mapsto> cs) \<Longrightarrow> owned w' = (owned w)(p := True) \<Longrightarrow> grows owned w w'"
  by (auto simp: grows_def)

lemma replaced_refl [simp]: "replaced owned s w s w"
  by (simp add: replaced_def)

lemma replaced_same:
  "blocks w' = (blocks w)(s := b) \<Longrightarrow> owned w' = owned w \<Longrightarrow> replaced owned s w s w'"
  by (simp add: replaced_def)

lemma replaced_unchanged:
  "blocks w' = blocks w \<Longrightarrow> owned w' = owned w \<Longrightarrow> replaced owned s w s w'"
  by (simp add: replaced_def)

lemma replaced_trans:
  assumes a: "replaced owned s w t u" and b: "replaced owned t u v x"
  shows "replaced owned s w v x"
proof -
  have ba: "blocks u q = ((blocks w)(s := None, t := blocks u t)) q" for q
    using a unfolding replaced_def by metis
  have bb: "blocks x q = ((blocks u)(t := None, v := blocks x v)) q" for q
    using b unfolding replaced_def by metis
  have f: "t = s \<or> blocks w t = None" "v = t \<or> blocks u v = None"
    using a b by (simp_all add: replaced_def)
  have "v = s \<or> blocks w v = None"
    using f(1) f(2) ba [of v] by (cases "v = t"; cases "v = s") auto
  moreover have "blocks x q = ((blocks w)(s := None, v := blocks x v)) q" for q
  proof (cases "q = v \<or> q = s \<or> q = t")
    case True
    then show ?thesis using f(1) ba [of s] bb [of s] bb [of t] by (cases "q = v") auto
  next
    case False
    then show ?thesis using ba [of q] bb [of q] by simp
  qed
  moreover have "owned x q = owned w q" if "q \<noteq> s" "q \<noteq> v" "blocks w q \<noteq> None" for q
  proof -
    have "q \<noteq> t" using f(1) that by auto
    moreover from this have "blocks u q \<noteq> None" using ba [of q] that by simp
    ultimately show ?thesis using a b that by (simp add: replaced_def)
  qed
  ultimately show ?thesis unfolding replaced_def by blast
qed

locale c_allocator =
  fixes malloc :: "size_t \<Rightarrow> 'a libc_scheme \<Rightarrow> (ptr \<times> 'a libc_scheme) outcome"
    and realloc :: "ptr \<Rightarrow> size_t \<Rightarrow> 'a libc_scheme \<Rightarrow> (ptr \<times> 'a libc_scheme) outcome"
    and free :: "ptr \<Rightarrow> 'a libc_scheme \<Rightarrow> 'a libc_scheme outcome"
    and inv :: "'a libc_scheme \<Rightarrow> bool"
    and owned :: "'a libc_scheme \<Rightarrow> ptr \<Rightarrow> bool"
    and room :: "'a libc_scheme \<Rightarrow> nat"
  assumes malloc_law: "inv w \<Longrightarrow>
      wp (room w = 0) (malloc n w) (\<lambda>(p, w'). inv w' \<and> malloc_result owned room n w p w')"
    and realloc_NULL_law: "inv w \<Longrightarrow>
      wp (room w = 0) (realloc NULL n w) (\<lambda>(p, w'). inv w' \<and> malloc_result owned room n w p w')"
    and realloc_law: "inv w \<Longrightarrow> n \<noteq> 0 \<Longrightarrow> owned w p \<Longrightarrow> p \<noteq> NULL \<Longrightarrow> blocks w p = Some cs \<Longrightarrow>
      wp False (realloc p n w) (\<lambda>(q, w'). inv w' \<and> realloc_result owned room p cs n w q w')"
    and free_NULL_law: "free NULL w = Done w"
    and free_law: "inv w \<Longrightarrow> owned w p \<Longrightarrow> p \<noteq> NULL \<Longrightarrow> blocks w p = Some cs \<Longrightarrow>
      wp False (free p w) (\<lambda>w'. inv w' \<and> blocks w' = (blocks w)(p := None)
        \<and> errno w' = errno w \<and> owned w' = (owned w)(p := False) \<and> room w \<le> room w')"
    and NULL_law: "inv w \<Longrightarrow> blocks w NULL = None"
    and store_law: "blocks w p = Some cs \<Longrightarrow> length cs' = length cs \<Longrightarrow>
      inv (w\<lparr>blocks := (blocks w)(p \<mapsto> cs')\<rparr>) = inv w
      \<and> owned (w\<lparr>blocks := (blocks w)(p \<mapsto> cs')\<rparr>) = owned w
      \<and> room (w\<lparr>blocks := (blocks w)(p \<mapsto> cs')\<rparr>) = room w"
    and errno_law: "inv (w\<lparr>errno := e\<rparr>) = inv w \<and> owned (w\<lparr>errno := e\<rparr>) = owned w
      \<and> room (w\<lparr>errno := e\<rparr>) = room w"
    and owned_live_law: "inv w \<Longrightarrow> owned w p \<Longrightarrow> blocks w p \<noteq> None"
    and room_law: "inv w \<Longrightarrow> inv w' \<Longrightarrow> (\<And>p. owned w' p \<Longrightarrow> p = q \<or> owned w p) \<Longrightarrow> room w \<le> Suc (room w')"
begin

lemmas errno_laws = errno_law [THEN conjunct1] errno_law [THEN conjunct2, THEN conjunct1]
  errno_law [THEN conjunct2, THEN conjunct2]

text \<open>Writing into an object keeps the allocator's state.\<close>

lemma write_law:
  assumes "inv w" "blocks w p = Some cs" "off + length new \<le> length cs"
  shows "wp E (write_cells p off new w) (\<lambda>w'. inv w' \<and> owned w' = owned w \<and> room w' = room w
    \<and> blocks w' = (blocks w)(p \<mapsto> overwrite off new cs) \<and> errno w' = errno w)"
  using assms store_law [OF assms(2), of "overwrite off new cs"]
  by (simp add: write_cells_Done)

text \<open>The pattern of the duplicating overrides: allocate, give up on \<open>NULL\<close>, fill the whole
  block with the given cells.\<close>

lemma malloc_fill:
  assumes inv: "inv w" and n: "unat n = length new"
  shows "wp (room w = 0)
    (obind (malloc n w) (\<lambda>(p, w).
       if p = NULL then Done (NULL, w)
       else obind (write_cells p 0 new w) (\<lambda>w. Done (p, w))))
    (\<lambda>(p, w'). inv w' \<and>
       (if p = NULL then blocks w' = blocks w \<and> errno w' = ENOMEM \<and> owned w' = owned w
        else blocks w p = None \<and> blocks w' = (blocks w)(p \<mapsto> new)
             \<and> errno w' = errno w \<and> owned w' = (owned w)(p := True)))"
proof (rule wp_bindI [OF malloc_law [OF inv]], assumption)
  fix x assume x: "case x of (p, w') \<Rightarrow> inv w' \<and> malloc_result owned room n w p w'"
  obtain p u where [simp]: "x = (p, u)" by (cases x)
  show "wp (room w = 0) (case x of (p, w) \<Rightarrow> if p = NULL then Done (NULL, w)
       else obind (write_cells p 0 new w) (\<lambda>w. Done (p, w)))
    (\<lambda>(p, w'). inv w' \<and>
       (if p = NULL then blocks w' = blocks w \<and> errno w' = ENOMEM \<and> owned w' = owned w
        else blocks w p = None \<and> blocks w' = (blocks w)(p \<mapsto> new)
             \<and> errno w' = errno w \<and> owned w' = (owned w)(p := True)))"
  proof (cases "p = NULL")
    case True
    with x show ?thesis by (simp add: malloc_result_def)
  next
    case False
    with x have b: "blocks u p = Some (replicate (unat n) None)" by (simp add: malloc_result_def)
    have "wp (room w = 0) (write_cells p 0 new u) (\<lambda>w'. inv w' \<and> owned w' = owned u \<and> room w' = room u
      \<and> blocks w' = (blocks u)(p \<mapsto> overwrite 0 new (replicate (unat n) None)) \<and> errno w' = errno u)"
      using x b n by (intro write_law) auto
    then have "wp (room w = 0) (obind (write_cells p 0 new u) (\<lambda>w. Done (p, w)))
      (\<lambda>(p', w'). p' = p \<and> inv w' \<and> owned w' = owned u
         \<and> blocks w' = (blocks u)(p \<mapsto> new) \<and> errno w' = errno u)"
      using n by (cases "write_cells p 0 new u") (auto simp: overwrite_full)
    then show ?thesis
      using x False by (auto simp: malloc_result_def elim: wp_conseq)
  qed
qed

text \<open>The pattern of the growing overrides: \<open>realloc\<close> of a buffer that may not exist yet.\<close>

lemma realloc_buffer_law:
  assumes inv: "inv w" and n: "n \<noteq> 0"
    and s: "s \<noteq> NULL \<Longrightarrow> owned w s \<and> blocks w s \<noteq> None"
  shows "wp (s = NULL \<and> room w = 0) (realloc s n w) (\<lambda>(q, w'). inv w' \<and>
    (if q = NULL then blocks w' = blocks w \<and> owned w' = owned w \<and> room w \<le> room w' \<and> errno w' = ENOMEM
     else replaced owned s w q w' \<and> owned w' q \<and> unat n \<le> SSIZE_MAX
       \<and> blocks w' q = Some (resized (unat n) (case blocks w s of None \<Rightarrow> [] | Some cs \<Rightarrow> cs))))"
proof (cases "s = NULL")
  case True
  then show ?thesis
    using realloc_NULL_law [OF inv, of n] NULL_law [OF inv]
    by (auto simp: malloc_result_def replaced_def resized_def elim!: wp_conseq)
next
  case False
  with s obtain cs where cs: "blocks w s = Some cs" "owned w s" by blast
  from realloc_law [OF inv n cs(2) False cs(1)] show ?thesis
    using False cs by (auto simp: realloc_result_def replaced_def elim!: wp_conseq)
qed

end

section \<open>The plain libc allocator\<close>

definition libc_malloc :: "size_t \<Rightarrow> 'a libc_scheme \<Rightarrow> (ptr \<times> 'a libc_scheme) outcome" where
  "libc_malloc n w = Done (real_malloc n w)"

definition libc_ok :: "'a libc_scheme \<Rightarrow> bool" where
  "libc_ok w \<longleftrightarrow> blocks w NULL = None"

definition libc_owns :: "'a libc_scheme \<Rightarrow> ptr \<Rightarrow> bool" where
  "libc_owns w p \<longleftrightarrow> blocks w p \<noteq> None"

lemma real_malloc_result:
  "real_malloc n w = (p, w') \<Longrightarrow> malloc_result libc_owns (\<lambda>_. 1) n w p w'"
  by (cases rule: real_malloc_cases [of n w])
    (auto simp: malloc_result_def libc_owns_def fun_eq_iff dest: fresh_blockD)

lemma real_realloc_result:
  assumes "n \<noteq> 0" "p \<noteq> NULL" "blocks w p = Some cs"
  shows "\<exists>q w'. real_realloc p n w = Done (q, w') \<and> realloc_result libc_owns (\<lambda>_. 1) p cs n w q w'"
  using assms(2,3)
proof (cases rule: real_realloc_cases [where n = n])
  case (moved q w')
  then show ?thesis
    using assms(2) by (auto simp: realloc_result_def libc_owns_def fun_eq_iff dest: fresh_blockD)
next
  case (failed w')
  then show ?thesis
    by (auto simp: realloc_result_def libc_owns_def fun_eq_iff)
next
  case (freed w')
  with assms(1) show ?thesis by simp
qed

interpretation libc_alloc: c_allocator libc_malloc real_realloc real_free libc_ok libc_owns "\<lambda>_. 1"
proof unfold_locales
  fix w :: "'a libc_scheme" and n :: size_t and p cs
  assume ok: "libc_ok w"
  have m: "libc_ok w' \<and> malloc_result libc_owns (\<lambda>_. 1) n w q w'" if "real_malloc n w = (q, w')" for q w'
    using real_malloc_result [OF that] ok by (auto simp: malloc_result_def libc_ok_def split: if_splits)
  show "wp (1 = 0) (libc_malloc n w) (\<lambda>(p, w'). libc_ok w' \<and> malloc_result libc_owns (\<lambda>_. 1) n w p w')"
    "wp (1 = 0) (real_realloc NULL n w) (\<lambda>(p, w'). libc_ok w' \<and> malloc_result libc_owns (\<lambda>_. 1) n w p w')"
    using m by (auto simp: libc_malloc_def real_realloc_def)
  show "wp False (real_realloc p n w)
      (\<lambda>(q, w'). libc_ok w' \<and> realloc_result libc_owns (\<lambda>_. 1) p cs n w q w')"
    if "n \<noteq> 0" "libc_owns w p" "p \<noteq> NULL" "blocks w p = Some cs"
    using real_realloc_result [OF that(1,3,4)] ok
    by (auto simp: libc_ok_def realloc_result_def split: if_splits)
  show "wp False (real_free p w) (\<lambda>w'. libc_ok w' \<and> blocks w' = (blocks w)(p := None)
      \<and> errno w' = errno w \<and> libc_owns w' = (libc_owns w)(p := False) \<and> (1::nat) \<le> 1)"
    if "libc_owns w p" "p \<noteq> NULL" "blocks w p = Some cs"
    using that ok by (auto simp: real_free_def libc_ok_def libc_owns_def fun_eq_iff)
  show "blocks w NULL = None" using ok by (simp add: libc_ok_def)
qed (auto simp: libc_ok_def libc_owns_def real_free_def fun_eq_iff)

end
