(* ===== verification/Mock_Allocator.thy ===== *)
theory Mock_Allocator
  imports Bootstrap Allocator
begin

text \<open>
  The allocation functions of \<open>libmock_allocator.so\<close> (\<open>src/mock_allocator.c\<close>): symbol
  resolution through \<open>dlsym\<close>, tracking, \<open>malloc\<close>, \<open>calloc\<close>, \<open>realloc\<close>, \<open>free\<close> and the three
  functions of the allocator bridge. The invariant \<open>mock_inv\<close> says that the registry
  records only live heap objects, with their sizes, and that the live counters count
  exactly the recorded objects; every operation keeps it, and the mock allocator satisfies
  the allocator laws the override library relies on.
\<close>

section \<open>Resolution of the real functions\<close>

text \<open>\<open>ao_fatal\<close> writes its message to standard error and ends the process.\<close>

definition ao_fatal :: "string \<Rightarrow> 'a outcome" where
  "ao_fatal message = Exit 127"

text \<open>
  \<open>pthread_once\<close>: the routine runs at the first call only. A call that comes back from inside the
  routine waits for the routine to finish, which never happens.
\<close>

definition pthread_once :: "(mock \<Rightarrow> mock outcome) \<Rightarrow> mock \<Rightarrow> mock outcome" where
  "pthread_once routine w =
     (case g_resolve_once w of
        Once_done \<Rightarrow> Done w
      | Once_running \<Rightarrow> Spin
      | Once_init \<Rightarrow> obind (routine (w\<lparr>g_resolve_once := Once_running\<rparr>)) (\<lambda>w. Done (w\<lparr>g_resolve_once := Once_done\<rparr>)))"

section \<open>Tracking\<close>

definition ao_track_allocation_or_die :: "ptr \<Rightarrow> size_t \<Rightarrow> mock \<Rightarrow> mock outcome" where
  "ao_track_allocation_or_die p requested w =
     obind (ao_registry_lock w) (\<lambda>w.
       let (aid, w) = ao_next_allocation_id w;
           inserted = ao_registry_insert_locked p requested aid (g_registry w);
           w = (case inserted of None \<Rightarrow> w | Some reg \<Rightarrow> w\<lparr>g_registry := reg\<rparr>);
           w = ao_registry_unlock w
       in if inserted = None then ao_fatal ''mock_allocator: allocation registry exhausted''
          else Done (ao_live_add requested w))"

section \<open>Bodies of the allocation functions\<close>

text \<open>
  The four functions call \<open>ao_ensure_real_functions\<close>, which runs \<open>dlsym\<close>, which calls the four functions. The
  bodies therefore take the call of \<open>ao_ensure_real_functions\<close> as the argument \<open>ensure\<close>; the knot is tied below.
\<close>

definition malloc_body :: "(mock \<Rightarrow> mock outcome) \<Rightarrow> size_t \<Rightarrow> mock \<Rightarrow> (ptr \<times> mock) outcome" where
  "malloc_body ensure n w =
     (if g_in_resolver w then ao_bootstrap_alloc n w
      else obind (ensure w) (\<lambda>w.
        let (p, w) = real_malloc n w
        in if p = NULL then Done (NULL, ao_record_failed_allocation w)
           else obind (ao_track_allocation_or_die p n w) (\<lambda>w.
                  Done (p, ao_record_successful_allocation 0 n w))))"

text \<open>The first branch of \<open>calloc\<close>.\<close>

definition resolver_calloc :: "size_t \<Rightarrow> size_t \<Rightarrow> mock \<Rightarrow> (ptr \<times> mock) outcome" where
  "resolver_calloc nmemb sz w =
     (let requested = nmemb * sz
      in obind (ao_bootstrap_alloc requested w) (\<lambda>(p, w).
           if p = NULL then Done (NULL, w)
           else if 65536 < boot_offset p w + unat requested then Undef
           else Done (p, w\<lparr>g_bootstrap_heap :=
                  fill_bytes (g_bootstrap_heap w) (boot_offset p w) (unat requested) 0\<rparr>)))"

definition calloc_body :: "(mock \<Rightarrow> mock outcome) \<Rightarrow> size_t \<Rightarrow> size_t \<Rightarrow> mock \<Rightarrow> (ptr \<times> mock) outcome" where
  "calloc_body ensure nmemb sz w =
     (if g_in_resolver w then resolver_calloc nmemb sz w
      else if nmemb \<noteq> 0 \<and> SIZE_MAX div nmemb < sz
      then Done (NULL, ao_record_failed_allocation (w\<lparr>errno := ENOMEM\<rparr>))
      else let requested = nmemb * sz
           in obind (ensure w) (\<lambda>w.
                let (p, w) = real_calloc nmemb sz w
                in if p = NULL then Done (NULL, ao_record_failed_allocation w)
                   else obind (ao_track_allocation_or_die p requested w) (\<lambda>w.
                          Done (p, ao_record_successful_allocation 1 requested w))))"

text \<open>
  The three critical sections of \<open>realloc\<close> on a tracked block: look up, call the real
  function, exchange the registry entry.
\<close>

definition realloc_lookup :: "ptr \<Rightarrow> mock \<Rightarrow> ((size_t \<times> 64 word) option \<times> mock) outcome" where
  "realloc_lookup p w =
     obind (ao_registry_lock w) (\<lambda>w.
       Done (ao_registry_lookup_locked p (g_registry w), ao_registry_unlock w))"

definition realloc_exchange :: "ptr \<Rightarrow> ptr \<Rightarrow> size_t \<Rightarrow> 64 word \<Rightarrow> mock \<Rightarrow> mock outcome" where
  "realloc_exchange p new_ptr n aid w =
     obind (ao_registry_lock w) (\<lambda>w.
       let w = (case ao_registry_remove_locked p (g_registry w) of
                  None \<Rightarrow> w | Some (_, reg) \<Rightarrow> w\<lparr>g_registry := reg\<rparr>)
       in if new_ptr = NULL then Done (ao_registry_unlock w)
          else case ao_registry_insert_locked new_ptr n aid (g_registry w) of
                 None \<Rightarrow> ao_fatal ''mock_allocator: allocation registry exhausted during realloc''
               | Some reg \<Rightarrow> Done (ao_registry_unlock (w\<lparr>g_registry := reg\<rparr>)))"

definition realloc_body :: "(mock \<Rightarrow> mock outcome) \<Rightarrow> ptr \<Rightarrow> size_t \<Rightarrow> mock \<Rightarrow> (ptr \<times> mock) outcome" where
  "realloc_body ensure p n w =
     (if g_in_resolver w then ao_bootstrap_realloc p n w
      else if ao_bootstrap_contains p w then ao_bootstrap_realloc p n w
      else obind (ensure w) (\<lambda>w.
        if p = NULL
        then obind (real_realloc NULL n w) (\<lambda>(new_ptr, w).
               if new_ptr = NULL then Done (NULL, ao_record_failed_allocation w)
               else obind (ao_track_allocation_or_die new_ptr n w) (\<lambda>w.
                      Done (new_ptr, ao_record_successful_allocation 2 n w)))
        else obind (realloc_lookup p w) (\<lambda>(entry, w).
          case entry of
            None \<Rightarrow>
              obind (real_realloc p n (ao_record_realloc True w)) (\<lambda>(new_ptr, w).
                Done (new_ptr, if new_ptr = NULL \<and> n \<noteq> 0 then ao_record_failed_allocation w else w))
          | Some (old_size, aid) \<Rightarrow>
              obind (real_realloc p n w) (\<lambda>(new_ptr, w).
                if new_ptr = NULL \<and> n \<noteq> 0
                then Done (NULL, ao_record_failed_allocation (ao_record_realloc False w))
                else obind (realloc_exchange p new_ptr n aid w) (\<lambda>w.
                  let w = ao_record_realloc False w
                  in Done (new_ptr, if new_ptr \<noteq> NULL then ao_live_update old_size n w
                                    else ao_live_remove old_size w))))))"

definition free_body :: "(mock \<Rightarrow> mock outcome) \<Rightarrow> ptr \<Rightarrow> mock \<Rightarrow> mock outcome" where
  "free_body ensure p w =
     (if p = NULL then Done w
      else if ao_bootstrap_contains p w then Done w
      else if g_in_resolver w then Done w
      else obind (ensure w) (\<lambda>w.
        obind (ao_registry_lock w) (\<lambda>w.
          let removed = ao_registry_remove_locked p (g_registry w);
              w = (case removed of None \<Rightarrow> w | Some (_, reg) \<Rightarrow> w\<lparr>g_registry := reg\<rparr>);
              w = ao_record_free (removed = None) (ao_registry_unlock w);
              w = (case removed of None \<Rightarrow> w | Some ((requested, _), _) \<Rightarrow> ao_live_remove requested w)
          in real_free p w)))"

section \<open>Resolution through the loader\<close>

text \<open>An allocation call that \<open>dlsym\<close> makes runs the whole body of the function.\<close>

fun dl_call :: "(mock \<Rightarrow> mock outcome) \<Rightarrow> dl_call \<Rightarrow> mock \<Rightarrow> mock outcome" where
  "dl_call ensure (DL_malloc n) w = obind (malloc_body ensure n w) (\<lambda>(p, w). Done (w\<lparr>dlsym_given := p # dlsym_given w\<rparr>))"
| "dl_call ensure (DL_calloc m n) w = obind (calloc_body ensure m n w) (\<lambda>(p, w). Done (w\<lparr>dlsym_given := p # dlsym_given w\<rparr>))"
| "dl_call ensure (DL_realloc q n) w = obind (realloc_body ensure q n w) (\<lambda>(p, w). Done (w\<lparr>dlsym_given := p # dlsym_given w\<rparr>))"
| "dl_call ensure (DL_free p) w = free_body ensure p w"

fun dl_calls :: "(mock \<Rightarrow> mock outcome) \<Rightarrow> (ptr list \<Rightarrow> dl_call) list \<Rightarrow> mock \<Rightarrow> mock outcome" where
  "dl_calls ensure [] w = Done w"
| "dl_calls ensure (c # cs) w = obind (dl_call ensure (c (dlsym_given w)) w) (dl_calls ensure cs)"

definition dlsym :: "(mock \<Rightarrow> mock outcome) \<Rightarrow> string \<Rightarrow> mock \<Rightarrow> (bool \<times> mock) outcome" where
  "dlsym ensure name w = obind (dl_calls ensure (dlsym_calls w name) w) (\<lambda>w'. Done (dlsym_found w name, w'))"

text \<open>
  \<open>ao_ensure_real_functions\<close> as the calls from inside \<open>dlsym\<close> find it: \<open>pthread_once\<close> runs the resolver already. Were
  it to start the resolver once more, the result would be undefined.
\<close>

definition nested_ensure :: "mock \<Rightarrow> mock outcome" where
  "nested_ensure = pthread_once (\<lambda>_. Undef)"

definition ao_resolve_real_functions :: "mock \<Rightarrow> mock outcome" where
  "ao_resolve_real_functions w =
     obind (dlsym nested_ensure ''malloc'' (w\<lparr>g_in_resolver := True\<rparr>)) (\<lambda>(symbol, w).
     obind (dlsym nested_ensure ''calloc'' (w\<lparr>g_real_malloc := symbol\<rparr>)) (\<lambda>(symbol, w).
     obind (dlsym nested_ensure ''realloc'' (w\<lparr>g_real_calloc := symbol\<rparr>)) (\<lambda>(symbol, w).
     obind (dlsym nested_ensure ''free'' (w\<lparr>g_real_realloc := symbol\<rparr>)) (\<lambda>(symbol, w).
       let w = w\<lparr>g_real_free := symbol, g_in_resolver := False\<rparr>
       in if \<not> g_real_malloc w \<or> \<not> g_real_calloc w \<or> \<not> g_real_realloc w \<or> \<not> g_real_free w
          then ao_fatal ''mock_allocator: failed to resolve real allocation symbols''
          else Done w))))"

definition ao_ensure_real_functions :: "mock \<Rightarrow> mock outcome" where
  "ao_ensure_real_functions = pthread_once ao_resolve_real_functions"

section \<open>Allocation functions\<close>

definition malloc :: "size_t \<Rightarrow> mock \<Rightarrow> (ptr \<times> mock) outcome" where
  "malloc = malloc_body ao_ensure_real_functions"

definition calloc :: "size_t \<Rightarrow> size_t \<Rightarrow> mock \<Rightarrow> (ptr \<times> mock) outcome" where
  "calloc = calloc_body ao_ensure_real_functions"

definition realloc :: "ptr \<Rightarrow> size_t \<Rightarrow> mock \<Rightarrow> (ptr \<times> mock) outcome" where
  "realloc = realloc_body ao_ensure_real_functions"

definition free :: "ptr \<Rightarrow> mock \<Rightarrow> mock outcome" where
  "free = free_body ao_ensure_real_functions"

section \<open>The allocator bridge\<close>

definition ao_alloc_bridge_owns :: "ptr \<Rightarrow> mock \<Rightarrow> (bool \<times> mock) outcome" where
  "ao_alloc_bridge_owns p w = ao_mock_is_tracked_allocation p w"

definition ao_alloc_bridge_libc_free :: "ptr \<Rightarrow> mock \<Rightarrow> mock outcome" where
  "ao_alloc_bridge_libc_free p w =
     (if p = NULL then Done w
      else obind (ao_ensure_real_functions w) (real_free p))"

definition ao_alloc_bridge_libc_realloc :: "ptr \<Rightarrow> size_t \<Rightarrow> mock \<Rightarrow> (ptr \<times> mock) outcome" where
  "ao_alloc_bridge_libc_realloc p n w = obind (ao_ensure_real_functions w) (real_realloc p n)"

section \<open>Invariant\<close>

definition tracked :: "mock \<Rightarrow> ptr \<Rightarrow> (size_t \<times> 64 word) option" where
  "tracked w = registry_map (g_registry w)"

definition mock_owns :: "mock \<Rightarrow> ptr \<Rightarrow> bool" where
  "mock_owns w p \<longleftrightarrow> tracked w p \<noteq> None"

definition mock_room :: "mock \<Rightarrow> nat" where
  "mock_room w = AO_REGISTRY_CAPACITY - card (dom (tracked w))"

text \<open>The real functions are resolved and nobody holds the registry lock.\<close>

definition mock_ready :: "mock \<Rightarrow> bool" where
  "mock_ready w \<longleftrightarrow> \<not> g_registry_lock w \<and> \<not> g_in_resolver w \<and> g_resolve_once w = Once_done
     \<and> g_real_malloc w \<and> g_real_calloc w \<and> g_real_realloc w \<and> g_real_free w"

definition heap_ok :: "mock \<Rightarrow> bool" where
  "heap_ok w \<longleftrightarrow> static_base w \<noteq> NULL \<and>
     (\<forall>p. blocks w p \<noteq> None \<longrightarrow> live_key p \<and> \<not> in_static (static_base w) p)"

text \<open>Every tracked address is a live object of the recorded size.\<close>

definition tracking_ok :: "mock \<Rightarrow> bool" where
  "tracking_ok w \<longleftrightarrow>
     (\<forall>p sz aid. tracked w p = Some (sz, aid) \<longrightarrow> (\<exists>cs. blocks w p = Some cs \<and> length cs = unat sz))"

text \<open>The live counters count the tracked objects and their bytes.\<close>

definition live_ok :: "mock \<Rightarrow> bool" where
  "live_ok w \<longleftrightarrow> live_blocks (g_stats w) = of_nat (card (dom (tracked w)))
     \<and> live_bytes (g_stats w) = total_size (tracked w)"

definition mock_inv :: "mock \<Rightarrow> bool" where
  "mock_inv w \<longleftrightarrow> mock_ready w \<and> registry_ok (g_registry w) \<and> heap_ok w \<and> tracking_ok w \<and> live_ok w"

lemmas mock_inv_defs = mock_inv_def mock_ready_def heap_ok_def tracking_ok_def live_ok_def

lemma mock_more_eq:
  fixes w w' :: mock
  assumes "libc.more w' = libc.more w"
  shows "g_registry w' = g_registry w" "g_registry_lock w' = g_registry_lock w"
    "g_stats w' = g_stats w" "g_in_resolver w' = g_in_resolver w"
    "g_resolve_once w' = g_resolve_once w" "g_real_malloc w' = g_real_malloc w"
    "g_real_calloc w' = g_real_calloc w" "g_real_realloc w' = g_real_realloc w"
    "g_real_free w' = g_real_free w" "g_next_allocation_id w' = g_next_allocation_id w"
    "tracked w' = tracked w"
  using assms by (cases w; cases w'; simp add: tracked_def)+

lemma mock_owns_cong: "tracked w' = tracked w \<Longrightarrow> mock_owns w' = mock_owns w"
  by (intro ext) (simp add: mock_owns_def)

lemma mock_inv_calls:
  assumes "same_but_calls w w'"
  shows "mock_inv w' = mock_inv w" "tracked w' = tracked w" "mock_owns w' = mock_owns w"
    "mock_room w' = mock_room w"
proof -
  note same = same_but_callsD [OF assms]
  show t: "tracked w' = tracked w"
    by (simp only: tracked_def same)
  then show "mock_owns w' = mock_owns w"
    by (rule mock_owns_cong)
  show "mock_room w' = mock_room w"
    by (simp only: mock_room_def t)
  show "mock_inv w' = mock_inv w"
    by (simp only: mock_inv_defs same t)
qed

lemma mock_inv_tracked_live:
  assumes "mock_inv w" "tracked w p = Some v"
  shows "live_key p" "\<exists>cs. blocks w p = Some cs \<and> length cs = unat (fst v)"
proof -
  have "tracked w p = Some (fst v, snd v)" using assms(2) by simp
  then show b: "\<exists>cs. blocks w p = Some cs \<and> length cs = unat (fst v)"
    using assms(1) unfolding mock_inv_def tracking_ok_def by blast
  then show "live_key p"
    using assms(1) unfolding mock_inv_def heap_ok_def by blast
qed

lemma mock_ready_ensure: "mock_ready w \<Longrightarrow> ao_ensure_real_functions w = Done w"
  by (simp add: mock_ready_def ao_ensure_real_functions_def pthread_once_def)

lemma mock_inv_ensure: "mock_inv w \<Longrightarrow> ao_ensure_real_functions w = Done w"
  by (simp add: mock_inv_def mock_ready_ensure)

lemma mock_inv_lock:
  "mock_inv w \<Longrightarrow> ao_registry_lock w = Done (w\<lparr>g_registry_lock := True\<rparr>)"
  by (simp add: mock_inv_defs ao_registry_lock_def)

text \<open>Changes of the heap that keep the invariant.\<close>

lemma mock_inv_untracked_block:
  assumes "mock_inv w" "libc.more w' = libc.more w" "static_base w' = static_base w"
    and "blocks w' = (blocks w)(p \<mapsto> cs)" "live_key p" "\<not> in_static (static_base w) p" "tracked w p = None"
  shows "mock_inv w'"
  using assms mock_more_eq [OF assms(2)]
  by (auto simp: mock_inv_defs)

lemma mock_inv_same_blocks:
  assumes "mock_inv w" "libc.more w' = libc.more w" "static_base w' = static_base w" "blocks w' = blocks w"
  shows "mock_inv w'"
  using assms mock_more_eq [OF assms(2)] by (auto simp: mock_inv_defs)

lemma mock_inv_free_untracked:
  assumes "mock_inv w" "libc.more w' = libc.more w" "static_base w' = static_base w"
    and "blocks w' = (blocks w)(p := None)" "tracked w p = None"
  shows "mock_inv w'"
  using assms mock_more_eq [OF assms(2)]
  by (auto simp: mock_inv_defs)

lemma mock_inv_block:
  assumes "mock_inv w" "blocks w p = Some cs"
  shows "live_key p" "\<not> in_static (static_base w) p"
  using assms by (auto simp: mock_inv_defs)

lemma mock_inv_fresh_untracked:
  assumes "mock_inv w" "blocks w p = None"
  shows "tracked w p = None"
  using mock_inv_tracked_live [OF assms(1)] assms(2) by (cases "tracked w p") fastforce+

lemma fresh_block_live: "fresh_block w p n \<Longrightarrow> live_key p"
  by (auto simp: live_key_def AO_REGISTRY_EMPTY_def AO_REGISTRY_TOMBSTONE_def dest: fresh_blockD)

text \<open>Registering an object, dropping one, and exchanging one for another.\<close>

lemma mock_inv_register:
  assumes inv: "mock_inv w" and p: "live_key p" "tracked w p = None"
    and b: "blocks w p = Some cs" "length cs = unat n"
    and ins: "ao_registry_insert_locked p n aid (g_registry w) = Some r"
  shows "mock_inv (ao_live_add n (w\<lparr>g_registry := r, g_next_allocation_id := i\<rparr>))"
    and "tracked (ao_live_add n (w\<lparr>g_registry := r, g_next_allocation_id := i\<rparr>)) = (tracked w)(p \<mapsto> (n, aid))"
proof -
  have ok: "registry_ok (g_registry w)" using inv by (simp add: mock_inv_defs)
  note r = reg.insrt_Some [OF ok p(1) ins] reg.insrt_new [OF ok p(1) _ ins]
  show t: "tracked (ao_live_add n (w\<lparr>g_registry := r, g_next_allocation_id := i\<rparr>)) = (tracked w)(p \<mapsto> (n, aid))"
    using r(1) by (simp add: tracked_def ao_live_add_def)
  have "card (dom (registry_map r)) = Suc (card (dom (tracked w)))"
      "total_size (registry_map r) = total_size (tracked w) + n"
    using r(2,3) p(2) by (simp_all add: tracked_def)
  then show "mock_inv (ao_live_add n (w\<lparr>g_registry := r, g_next_allocation_id := i\<rparr>))"
    using inv r(1) b unfolding mock_inv_defs t
    by (auto simp: ao_live_add_def tracked_def)
qed

lemma mock_inv_drop:
  assumes inv: "mock_inv w" and p: "live_key p"
    and rem: "ao_registry_remove_locked p (g_registry w) = Some ((sz, aid), r)"
    and w': "libc.more w' = libc.more (ao_live_remove sz (w\<lparr>g_registry := r\<rparr>))"
      "static_base w' = static_base w" "blocks w' = (blocks w)(p := None)"
  shows "mock_inv w'" and "tracked w' = (tracked w)(p := None)"
proof -
  have ok: "registry_ok (g_registry w)" using inv by (simp add: mock_inv_defs)
  note r = reg.remov_Some [OF ok p rem] reg.remov_present [OF ok p rem]
  note m = mock_more_eq [OF w'(1)]
  show t: "tracked w' = (tracked w)(p := None)"
    using r(1) m by (simp add: tracked_def ao_live_remove_def)
  have "card (dom (tracked w)) = Suc (card (dom (registry_map r)))"
      "total_size (registry_map r) = total_size (tracked w) - sz"
    using r(2,3) by (simp_all add: tracked_def)
  then show "mock_inv w'"
    using inv r(1) m w' unfolding mock_inv_defs t
    by (auto simp: ao_live_remove_def tracked_def split: if_splits)
qed

lemma mock_inv_finite: "mock_inv w \<Longrightarrow> finite (dom (tracked w))"
  by (simp add: mock_inv_def tracked_def finite_registry_map)

lemma mock_room_register:
  "mock_inv w \<Longrightarrow> tracked w' = (tracked w)(p \<mapsto> v) \<Longrightarrow> mock_room w \<le> Suc (mock_room w')"
  using card_insert_if [of "dom (tracked w)" p] mock_inv_finite [of w]
  by (auto simp: mock_room_def)

lemma mock_room_drop:
  "mock_inv w \<Longrightarrow> tracked w' = (tracked w)(p := None) \<Longrightarrow> mock_room w \<le> mock_room w'"
  using card_mono [of "dom (tracked w)" "dom (tracked w) - {p}"] mock_inv_finite [of w]
  by (auto simp: mock_room_def intro: diff_le_mono2)

lemma mock_owns_register:
  "tracked w' = (tracked w)(p \<mapsto> v) \<Longrightarrow> mock_owns w' = (mock_owns w)(p := True)"
  by (intro ext) (simp add: mock_owns_def)

lemma mock_owns_drop:
  "tracked w' = (tracked w)(p := None) \<Longrightarrow> mock_owns w' = (mock_owns w)(p := False)"
  by (intro ext) (simp add: mock_owns_def)

section \<open>Tracking keeps the invariant\<close>

lemma track_eq:
  assumes "mock_inv w"
  shows "ao_track_allocation_or_die p n w =
    (case ao_registry_insert_locked p n (g_next_allocation_id w) (g_registry w) of
       None \<Rightarrow> Exit 127
     | Some r \<Rightarrow> Done (ao_live_add n (w\<lparr>g_registry := r,
                 g_next_allocation_id := g_next_allocation_id w + 1\<rparr>)))"
  using assms
  by (cases w) (simp add: mock_inv_defs ao_track_allocation_or_die_def ao_registry_lock_def
      ao_registry_unlock_def ao_next_allocation_id_def ao_fatal_def ao_live_add_def Let_def
      split: option.splits)

lemma track_spec:
  assumes inv: "mock_inv w" and p: "live_key p" "tracked w p = None"
    and b: "blocks w p = Some cs" "length cs = unat n"
  shows "wp (mock_room w = 0) (ao_track_allocation_or_die p n w)
    (\<lambda>w'. mock_inv w' \<and> tracked w' = (tracked w)(p \<mapsto> (n, g_next_allocation_id w))
       \<and> blocks w' = blocks w \<and> errno w' = errno w)"
proof (cases "ao_registry_insert_locked p n (g_next_allocation_id w) (g_registry w)")
  case None
  then have "mock_room w = 0"
    using reg.insrt_None [OF _ p(1), of "g_registry w"] inv
    by (simp add: mock_room_def tracked_def mock_inv_def)
  with None show ?thesis by (simp add: track_eq [OF inv])
next
  case (Some r)
  then show ?thesis
    using mock_inv_register [OF inv p b Some]
    by (simp add: track_eq [OF inv]) (simp add: ao_live_add_def)
qed

text \<open>Allocation from the system, then tracking: what \<open>malloc\<close>, \<open>calloc\<close> and
  \<open>realloc (NULL)\<close> share.\<close>

lemma allocate_and_track:
  assumes inv: "mock_inv w" and fresh: "fresh_block w p n" "p \<noteq> NULL"
    and u: "libc.more u = libc.more w" "static_base u = static_base w" "errno u = errno w"
      "blocks u = (blocks w)(p \<mapsto> cs)" "length cs = unat n"
  shows "wp (mock_room w = 0)
     (obind (ao_track_allocation_or_die p n u) (\<lambda>w. Done (p, ao_record_successful_allocation kind n w)))
     (\<lambda>(q, w'). q = p \<and> mock_inv w' \<and> blocks w' = (blocks w)(p \<mapsto> cs) \<and> errno w' = errno w
        \<and> tracked w' = (tracked w)(p \<mapsto> (n, g_next_allocation_id w)))"
proof -
  have live: "live_key p" and none: "tracked w p = None"
    using fresh fresh_block_live mock_inv_fresh_untracked [OF inv] by (auto dest: fresh_blockD)
  have inv_u: "mock_inv u"
    using mock_inv_untracked_block [OF inv u(1,2,4) live _ none] fresh by (auto dest: fresh_blockD)
  have t: "tracked u = tracked w" "g_next_allocation_id u = g_next_allocation_id w"
    using mock_more_eq [OF u(1)] by simp_all
  have room: "mock_room u = mock_room w" by (simp add: mock_room_def t)
  have "wp (mock_room w = 0) (ao_track_allocation_or_die p n u)
    (\<lambda>w'. mock_inv w' \<and> tracked w' = (tracked w)(p \<mapsto> (n, g_next_allocation_id w))
       \<and> blocks w' = blocks u \<and> errno w' = errno u)"
    using track_spec [OF inv_u live, of cs n] none u(4,5) unfolding t room by simp
  then show ?thesis
    using u(3,4) mock_inv_calls [OF record_successful_calls] same_but_callsD [OF record_successful_calls]
    by (cases "ao_track_allocation_or_die p n u") auto
qed

lemma malloc_result_tracked:
  assumes "mock_inv w" "fresh_block w p n" "blocks w' = (blocks w)(p \<mapsto> replicate (unat n) None)"
    and "errno w' = errno w" "tracked w' = (tracked w)(p \<mapsto> v)"
  shows "malloc_result mock_owns mock_room n w p w'"
  using assms mock_owns_register [OF assms(5)] mock_room_register [OF assms(1,5)] fresh_blockD [OF assms(2)]
  by (simp add: malloc_result_def)

lemma malloc_result_NULL:
  assumes "blocks w' = blocks w" "errno w' = ENOMEM" "tracked w' = tracked w"
  shows "malloc_result mock_owns mock_room n w NULL w'"
  using assms mock_owns_cong [OF assms(3)] by (simp add: malloc_result_def mock_room_def)

section \<open>malloc, calloc\<close>

text \<open>A system allocation that failed is only counted.\<close>

lemma failed_allocation:
  assumes inv: "mock_inv w" and u: "libc.more u = libc.more w" "static_base u = static_base w"
      "errno u = ENOMEM" "blocks u = blocks w"
  shows "mock_inv (ao_record_failed_allocation u)"
    and "malloc_result mock_owns mock_room n w NULL (ao_record_failed_allocation u)"
    and "tracked (ao_record_failed_allocation u) = tracked w"
proof -
  have "mock_inv u" by (rule mock_inv_same_blocks [OF inv u(1,2,4)])
  then show "mock_inv (ao_record_failed_allocation u)"
    by (simp only: mock_inv_calls(1) [OF record_failed_calls])
  show t: "tracked (ao_record_failed_allocation u) = tracked w"
    using mock_more_eq [OF u(1)] by (simp add: mock_inv_calls(2) [OF record_failed_calls])
  show "malloc_result mock_owns mock_room n w NULL (ao_record_failed_allocation u)"
    using same_but_callsD [OF record_failed_calls, of u] u t by (intro malloc_result_NULL) simp_all
qed

lemma system_malloc_tracked:
  assumes inv: "mock_inv w"
  shows "wp (mock_room w = 0)
     (let (p, w) = real_malloc n w
      in if p = NULL then Done (NULL, ao_record_failed_allocation w)
         else obind (ao_track_allocation_or_die p n w) (\<lambda>w. Done (p, ao_record_successful_allocation kind n w)))
     (\<lambda>(p, w'). mock_inv w' \<and> malloc_result mock_owns mock_room n w p w'
        \<and> tracked w' = (if p = NULL then tracked w else (tracked w)(p \<mapsto> (n, g_next_allocation_id w))))"
proof (cases rule: real_malloc_cases [of n w])
  case (null u)
  then show ?thesis using failed_allocation [OF inv null(5,3,4,2)] by simp
next
  case (block p u)
  then show ?thesis
    using allocate_and_track [OF inv block(2) _ block(6,4,5,3), of kind] fresh_blockD(1) [OF block(2)]
    by (auto simp: Let_def elim!: wp_conseq intro!: malloc_result_tracked [OF inv])
qed

lemma malloc_spec:
  assumes "mock_inv w"
  shows "wp (mock_room w = 0) (malloc n w)
    (\<lambda>(p, w'). mock_inv w' \<and> malloc_result mock_owns mock_room n w p w'
       \<and> tracked w' = (if p = NULL then tracked w else (tracked w)(p \<mapsto> (n, g_next_allocation_id w))))"
  using system_malloc_tracked [OF assms] assms mock_inv_ensure [OF assms]
  by (simp add: malloc_def malloc_body_def mock_inv_defs)

text \<open>
  The call counters of the statistics, and what one call does to them: nothing outside a capture.
\<close>

definition call_counters :: "ao_atomic_stats \<Rightarrow> ao_atomic_stats" where
  "call_counters st = st\<lparr>live_blocks := 0, live_bytes := 0\<rparr>"

lemma capture_more:
  fixes w w' :: mock
  shows "libc.more w' = libc.more w \<Longrightarrow> ao_capture_enabled w' = ao_capture_enabled w"
  by (cases w, cases w') (simp add: ao_capture_enabled_def)

lemma mock_inv_resolver: "mock_inv w \<Longrightarrow> \<not> g_in_resolver w"
  by (simp add: mock_inv_def mock_ready_def)

lemma malloc_counters:
  assumes inv: "mock_inv w" and m: "malloc n w = Done (p, w')"
  shows "call_counters (g_stats w') = (let st = call_counters (g_stats w) in
    if \<not> ao_capture_enabled w then st
    else if p = NULL then st\<lparr>failed_allocations := failed_allocations st + 1\<rparr>
    else st\<lparr>malloc_calls := malloc_calls st + 1, successful_allocations := successful_allocations st + 1,
            successful_allocation_bytes := successful_allocation_bytes st + n\<rparr>)"
proof -
  have m': "(let (p, w) = real_malloc n w
     in if p = NULL then Done (NULL, ao_record_failed_allocation w)
        else obind (ao_track_allocation_or_die p n w) (\<lambda>w.
               Done (p, ao_record_successful_allocation 0 n w))) = Done (p, w')"
    using m inv by (simp add: malloc_def malloc_body_def mock_inv_ensure [OF inv] mock_inv_resolver [OF inv])
  show ?thesis
  proof (cases rule: real_malloc_cases [of n w])
    case (null u)
    with m' show ?thesis
      using mock_more_eq(3) [OF null(5)] capture_more [OF null(5)]
      by (auto simp: Let_def ao_record_failed_allocation_def call_counters_def)
  next
    case (block q u)
    have q: "q \<noteq> NULL" "live_key q" using block(2) fresh_blockD(1) fresh_block_live by blast+
    have "mock_inv u"
      by (rule mock_inv_untracked_block [OF inv block(6,4,3) q(2) fresh_blockD(4) [OF block(2)]
          mock_inv_fresh_untracked [OF inv fresh_blockD(3) [OF block(2)]]])
    from track_eq [OF this, of q n] m' block(1) q(1) obtain r where "p = q"
      "w' = ao_record_successful_allocation 0 n (ao_live_add n (u\<lparr>g_registry := r,
               g_next_allocation_id := g_next_allocation_id u + 1\<rparr>))"
      by (auto simp: Let_def split: option.splits)
    with q show ?thesis
      using mock_more_eq(3) [OF block(6)] capture_more [OF block(6)]
      by (auto simp: Let_def ao_record_successful_allocation_def ao_live_add_def call_counters_def
          ao_capture_enabled_def)
  qed
qed

text \<open>The overflow test of \<open>calloc\<close> is exact.\<close>

lemma calloc_guard:
  fixes nmemb sz :: size_t
  shows "nmemb \<noteq> 0 \<and> SIZE_MAX div nmemb < sz \<longleftrightarrow> 2 ^ 64 \<le> unat nmemb * unat sz"
proof (cases "nmemb = 0")
  case False
  then have "0 < unat nmemb" by (simp add: unat_gt_0)
  then have "SIZE_MAX div nmemb < sz \<longleftrightarrow> 2 ^ 64 - 1 < unat sz * unat nmemb"
    by (simp add: word_less_nat_alt unat_div unat_SIZE_MAX div_less_iff_less_mult)
  with False show ?thesis by (auto simp: mult.commute)
qed simp

lemma calloc_spec:
  assumes inv: "mock_inv w"
  shows "wp (mock_room w = 0) (calloc nmemb sz w)
    (\<lambda>(p, w'). mock_inv w' \<and>
       (if p = NULL then blocks w' = blocks w \<and> errno w' = ENOMEM \<and> tracked w' = tracked w
        else unat nmemb * unat sz < 2 ^ 64 \<and> blocks w p = None
             \<and> blocks w' = (blocks w)(p \<mapsto> replicate (unat nmemb * unat sz) (Some 0))
             \<and> tracked w' = (tracked w)(p \<mapsto> (nmemb * sz, g_next_allocation_id w))))"
proof (cases "2 ^ 64 \<le> unat nmemb * unat sz")
  case True
  then have "calloc nmemb sz w = Done (NULL, ao_record_failed_allocation (w\<lparr>errno := ENOMEM\<rparr>))"
    using calloc_guard [of nmemb sz] inv by (simp add: calloc_def calloc_body_def mock_inv_defs)
  then show ?thesis
    using failed_allocation [OF inv, of "w\<lparr>errno := ENOMEM\<rparr>"] by (simp add: malloc_result_def)
next
  case False
  then have n: "unat (nmemb * sz) = unat nmemb * unat sz"
    by (simp add: unat_word_ariths)
  have eq: "calloc nmemb sz w = (let (p, w) = real_calloc nmemb sz w
      in if p = NULL then Done (NULL, ao_record_failed_allocation w)
         else obind (ao_track_allocation_or_die p (nmemb * sz) w)
                (\<lambda>w. Done (p, ao_record_successful_allocation 1 (nmemb * sz) w)))"
  proof -
    have "\<not> (nmemb \<noteq> 0 \<and> SIZE_MAX div nmemb < sz)" using calloc_guard [of nmemb sz] False by simp
    moreover have "\<not> g_in_resolver w" using inv by (simp add: mock_inv_defs)
    ultimately show ?thesis
      unfolding calloc_def calloc_body_def by (simp only: if_False Let_def mock_inv_ensure [OF inv] obind.simps)
  qed
  show ?thesis
  proof (cases rule: real_malloc_cases [of "nmemb * sz" w])
    case (null u)
    then have "real_calloc nmemb sz w = (NULL, u)" using False by (simp add: real_calloc_def)
    then show ?thesis
      using failed_allocation [OF inv null(5,3,4,2)] by (simp add: eq malloc_result_def)
  next
    case (block p u)
    let ?z = "replicate (unat nmemb * unat sz) (Some 0)"
    have p: "p \<noteq> NULL" "blocks w p = None" using fresh_blockD [OF block(2)] by auto
    have "real_calloc nmemb sz w = (p, u\<lparr>blocks := (blocks u)(p \<mapsto> ?z)\<rparr>)"
      using block(1) False p n by (simp add: real_calloc_def)
    then show ?thesis
      using allocate_and_track [OF inv block(2) p(1), of "u\<lparr>blocks := (blocks u)(p \<mapsto> ?z)\<rparr>" ?z 1]
        block(3-6) p n False
      by (auto simp: eq Let_def elim!: wp_conseq)
  qed
qed

section \<open>free\<close>

lemma free_spec:
  assumes inv: "mock_inv w" and p: "p \<noteq> NULL" "blocks w p = Some cs"
  shows "wp False (free p w) (\<lambda>w'. mock_inv w' \<and> blocks w' = (blocks w)(p := None)
    \<and> errno w' = errno w \<and> tracked w' = (tracked w)(p := None))"
proof -
  have live: "live_key p" and nb: "\<not> ao_bootstrap_contains p w"
    using mock_inv_block [OF inv p(2)] by (simp_all add: ao_bootstrap_contains_def)
  have nr: "\<not> g_in_resolver w" and lk: "\<not> g_registry_lock w" using inv by (simp_all add: mock_inv_defs)
  define rem where "rem = ao_registry_remove_locked p (g_registry w)"
  define u where "u = (case rem of None \<Rightarrow> w | Some (_, r) \<Rightarrow> w\<lparr>g_registry := r\<rparr>)"
  define v where "v = ao_record_free (rem = None) u"
  define x where "x = (case rem of None \<Rightarrow> v | Some ((requested, _), _) \<Rightarrow> ao_live_remove requested v)"
  have unlock: "ao_registry_unlock (w\<lparr>g_registry_lock := True\<rparr>) = w"
      "ao_registry_unlock (w\<lparr>g_registry_lock := True, g_registry := r\<rparr>) = w\<lparr>g_registry := r\<rparr>" for r
    using lk by (cases w; simp add: ao_registry_unlock_def)+
  have eq: "free p w = real_free p x"
    using p(1) nb nr mock_inv_ensure [OF inv] mock_inv_lock [OF inv] unlock
    by (simp add: free_def free_body_def x_def v_def u_def rem_def Let_def split: option.splits)
  have calls: "same_but_calls u v" by (simp add: v_def record_free_calls)
  show ?thesis
  proof (cases rem)
    case None
    then have t: "tracked w p = None"
      using reg.remov_None [OF live] by (simp add: rem_def tracked_def)
    have xv: "x = v" "u = w" using None by (simp_all add: x_def u_def)
    have inv_v: "mock_inv v" and tv: "tracked v = tracked w"
      using mock_inv_calls [OF calls] inv by (simp_all add: xv)
    have b: "blocks v = blocks w" "errno v = errno w"
      using same_but_callsD [OF calls] by (simp_all add: xv)
    have "mock_inv (v\<lparr>blocks := (blocks v)(p := None)\<rparr>)"
      using inv_v t tv by (intro mock_inv_free_untracked [OF inv_v, where p = p]) simp_all
    moreover have "tracked (v\<lparr>blocks := (blocks v)(p := None)\<rparr>) = (tracked w)(p := None)"
      using t tv by (auto simp: tracked_def)
    ultimately show ?thesis
      using p b by (simp add: eq xv real_free_def)
  next
    case (Some r)
    then obtain sz aid g where r: "rem = Some ((sz, aid), g)" by (cases r) auto
    have xeq: "x = ao_live_remove sz v" "u = w\<lparr>g_registry := g\<rparr>" using r by (simp_all add: x_def u_def)
    obtain st where st: "v = u\<lparr>g_stats := st\<rparr>" "live_blocks st = live_blocks (g_stats w)"
        "live_bytes st = live_bytes (g_stats w)"
      using calls by (auto simp: same_but_calls_def xeq)
    have inv_st: "mock_inv (w\<lparr>g_stats := st\<rparr>)"
      using mock_inv_calls(1) [OF same_but_calls_stats [OF st(2,3)]] inv by simp
    let ?y = "x\<lparr>blocks := (blocks x)(p := None)\<rparr>"
    have more: "libc.more ?y = libc.more (ao_live_remove sz (w\<lparr>g_stats := st, g_registry := g\<rparr>))"
      by (cases w) (simp add: xeq st ao_live_remove_def)
    have "mock_inv ?y" "tracked ?y = (tracked (w\<lparr>g_stats := st\<rparr>))(p := None)"
      using mock_inv_drop [OF inv_st live _ more] r
      by (simp_all add: rem_def xeq st ao_live_remove_def)
    moreover have "blocks x = blocks w" "errno x = errno w"
      by (simp_all add: xeq st ao_live_remove_def)
    ultimately show ?thesis
      using p by (simp add: eq real_free_def) (simp add: tracked_def)
  qed
qed

section \<open>realloc\<close>

lemma free_counters:
  assumes inv: "mock_inv w" and p: "p \<noteq> NULL" "blocks w p = Some cs" and f: "free p w = Done w'"
  shows "call_counters (g_stats w') = (let st = call_counters (g_stats w) in
    if \<not> ao_capture_enabled w then st
    else if mock_owns w p then st\<lparr>free_calls := free_calls st + 1\<rparr>
    else st\<lparr>free_calls := free_calls st + 1, bypass_free_calls := bypass_free_calls st + 1\<rparr>)"
proof -
  have k: "live_key p" "\<not> in_static (static_base w) p" using mock_inv_block [OF inv p(2)] .
  have owns: "mock_owns w p \<longleftrightarrow> ao_registry_remove_locked p (g_registry w) \<noteq> None"
    using remove_eq(1) [OF k(1)] by (simp add: mock_owns_def tracked_def)
  show ?thesis
    using f p(1) k inv owns
    by (cases "ao_registry_remove_locked p (g_registry w)")
      (auto simp: free_def free_body_def ao_bootstrap_contains_def mock_inv_ensure [OF inv] mock_inv_lock [OF inv]
        mock_inv_resolver [OF inv] Let_def ao_record_free_def ao_registry_unlock_def ao_live_remove_def ao_capture_enabled_def call_counters_def
        real_free_def split: if_splits)
qed

lemma live_update_fields:
  "live_bytes (g_stats (ao_live_update old n w)) = live_bytes (g_stats w) + n - old"
  "live_blocks (g_stats (ao_live_update old n w)) = live_blocks (g_stats w)"
  "mock_ready (ao_live_update old n w) = mock_ready w"
  "g_registry (ao_live_update old n w) = g_registry w"
  "blocks (ao_live_update old n w) = blocks w" "errno (ao_live_update old n w) = errno w"
  "static_base (ao_live_update old n w) = static_base w"
  by (auto simp: ao_live_update_def mock_ready_def not_less)

lemma exchange_eq:
  assumes lk: "\<not> g_registry_lock w"
    and rem: "ao_registry_remove_locked p (g_registry w) = Some (v, r)"
    and ins: "q \<noteq> NULL \<Longrightarrow> ao_registry_insert_locked q n aid r = Some r'"
  shows "realloc_exchange p q n aid w = Done (w\<lparr>g_registry := if q = NULL then r else r'\<rparr>)"
  using assms
  by (cases w) (simp add: realloc_exchange_def ao_registry_lock_def ao_registry_unlock_def Let_def)

text \<open>An object moved from \<open>p\<close> to \<open>q\<close> together with its registry entry.\<close>

lemma mock_inv_exchange:
  assumes inv: "mock_inv w" and p: "tracked w p = Some (old, aid)"
    and q: "q = p \<or> tracked w q = None" "live_key q" "\<not> in_static (static_base w) q"
    and w': "registry_ok (g_registry w')" "registry_map (g_registry w') = (tracked w)(p := None, q \<mapsto> (n, aid))"
      "mock_ready w'" "static_base w' = static_base w"
      "blocks w' = (blocks w)(p := None, q \<mapsto> cs)" "length cs = unat n"
      "live_blocks (g_stats w') = live_blocks (g_stats w)"
      "live_bytes (g_stats w') = live_bytes (g_stats w) + n - old"
  shows "mock_inv w'"
proof -
  let ?m = "(tracked w)(p := None)"
  have t: "tracked w' = ?m(q \<mapsto> (n, aid))" using w'(2) by (simp add: tracked_def)
  have fin: "finite (dom (tracked w))" "finite (dom ?m)" by (simp_all add: mock_inv_finite inv)
  have mq: "?m q = None" using q(1) by auto
  have "Suc (card (dom ?m)) = card (dom (tracked w))"
    by (rule card_dom_remove [OF fin(1) p])
  then have c: "card (dom (tracked w')) = card (dom (tracked w))"
    unfolding t card_dom_insert [OF fin(2) mq] .
  have "total_size (tracked w') = total_size (tracked w) + n - old"
    unfolding t total_size_insert [OF fin(2) mq] total_size_remove [OF fin(1) p] by simp
  with c have "live_ok w'"
    using inv w'(7,8) by (simp add: live_ok_def mock_inv_def)
  moreover have "tracking_ok w'"
    using inv w'(5,6) unfolding tracking_ok_def t mock_inv_def
    by (auto split: if_splits)
  moreover have "heap_ok w'"
    using inv w'(4,5) q(2,3) unfolding heap_ok_def mock_inv_def
    by (auto split: if_splits)
  ultimately show ?thesis
    using w'(1,3) by (simp add: mock_inv_def)
qed

lemma realloc_tracked_eq:
  assumes inv: "mock_inv w" and p: "p \<noteq> NULL" "tracked w p = Some (old, aid)"
  shows "realloc p n w =
    obind (real_realloc p n w) (\<lambda>(new_ptr, w).
      if new_ptr = NULL \<and> n \<noteq> 0
      then Done (NULL, ao_record_failed_allocation (ao_record_realloc False w))
      else obind (realloc_exchange p new_ptr n aid w) (\<lambda>w.
        let w = ao_record_realloc False w
        in Done (new_ptr, if new_ptr \<noteq> NULL then ao_live_update old n w else ao_live_remove old w)))"
proof -
  have live: "live_key p" and nb: "\<not> ao_bootstrap_contains p w"
    using mock_inv_tracked_live [OF inv p(2)] mock_inv_block [OF inv]
    by (auto simp: ao_bootstrap_contains_def)
  have nr: "\<not> g_in_resolver w" using inv by (simp add: mock_inv_defs)
  have "realloc_lookup p w = Done (Some (old, aid), w)"
    using inv p(2) lookup_registry_map [OF live]
    by (cases w) (simp add: realloc_lookup_def mock_inv_defs ao_registry_lock_def
        ao_registry_unlock_def tracked_def)
  with nb nr p(1) show ?thesis
    by (simp add: realloc_def realloc_body_def mock_inv_ensure [OF inv])
qed

text \<open>The result of reallocating a tracked object with cells \<open>cs\<close> and allocation id \<open>aid\<close>.\<close>

definition tracked_realloc ::
  "ptr \<Rightarrow> cell list \<Rightarrow> 64 word \<Rightarrow> size_t \<Rightarrow> mock \<Rightarrow> ptr \<Rightarrow> mock \<Rightarrow> bool" where
  "tracked_realloc p cs aid n w q w' \<longleftrightarrow>
    (if q \<noteq> NULL
     then (q = p \<or> blocks w q = None) \<and> blocks w' = (blocks w)(p := None, q \<mapsto> resized (unat n) cs)
          \<and> errno w' = errno w \<and> tracked w' = (tracked w)(p := None, q \<mapsto> (n, aid))
          \<and> unat n \<le> SSIZE_MAX
     else if n \<noteq> 0
     then blocks w' = blocks w \<and> errno w' = ENOMEM \<and> tracked w' = tracked w
     else blocks w' = (blocks w)(p := None) \<and> errno w' = errno w \<and> tracked w' = (tracked w)(p := None))"

lemma realloc_tracked_spec:
  assumes inv: "mock_inv w" and p: "p \<noteq> NULL" "tracked w p = Some (old, aid)" "blocks w p = Some cs"
  shows "wp False (realloc p n w) (\<lambda>(q, w'). mock_inv w' \<and> tracked_realloc p cs aid n w q w')"
proof -
  have ok: "registry_ok (g_registry w)" using inv by (simp add: mock_inv_def)
  have live: "live_key p" by (rule mock_inv_block [OF inv p(3)])
  obtain v r where rem: "ao_registry_remove_locked p (g_registry w) = Some (v, r)"
    using reg.remov_None [OF live, of "g_registry w"] p(2) by (auto simp: tracked_def)
  note r = reg.remov_Some [OF ok live rem]
  have v: "v = (old, aid)" using r p(2) by (simp add: tracked_def)
  show ?thesis
    using p(1,3)
  proof (cases rule: real_realloc_cases [where n = n])
    case (moved q u)
    note m = mock_more_eq [OF moved(8)]
    have q: "q = p \<or> tracked w q = None" "live_key q" "\<not> in_static (static_base w) q"
        "q = p \<or> blocks w q = None"
      using moved(3) live mock_inv_block [OF inv p(3)] mock_inv_fresh_untracked [OF inv]
      by (auto dest: fresh_blockD fresh_block_live)
    obtain r' where ins: "ao_registry_insert_locked q n aid r = Some r'"
      using reg.insrt_after_remov [OF ok live rem q(2)] by blast
    note r' = reg.insrt_Some [OF conjunct1 [OF r] q(2) ins]
    define x where "x = u\<lparr>g_registry := r'\<rparr>"
    define y where "y = ao_record_realloc False x"
    note y = same_but_callsD [OF record_realloc_calls, of False x, folded y_def]
    have ex: "realloc_exchange p q n aid u = Done x"
      using exchange_eq [of u p v r q n aid r'] inv rem ins moved(2) m
      by (simp add: mock_inv_defs x_def)
    have map: "registry_map r' = (tracked w)(p := None, q \<mapsto> (n, aid))"
      using r r' by (simp add: tracked_def)
    have "mock_inv (ao_live_update old n y)"
      using inv moved(5,6) r' map m y
      by (intro mock_inv_exchange [OF inv p(2) q(1-3), where n = n and cs = "resized (unat n) cs"])
        (simp_all add: live_update_fields x_def, simp add: mock_inv_defs x_def)
    moreover have "tracked (ao_live_update old n y) = (tracked w)(p := None, q \<mapsto> (n, aid))"
      using map y by (simp add: tracked_def live_update_fields x_def)
    moreover have "blocks y = (blocks w)(p := None, q \<mapsto> resized (unat n) cs)" "errno y = errno w"
      using y moved(5,7) by (simp_all add: x_def)
    ultimately show ?thesis
      using moved(1,2,4) ex q(4)
      by (simp add: realloc_tracked_eq [OF inv p(1,2)] y_def [symmetric] live_update_fields Let_def tracked_realloc_def)
  next
    case (failed u)
    have "mock_inv (ao_record_realloc False u)"
      using mock_inv_same_blocks [OF inv failed(6,4,3)] by (simp only: mock_inv_calls(1) [OF record_realloc_calls])
    then show ?thesis
      using failed mock_more_eq [OF failed(6)]
        mock_inv_calls [OF record_failed_calls] mock_inv_calls [OF record_realloc_calls]
        same_but_callsD [OF record_failed_calls] same_but_callsD [OF record_realloc_calls]
      by (simp add: realloc_tracked_eq [OF inv p(1,2)] tracked_realloc_def)
  next
    case (freed u)
    note m = mock_more_eq [OF freed(6)]
    define x where "x = u\<lparr>g_registry := r\<rparr>"
    have ex: "realloc_exchange p NULL n aid u = Done x"
      using exchange_eq [of u p v r NULL n aid] inv rem m by (simp add: mock_inv_defs x_def)
    obtain st where st: "ao_record_realloc False x = x\<lparr>g_stats := st\<rparr>"
        "live_blocks st = live_blocks (g_stats w)" "live_bytes st = live_bytes (g_stats w)"
      using record_realloc_calls [of x False] m by (auto simp: same_but_calls_def x_def)
    have inv_st: "mock_inv (w\<lparr>g_stats := st\<rparr>)"
      using mock_inv_calls(1) [OF same_but_calls_stats [OF st(2,3)]] inv by simp
    have more: "libc.more (ao_live_remove old (x\<lparr>g_stats := st\<rparr>))
        = libc.more (ao_live_remove old (w\<lparr>g_stats := st, g_registry := r\<rparr>))"
      using freed(6) by (cases w; cases u) (simp add: x_def ao_live_remove_def)
    have "mock_inv (ao_live_remove old (x\<lparr>g_stats := st\<rparr>))"
        "tracked (ao_live_remove old (x\<lparr>g_stats := st\<rparr>)) = (tracked (w\<lparr>g_stats := st\<rparr>))(p := None)"
      using mock_inv_drop [OF inv_st live _ more] rem v freed(3,4)
      by (simp_all add: x_def ao_live_remove_def)
    moreover have "tracked (w\<lparr>g_stats := st\<rparr>) = tracked w" by (simp add: tracked_def)
    ultimately show ?thesis
      using freed(1,2,3,5) ex st(1)
      by (simp add: realloc_tracked_eq [OF inv p(1,2)] Let_def tracked_realloc_def)
        (simp add: ao_live_remove_def x_def)
  qed
qed

lemma realloc_NULL_eq:
  assumes "mock_inv w"
  shows "realloc NULL n w =
    (let (p, w) = real_malloc n w
     in if p = NULL then Done (NULL, ao_record_failed_allocation w)
        else obind (ao_track_allocation_or_die p n w) (\<lambda>w. Done (p, ao_record_successful_allocation 2 n w)))"
proof -
  have "\<not> ao_bootstrap_contains NULL w"
    using assms by (simp add: ao_bootstrap_contains_def in_static_def mock_inv_defs)
  moreover have "\<not> g_in_resolver w" using assms by (simp add: mock_inv_defs)
  ultimately show ?thesis
    by (simp add: realloc_def realloc_body_def mock_inv_ensure [OF assms] real_realloc_def Let_def)
qed

lemma realloc_untracked_spec:
  assumes inv: "mock_inv w" and p: "p \<noteq> NULL" "tracked w p = None" "blocks w p = Some cs"
  shows "wp False (realloc p n w) (\<lambda>(q, w'). mock_inv w' \<and> tracked w' = tracked w \<and>
    (if q \<noteq> NULL
     then (q = p \<or> blocks w q = None) \<and> blocks w' = (blocks w)(p := None, q \<mapsto> resized (unat n) cs)
     else blocks w' = (if n = 0 then (blocks w)(p := None) else blocks w)))"
proof -
  define v where "v = ao_record_realloc True w"
  note same = same_but_callsD [OF record_realloc_calls, of True w, folded v_def]
  note calls = mock_inv_calls [OF record_realloc_calls, of True w, folded v_def]
  have live: "live_key p" and nb: "\<not> ao_bootstrap_contains p w"
    using mock_inv_block [OF inv p(3)] by (simp_all add: ao_bootstrap_contains_def)
  have look: "realloc_lookup p w = Done (None, w)"
    using inv p(2) lookup_registry_map [OF live]
    by (cases w) (simp add: realloc_lookup_def mock_inv_defs ao_registry_lock_def
        ao_registry_unlock_def tracked_def)
  have nr: "\<not> g_in_resolver w" using inv by (simp add: mock_inv_defs)
  have eq: "realloc p n w = obind (real_realloc p n v) (\<lambda>(q, w).
      Done (q, if q = NULL \<and> n \<noteq> 0 then ao_record_failed_allocation w else w))"
    using nb nr p(1) look by (simp add: realloc_def realloc_body_def mock_inv_ensure [OF inv] v_def)
  have inv_v: "mock_inv v" and bv: "blocks v p = Some cs" and tv: "tracked v p = None"
    using inv calls same p by simp_all
  show ?thesis
    using p(1) bv
  proof (cases rule: real_realloc_cases [where n = n])
    case (moved q u)
    have q: "live_key q" "\<not> in_static (static_base v) q" "tracked v q = None" "q = p \<or> blocks v q = None"
      using moved(3) live mock_inv_block [OF inv_v bv] tv mock_inv_fresh_untracked [OF inv_v]
      by (auto dest: fresh_blockD fresh_block_live)
    let ?f = "v\<lparr>blocks := (blocks v)(p := None)\<rparr>"
    have f: "mock_inv ?f"
      using tv by (intro mock_inv_free_untracked [OF inv_v, where p = p]) simp_all
    have "mock_inv u"
      using moved(5,6,8) q
      by (intro mock_inv_untracked_block [OF f, where p = q]) (simp_all add: tracked_def)
    then show ?thesis
      using moved(1,2,5) q(4) mock_more_eq [OF moved(8)] calls same by (simp add: eq)
  next
    case (failed u)
    have "mock_inv u" by (rule mock_inv_same_blocks [OF inv_v failed(6,4,3)])
    then show ?thesis
      using failed(1,2,3) mock_more_eq [OF failed(6)] calls same
        mock_inv_calls [OF record_failed_calls, of u] same_but_callsD [OF record_failed_calls, of u]
      by (simp add: eq)
  next
    case (freed u)
    have "mock_inv u"
      by (rule mock_inv_free_untracked [OF inv_v freed(6,4,3) tv])
    then show ?thesis
      unfolding eq using freed(1,2,3) mock_more_eq [OF freed(6)] calls same by simp
  qed
qed

section \<open>The mock allocator is an allocator\<close>

lemma tracked_realloc_result:
  assumes inv: "mock_inv w" and n: "n \<noteq> 0" and t: "tracked w p = Some (old, aid)"
    and res: "tracked_realloc p cs aid n w q w'"
  shows "realloc_result mock_owns mock_room p cs n w q w'"
proof (cases "q = NULL")
  case True
  with res n have "tracked w' = tracked w" by (simp add: tracked_realloc_def)
  with True res n show ?thesis
    using mock_owns_cong [of w' w] by (simp add: realloc_result_def mock_room_def tracked_realloc_def)
next
  case False
  with res have t': "tracked w' = (tracked w)(p := None, q \<mapsto> (n, aid))"
    by (simp add: tracked_realloc_def)
  have "card (dom (tracked w')) \<le> Suc (card (dom ((tracked w)(p := None))))"
    unfolding t' using card_insert_if [of "dom ((tracked w)(p := None))" q] mock_inv_finite [OF inv]
    by auto
  also have "\<dots> = card (dom (tracked w))"
    by (rule card_dom_remove [OF mock_inv_finite [OF inv] t])
  finally have "mock_room w \<le> mock_room w'"
    by (simp add: mock_room_def diff_le_mono2)
  moreover have "mock_owns w' = (mock_owns w)(p := False, q := True)"
    by (intro ext) (simp add: mock_owns_def t')
  ultimately show ?thesis
    using False res by (simp add: realloc_result_def tracked_realloc_def)
qed

text \<open>Programs write into objects without changing their size.\<close>

lemma mock_inv_store:
  assumes "mock_inv w" "blocks w p = Some cs" "length cs' = length cs"
  shows "mock_inv (w\<lparr>blocks := (blocks w)(p \<mapsto> cs')\<rparr>)"
proof -
  let ?u = "w\<lparr>blocks := (blocks w)(p \<mapsto> cs')\<rparr>"
  have t: "tracked ?u = tracked w" by (simp add: tracked_def)
  have "tracking_ok ?u"
    unfolding tracking_ok_def t using mock_inv_tracked_live(2) [OF assms(1)] assms(2,3)
    by (auto split: if_splits) fastforce+
  with assms(1,2) t show ?thesis
    by (auto simp: mock_inv_def heap_ok_def mock_ready_def live_ok_def)
qed

lemma mock_inv_store_iff:
  assumes "blocks w p = Some cs" "length cs' = length cs"
  shows "mock_inv (w\<lparr>blocks := (blocks w)(p \<mapsto> cs')\<rparr>) = mock_inv w"
proof
  let ?u = "w\<lparr>blocks := (blocks w)(p \<mapsto> cs')\<rparr>"
  assume "mock_inv ?u"
  then have "mock_inv (?u\<lparr>blocks := (blocks ?u)(p \<mapsto> cs)\<rparr>)"
    by (rule mock_inv_store [of ?u p cs' cs]) (simp_all add: assms(2))
  moreover have "(blocks w)(p \<mapsto> cs) = blocks w" using assms(1) by auto
  ultimately show "mock_inv w" by simp
next
  assume "mock_inv w"
  then show "mock_inv (w\<lparr>blocks := (blocks w)(p \<mapsto> cs')\<rparr>)"
    by (rule mock_inv_store [OF _ assms])
qed

lemma mock_inv_errno: "mock_inv (w\<lparr>errno := e\<rparr>) = mock_inv w"
  by (simp add: mock_inv_defs tracked_def)

text \<open>The mock keeps the contract of \<open>c_allocator\<close>; the theory \<open>Preload\<close> interprets the locale by it.\<close>

lemma mock_keeps_contract: "c_allocator malloc realloc free mock_inv mock_owns mock_room"
proof unfold_locales
  fix w :: mock and n p cs
  assume inv: "mock_inv w"
  show "wp (mock_room w = 0) (malloc n w)
      (\<lambda>(p, w'). mock_inv w' \<and> malloc_result mock_owns mock_room n w p w')"
    using malloc_spec [OF inv, of n] by (rule wp_conseq) auto
  show "wp (mock_room w = 0) (realloc NULL n w)
      (\<lambda>(p, w'). mock_inv w' \<and> malloc_result mock_owns mock_room n w p w')"
    unfolding realloc_NULL_eq [OF inv]
    using system_malloc_tracked [OF inv, of n 2] by (rule wp_conseq) auto
  show "wp False (realloc p n w)
      (\<lambda>(q, w'). mock_inv w' \<and> realloc_result mock_owns mock_room p cs n w q w')"
    if n: "n \<noteq> 0" and own: "mock_owns w p" and p: "p \<noteq> NULL" "blocks w p = Some cs"
  proof -
    obtain old aid where t: "tracked w p = Some (old, aid)"
      using own by (auto simp: mock_owns_def)
    show ?thesis
      using realloc_tracked_spec [OF inv p(1) t p(2), of n] tracked_realloc_result [OF inv n t]
      by (auto elim: wp_conseq)
  qed
  show "wp False (free p w) (\<lambda>w'. mock_inv w' \<and> blocks w' = (blocks w)(p := None)
      \<and> errno w' = errno w \<and> mock_owns w' = (mock_owns w)(p := False) \<and> mock_room w \<le> mock_room w')"
    if "mock_owns w p" "p \<noteq> NULL" "blocks w p = Some cs"
    using free_spec [OF inv that(2,3)] by (rule wp_conseq) (auto simp: mock_owns_drop mock_room_drop [OF inv])
  show "blocks w NULL = None"
    using inv by (cases "blocks w NULL") (auto simp: mock_inv_defs live_key_def AO_REGISTRY_EMPTY_def)
  show "blocks w p \<noteq> None" if "mock_owns w p"
  proof -
    from that obtain sz aid where "tracked w p = Some (sz, aid)" by (auto simp: mock_owns_def)
    with inv show ?thesis by (fastforce simp: mock_inv_def tracking_ok_def)
  qed
  show "mock_room w \<le> Suc (mock_room w')"
    if "mock_inv w'" and sub: "\<And>p. mock_owns w' p \<Longrightarrow> p = q \<or> mock_owns w p" for w' q
  proof -
    have "dom (tracked w') \<subseteq> insert q (dom (tracked w))" using sub by (auto simp: mock_owns_def)
    then have "card (dom (tracked w')) \<le> card (insert q (dom (tracked w)))"
      using mock_inv_finite [OF inv] by (intro card_mono) simp_all
    also have "\<dots> \<le> Suc (card (dom (tracked w)))"
      using mock_inv_finite [OF inv] by (simp add: card_insert_if)
    finally show ?thesis by (simp add: mock_room_def)
  qed
next
  show "free NULL w = Done w" for w by (simp add: free_def free_body_def)
  show "mock_inv (w\<lparr>blocks := (blocks w)(p \<mapsto> cs')\<rparr>) = mock_inv w
      \<and> mock_owns (w\<lparr>blocks := (blocks w)(p \<mapsto> cs')\<rparr>) = mock_owns w
      \<and> mock_room (w\<lparr>blocks := (blocks w)(p \<mapsto> cs')\<rparr>) = mock_room w"
    if "blocks w p = Some cs" "length cs' = length cs" for w p cs cs'
    using mock_inv_store_iff [OF that] by (auto simp: mock_owns_def mock_room_def tracked_def)
  show "mock_inv (w\<lparr>errno := e\<rparr>) = mock_inv w \<and> mock_owns (w\<lparr>errno := e\<rparr>) = mock_owns w
      \<and> mock_room (w\<lparr>errno := e\<rparr>) = mock_room w" for w e
    using mock_inv_errno by (auto simp: mock_owns_def mock_room_def tracked_def)
qed

end
