(* ===== verification/Mock_Runs.thy ===== *)
theory Mock_Runs
  imports Mock_Allocator
begin

text \<open>
  Whole runs of the mock allocator: the state the loader starts it in, the resolution of the
  real functions at the first call, and every sequence of calls after that, as a step relation
  whose reachable states all satisfy the invariant.
\<close>

section \<open>Initialisation\<close>

text \<open>The state of the library when it is loaded: statics as initialised in the source.\<close>

definition mock_loaded :: "mock \<Rightarrow> bool" where
  "mock_loaded w \<longleftrightarrow>
     g_registry w = empty_registry \<and> \<not> g_registry_lock w \<and> g_stats w = zero_stats
     \<and> g_capture_depth w = 0 \<and> g_next_allocation_id w = 1
     \<and> g_bootstrap_heap w = (\<lambda>_. 0) \<and> g_bootstrap_offset w = 0
     \<and> \<not> g_in_resolver w \<and> g_resolve_once w = Once_init \<and> dlsym_given w = []
     \<and> \<not> g_real_malloc w \<and> \<not> g_real_calloc w \<and> \<not> g_real_realloc w \<and> \<not> g_real_free w
     \<and> heap_ok w \<and> boot_ok w"

definition resolver_names :: "string list" where
  "resolver_names = [''malloc'', ''calloc'', ''realloc'', ''free'']"

text \<open>
  What is relied on of \<open>dlsym\<close>: it asks for objects whose size with the 48 bytes of the header, rounded up, is a
  \<open>size_t\<close>, which holds for every object C allows (up to \<open>PTRDIFF_MAX\<close> bytes); and a pointer it passes to \<open>realloc\<close> is
  null, one it was given, or one from elsewhere, but not an address made up inside the bootstrap heap.
\<close>

definition dl_size_ok :: "nat \<Rightarrow> bool" where
  "dl_size_ok n \<longleftrightarrow> n + 79 < 2 ^ 64"

fun dl_ok :: "ptr \<Rightarrow> ptr list \<Rightarrow> dl_call \<Rightarrow> bool" where
  "dl_ok base given (DL_malloc n) \<longleftrightarrow> dl_size_ok (unat n)"
| "dl_ok base given (DL_calloc m n) \<longleftrightarrow> dl_size_ok (unat m * unat n)"
| "dl_ok base given (DL_realloc p n) \<longleftrightarrow> dl_size_ok (unat n) \<and> (p = NULL \<or> p \<in> set given) \<or> p \<noteq> NULL \<and> \<not> in_static base p"
| "dl_ok base given (DL_free p) \<longleftrightarrow> True"

definition dlsym_contract :: "mock \<Rightarrow> bool" where
  "dlsym_contract w \<longleftrightarrow>
     (\<forall>name \<in> set resolver_names. \<forall>c \<in> set (dlsym_calls w name). \<forall>given. dl_ok (static_base w) given (c given))"

text \<open>Every pointer the loader was given is a bootstrap block.\<close>

definition given_ok :: "mock \<Rightarrow> bool" where
  "given_ok w \<longleftrightarrow> (\<forall>p \<in> set (dlsym_given w). p \<noteq> NULL \<longrightarrow> (\<exists>n. boot_block p n w))"

text \<open>Resolution changes the bootstrap heap, \<open>errno\<close> and its own pointers only.\<close>

definition boot_only :: "mock \<Rightarrow> mock \<Rightarrow> bool" where
  "boot_only w w' \<longleftrightarrow>
     w' = w\<lparr>errno := errno w', g_bootstrap_offset := g_bootstrap_offset w',
            g_bootstrap_heap := g_bootstrap_heap w', dlsym_given := dlsym_given w'\<rparr>"

lemma boot_only_refl: "boot_only w w"
  by (simp add: boot_only_def)

lemma boot_only_trans: "boot_only u v \<Longrightarrow> boot_only v w \<Longrightarrow> boot_only u w"
  by (cases u; cases v; cases w) (simp add: boot_only_def)

lemma boot_onlyI [intro]:
  "boot_only w (w\<lparr>errno := e\<rparr>)"
  "boot_only w (w\<lparr>g_bootstrap_offset := off, g_bootstrap_heap := h\<rparr>)"
  "boot_only w (w\<lparr>g_bootstrap_heap := h\<rparr>)"
  "boot_only w (w\<lparr>dlsym_given := ps\<rparr>)"
  by (cases w; simp add: boot_only_def)+

lemma boot_onlyD:
  assumes "boot_only w w'"
  shows "blocks w' = blocks w" "static_base w' = static_base w" "g_registry w' = g_registry w"
    "g_registry_lock w' = g_registry_lock w" "g_stats w' = g_stats w"
    "g_in_resolver w' = g_in_resolver w" "g_resolve_once w' = g_resolve_once w"
    "g_real_malloc w' = g_real_malloc w" "g_real_calloc w' = g_real_calloc w"
    "g_real_realloc w' = g_real_realloc w" "g_real_free w' = g_real_free w"
    "dlsym_found w' = dlsym_found w" "dlsym_calls w' = dlsym_calls w"
    "g_capture_depth w' = g_capture_depth w" "g_next_allocation_id w' = g_next_allocation_id w"
  by (subst assms [unfolded boot_only_def], simp)+

lemma boot_ok_errno: "boot_ok (w\<lparr>errno := e\<rparr>) = boot_ok w"
  by (simp add: boot_ok_def)

text \<open>A step of the loader on the bootstrap heap: what is below the old offset stays as it is.\<close>

definition boot_grows :: "mock \<Rightarrow> mock \<Rightarrow> bool" where
  "boot_grows w w' \<longleftrightarrow> boot_ok w' \<and> boot_only w w' \<and> unat (g_bootstrap_offset w) \<le> unat (g_bootstrap_offset w')
     \<and> (\<forall>i < unat (g_bootstrap_offset w). g_bootstrap_heap w' i = g_bootstrap_heap w i)"

lemma boot_grows_errno: "boot_ok w \<Longrightarrow> boot_grows w (w\<lparr>errno := e\<rparr>)"
  by (simp add: boot_grows_def boot_ok_errno boot_onlyI)

lemma boot_block_grows: "boot_block p n w \<Longrightarrow> boot_grows w w' \<Longrightarrow> boot_block p n w'"
proof -
  assume p: "boot_block p n w" and g: "boot_grows w w'"
  have sb: "static_base w' = static_base w" using g by (simp add: boot_grows_def boot_onlyD(2))
  have h: "get64 (g_bootstrap_heap w') (boot_offset p w - 48) = get64 (g_bootstrap_heap w) (boot_offset p w - 48)"
    using p g by (intro get64_cong) (auto simp: boot_block_def boot_grows_def)
  show "boot_block p n w'"
    using p g h by (auto simp: boot_block_def boot_grows_def ao_bootstrap_contains_def boot_offset_def sb)
qed

text \<open>The three allocating calls as the resolver's thread makes them.\<close>

definition boot_result :: "mock \<Rightarrow> ptr \<Rightarrow> mock \<Rightarrow> bool" where
  "boot_result w p w' \<longleftrightarrow> boot_grows w w' \<and> dlsym_given w' = dlsym_given w \<and> (p \<noteq> NULL \<longrightarrow> (\<exists>n. boot_block p n w'))"

lemma boot_alloc_result:
  assumes "boot_ok w" "dl_size_ok (unat n)"
  shows "wp False (ao_bootstrap_alloc n w) (\<lambda>(p, w'). boot_result w p w'
     \<and> (p \<noteq> NULL \<longrightarrow> boot_block p n w' \<and> boot_offset p w' = unat (g_bootstrap_offset w) + 48))"
proof -
  have n: "unat n + 79 < 2 ^ 64" using assms(2) by (simp add: dl_size_ok_def)
  show ?thesis
  proof (cases "unat (g_bootstrap_offset w) + boot_total n \<le> 65536")
    case True
    then obtain p w' where r: "ao_bootstrap_alloc n w = Done (p, w')" "boot_ok w'" "boot_block p n w'"
        "boot_offset p w' = unat (g_bootstrap_offset w) + 48"
        "unat (g_bootstrap_offset w') = unat (g_bootstrap_offset w) + boot_total n"
        "\<forall>i<unat (g_bootstrap_offset w). g_bootstrap_heap w' i = g_bootstrap_heap w i"
      using boot_alloc_block [OF assms(1) n True] by blast
    from r(1) True have "\<exists>off h. w' = w\<lparr>g_bootstrap_offset := off, g_bootstrap_heap := h\<rparr>"
      unfolding boot_alloc_eq [OF assms(1) n] by (simp del: of_nat_add) blast
    then have "boot_only w w'" "dlsym_given w' = dlsym_given w" by auto
    with r show ?thesis by (auto simp: boot_result_def boot_grows_def)
  next
    case False
    then show ?thesis
      using boot_alloc_eq [OF assms(1) n] boot_grows_errno [OF assms(1)] by (simp add: boot_result_def)
  qed
qed

text \<open>Bytes written into the newest block keep everything below it.\<close>

lemma boot_result_store:
  assumes u: "boot_result w p u" "boot_block p n u" "boot_offset p u = unat (g_bootstrap_offset w) + 48"
    and h: "\<And>i. i < boot_offset p u \<Longrightarrow> h i = g_bootstrap_heap u i"
  shows "boot_result w p (u\<lparr>g_bootstrap_heap := h\<rparr>)"
proof -
  let ?u = "u\<lparr>g_bootstrap_heap := h\<rparr>"
  have "boot_grows w ?u"
    using u(1,3) h boot_only_trans [OF _ boot_onlyI(3)] by (auto simp: boot_result_def boot_grows_def boot_ok_def)
  moreover have "get64 h (boot_offset p u - 48) = get64 (g_bootstrap_heap u) (boot_offset p u - 48)"
    using u(2) h by (intro get64_cong) (auto simp: boot_block_def)
  then have "boot_block p n ?u" using u(2) by (simp add: boot_block_def ao_bootstrap_contains_def boot_offset_def)
  ultimately show ?thesis using u(1) by (auto simp: boot_result_def)
qed

lemma resolver_calloc_result:
  assumes ok: "boot_ok w" and n: "dl_size_ok (unat m * unat n)"
  shows "wp False (resolver_calloc m n w) (\<lambda>(p, w'). boot_result w p w')"
proof -
  have mn: "dl_size_ok (unat (m * n))" using n by (simp add: unat_word_ariths dl_size_ok_def)
  show ?thesis
    unfolding resolver_calloc_def Let_def
  proof (rule wp_bindI [OF boot_alloc_result [OF ok mn]])
    fix x assume x: "case x of (p, u) \<Rightarrow> boot_result w p u \<and>
       (p \<noteq> NULL \<longrightarrow> boot_block p (m * n) u \<and> boot_offset p u = unat (g_bootstrap_offset w) + 48)"
    obtain p u where [simp]: "x = (p, u)" by (cases x)
    show "wp False (case x of (p, w) \<Rightarrow> if p = NULL then Done (NULL, w)
        else if 65536 < boot_offset p w + unat (m * n) then Undef
        else Done (p, w\<lparr>g_bootstrap_heap := fill_bytes (g_bootstrap_heap w) (boot_offset p w) (unat (m * n)) 0\<rparr>))
      (\<lambda>(p, w'). boot_result w p w')"
    proof (cases "p = NULL")
      case True
      with x show ?thesis by simp
    next
      case False
      with x have u: "boot_result w p u" "boot_block p (m * n) u" "boot_offset p u = unat (g_bootstrap_offset w) + 48" by simp_all
      then have "boot_offset p u + unat (m * n) \<le> 65536" by (simp add: boot_result_def boot_block_def boot_grows_def boot_ok_def)
      with False boot_result_store [OF u] show ?thesis by (simp add: fill_bytes_def)
    qed
  qed
qed

lemma boot_realloc_result:
  assumes ok: "boot_ok w" and p: "p \<noteq> NULL" "boot_block p old w" and n: "dl_size_ok (unat n)"
  shows "wp False (ao_bootstrap_realloc p n w) (\<lambda>(q, w'). boot_result w q w')"
proof -
  have c: "ao_bootstrap_contains p w" using p(2) by (simp add: boot_block_def)
  have eq: "ao_bootstrap_realloc p n w = obind (ao_bootstrap_alloc n w) (\<lambda>(q, w).
        if q = NULL then Done (NULL, w)
        else if boot_offset p w < 48 then Undef
        else let old = get64 (g_bootstrap_heap w) (boot_offset p w - 48);
                 copy_size = if old < n then old else n
             in if copy_size = 0 then Done (q, w)
                else if 65536 < boot_offset p w + unat copy_size \<or> 65536 < boot_offset q w + unat copy_size then Undef
                else Done (q, w\<lparr>g_bootstrap_heap :=
                       copy_bytes (g_bootstrap_heap w) (boot_offset q w) (boot_offset p w) (unat copy_size)\<rparr>))"
    using p(1) c by (simp add: ao_bootstrap_realloc_def)
  show ?thesis
    unfolding eq
  proof (rule wp_bindI [OF boot_alloc_result [OF ok n]])
    fix x assume x: "case x of (p, u) \<Rightarrow> boot_result w p u \<and>
       (p \<noteq> NULL \<longrightarrow> boot_block p n u \<and> boot_offset p u = unat (g_bootstrap_offset w) + 48)"
    obtain q u where [simp]: "x = (q, u)" by (cases x)
    show "wp False (case x of (q, w) \<Rightarrow>
        if q = NULL then Done (NULL, w)
        else if boot_offset p w < 48 then Undef
        else let old = get64 (g_bootstrap_heap w) (boot_offset p w - 48);
                 copy_size = if old < n then old else n
             in if copy_size = 0 then Done (q, w)
                else if 65536 < boot_offset p w + unat copy_size \<or> 65536 < boot_offset q w + unat copy_size then Undef
                else Done (q, w\<lparr>g_bootstrap_heap :=
                       copy_bytes (g_bootstrap_heap w) (boot_offset q w) (boot_offset p w) (unat copy_size)\<rparr>))
      (\<lambda>(q, w'). boot_result w q w')"
    proof (cases "q = NULL")
      case True
      with x show ?thesis by simp
    next
      case False
      with x have u: "boot_result w q u" "boot_block q n u" "boot_offset q u = unat (g_bootstrap_offset w) + 48" by simp_all
      then have pu: "boot_block p old u" using boot_block_grows [OF p(2)] by (simp add: boot_result_def)
      let ?k = "if old < n then old else n"
      have k: "unat ?k \<le> unat old" "unat ?k \<le> unat n" by (auto simp: word_less_nat_alt)
      have "unat (g_bootstrap_offset u) \<le> 65536" using u(1) by (simp add: boot_result_def boot_grows_def boot_ok_def)
      then have "boot_offset p u + unat ?k \<le> 65536" "boot_offset q u + unat ?k \<le> 65536"
        using pu u(2) k by (simp_all add: boot_block_def)
      moreover have "get64 (g_bootstrap_heap u) (boot_offset p u - 48) = old" "48 \<le> boot_offset p u"
        using pu by (simp_all add: boot_block_def)
      moreover have "boot_result w q (u\<lparr>g_bootstrap_heap := copy_bytes (g_bootstrap_heap u) (boot_offset q u) (boot_offset p u) k\<rparr>)" for k
        by (rule boot_result_store [OF u]) (simp add: copy_bytes_def)
      ultimately show ?thesis using False u(1) by (auto simp: Let_def not_less)
    qed
  qed
qed

text \<open>Inside the resolver every call of the loader takes the first branch, so the nested \<open>ensure\<close> is never reached.\<close>

lemma boot_result_given:
  assumes "given_ok w" "boot_result w p w'"
  shows "boot_grows w (w'\<lparr>dlsym_given := p # dlsym_given w'\<rparr>) \<and> given_ok (w'\<lparr>dlsym_given := p # dlsym_given w'\<rparr>)"
proof -
  let ?w = "w'\<lparr>dlsym_given := p # dlsym_given w'\<rparr>"
  have g: "boot_grows w ?w"
    using assms(2) boot_only_trans [OF _ boot_onlyI(4)] by (auto simp: boot_result_def boot_grows_def boot_ok_def)
  moreover have same: "boot_block q n ?w = boot_block q n w'" for q n
    by (simp add: boot_block_def ao_bootstrap_contains_def boot_offset_def)
  have "boot_block q n w \<Longrightarrow> boot_block q n w'" for q n
    using assms(2) boot_block_grows by (simp add: boot_result_def)
  then show ?thesis
    using assms g same unfolding given_ok_def boot_result_def by (simp del: ex_simps) metis
qed

lemma dl_call_result:
  assumes ok: "boot_ok w" "given_ok w" "g_in_resolver w" and c: "dl_ok (static_base w) (dlsym_given w) c"
  shows "wp False (dl_call ensure c w) (\<lambda>w'. boot_grows w w' \<and> given_ok w')"
proof -
  have push: "wp False (obind m (\<lambda>(p, w). Done (w\<lparr>dlsym_given := p # dlsym_given w\<rparr>))) (\<lambda>w'. boot_grows w w' \<and> given_ok w')"
    if "wp False m (\<lambda>(p, w'). boot_result w p w')" for m
    using that by (rule wp_bindI) (auto simp: boot_result_given [OF ok(2)])
  show ?thesis
  proof (cases c)
    case (DL_malloc n)
    then have "wp False (ao_bootstrap_alloc n w) (\<lambda>(p, w'). boot_result w p w')"
      using boot_alloc_result [OF ok(1), of n] c by (auto elim: wp_conseq)
    from push [OF this] DL_malloc ok(3) show ?thesis by (simp add: malloc_body_def)
  next
    case (DL_calloc m n)
    with push [OF resolver_calloc_result [OF ok(1), of m n]] c ok(3) show ?thesis by (simp add: calloc_body_def)
  next
    case (DL_realloc p n)
    have "wp False (ao_bootstrap_realloc p n w) (\<lambda>(q, w'). boot_result w q w')"
    proof (cases "p \<noteq> NULL \<and> \<not> in_static (static_base w) p")
      case True
      then show ?thesis
        using boot_grows_errno [OF ok(1)] by (simp add: ao_bootstrap_realloc_def ao_bootstrap_contains_def boot_result_def)
    next
      case False
      then have n: "dl_size_ok (unat n)" "p = NULL \<or> p \<in> set (dlsym_given w)" using c DL_realloc by auto
      show ?thesis
      proof (cases "p = NULL")
        case True
        then show ?thesis using boot_alloc_result [OF ok(1) n(1)] by (auto simp: ao_bootstrap_realloc_def elim: wp_conseq)
      next
        case False
        with n(2) ok(2) obtain old where "boot_block p old w" unfolding given_ok_def by blast
        from boot_realloc_result [OF ok(1) False this n(1)] show ?thesis .
      qed
    qed
    from push [OF this] DL_realloc ok(3) show ?thesis by (simp add: realloc_body_def)
  next
    case (DL_free p)
    have "boot_grows w w" using ok(1) by (simp add: boot_grows_def boot_only_refl)
    with DL_free ok show ?thesis by (simp add: free_body_def)
  qed
qed

lemma boot_grows_trans: "boot_grows u v \<Longrightarrow> boot_grows v w \<Longrightarrow> boot_grows u w"
  using boot_only_trans [of u v w] by (auto simp: boot_grows_def)

lemma dl_calls_result:
  assumes "boot_ok w" "given_ok w" "g_in_resolver w" "\<forall>c \<in> set cs. \<forall>given. dl_ok (static_base w) given (c given)"
  shows "wp False (dl_calls ensure cs w) (\<lambda>w'. boot_grows w w' \<and> given_ok w')"
  using assms
proof (induction cs arbitrary: w)
  case Nil
  then show ?case by (simp add: boot_grows_def boot_only_refl)
next
  case (Cons c cs)
  have "wp False (dl_call ensure (c (dlsym_given w)) w) (\<lambda>u. boot_grows w u \<and> given_ok u)"
    using Cons.prems by (intro dl_call_result) simp_all
  then show ?case
    unfolding dl_calls.simps
  proof (rule wp_bindI)
    fix u assume u: "boot_grows w u \<and> given_ok u"
    then have f: "static_base u = static_base w" "g_in_resolver u" "boot_ok u"
      using boot_onlyD(2,6) [of w u] Cons.prems(3) by (simp_all add: boot_grows_def)
    with Cons.IH [of u] Cons.prems(4) u show "wp False (dl_calls ensure cs u) (\<lambda>w'. boot_grows w w' \<and> given_ok w')"
      by (auto elim!: wp_conseq intro: boot_grows_trans)
  qed simp
qed

lemma dlsym_result:
  assumes "boot_ok w" "given_ok w" "g_in_resolver w" "dlsym_contract w" "name \<in> set resolver_names"
  shows "\<exists>w'. dlsym ensure name w = Done (dlsym_found w name, w') \<and> boot_grows w w' \<and> given_ok w'"
proof -
  have "\<forall>c \<in> set (dlsym_calls w name). \<forall>given. dl_ok (static_base w) given (c given)"
    using assms(4,5) by (auto simp: dlsym_contract_def)
  then obtain w' where "dl_calls ensure (dlsym_calls w name) w = Done w'" "boot_grows w w'" "given_ok w'"
    using wp_Done_cases [OF dl_calls_result [OF assms(1-3), of _ ensure]] by blast
  then show ?thesis by (simp add: dlsym_def)
qed

text \<open>Were the flag not set, a call of the loader would wait for \<open>pthread_once\<close> for ever.\<close>

lemma unguarded_calls_spin:
  assumes "g_resolve_once w = Once_running" "\<not> g_in_resolver w"
  shows "malloc_body nested_ensure n w = Spin" "calloc_body nested_ensure 1 n w = Spin"
    "\<not> ao_bootstrap_contains p w \<Longrightarrow> realloc_body nested_ensure p n w = Spin"
    "p \<noteq> NULL \<Longrightarrow> \<not> ao_bootstrap_contains p w \<Longrightarrow> free_body nested_ensure p w = Spin"
  using assms calloc_guard [of 1 n]
  by (simp_all add: malloc_body_def calloc_body_def realloc_body_def free_body_def nested_ensure_def pthread_once_def Let_def)

text \<open>What resolution leaves: the statics of the loaded library with the real functions known.\<close>

definition resolved_from :: "mock \<Rightarrow> mock \<Rightarrow> bool" where
  "resolved_from w w' \<longleftrightarrow>
     blocks w' = blocks w \<and> static_base w' = static_base w \<and> g_registry w' = g_registry w
     \<and> g_registry_lock w' = g_registry_lock w \<and> g_stats w' = g_stats w
     \<and> g_next_allocation_id w' = g_next_allocation_id w \<and> g_capture_depth w' = g_capture_depth w
     \<and> \<not> g_in_resolver w' \<and> g_real_malloc w' \<and> g_real_calloc w' \<and> g_real_realloc w' \<and> g_real_free w'"

lemma boot_ok_flags [simp]:
  "boot_ok (w\<lparr>g_in_resolver := b\<rparr>) = boot_ok w" "boot_ok (w\<lparr>g_real_malloc := b\<rparr>) = boot_ok w"
  "boot_ok (w\<lparr>g_real_calloc := b\<rparr>) = boot_ok w" "boot_ok (w\<lparr>g_real_realloc := b\<rparr>) = boot_ok w"
  "boot_ok (w\<lparr>g_real_free := b\<rparr>) = boot_ok w"
  by (simp_all add: boot_ok_def)

text \<open>The state between two calls of \<open>dlsym\<close>.\<close>

definition loading :: "mock \<Rightarrow> bool" where
  "loading w \<longleftrightarrow> boot_ok w \<and> given_ok w \<and> g_in_resolver w \<and> dlsym_contract w"

lemma loading_flags [simp]:
  "loading (w\<lparr>g_real_malloc := b\<rparr>) = loading w" "loading (w\<lparr>g_real_calloc := b\<rparr>) = loading w"
  "loading (w\<lparr>g_real_realloc := b\<rparr>) = loading w" "loading (w\<lparr>g_real_free := b\<rparr>) = loading w"
  by (simp_all add: loading_def given_ok_def boot_block_def ao_bootstrap_contains_def boot_offset_def dlsym_contract_def)

lemma dlsym_loading:
  assumes "loading w" "name \<in> set resolver_names"
  shows "\<exists>w'. dlsym ensure name w = Done (dlsym_found w name, w') \<and> loading w' \<and> boot_only w w'"
proof -
  obtain w' where w': "dlsym ensure name w = Done (dlsym_found w name, w')" "boot_grows w w'" "given_ok w'"
    using dlsym_result [of w name ensure] assms by (auto simp: loading_def)
  then have "boot_only w w'" "loading w'"
    using assms(1) boot_onlyD [of w w'] by (simp_all add: boot_grows_def loading_def dlsym_contract_def)
  with w'(1) show ?thesis by blast
qed

lemma resolve_spec:
  assumes ok: "boot_ok w" "given_ok w" and dl: "dlsym_contract w"
  shows "if \<forall>name \<in> set resolver_names. dlsym_found w name
         then \<exists>w'. ao_resolve_real_functions w = Done w' \<and> resolved_from w w'
         else ao_resolve_real_functions w = Exit 127"
proof -
  let ?w0 = "w\<lparr>g_in_resolver := True\<rparr>"
  have 0: "loading ?w0"
    using ok dl by (simp add: loading_def given_ok_def boot_block_def ao_bootstrap_contains_def boot_offset_def dlsym_contract_def)
  have names: "''malloc'' \<in> set resolver_names" "''calloc'' \<in> set resolver_names" "''realloc'' \<in> set resolver_names"
      "''free'' \<in> set resolver_names"
    by (simp_all add: resolver_names_def)
  obtain w1 where 1: "dlsym nested_ensure ''malloc'' ?w0 = Done (dlsym_found w ''malloc'', w1)" "loading w1" "boot_only ?w0 w1"
    using dlsym_loading [OF 0 names(1), of nested_ensure] by auto
  note f1 = boot_onlyD [OF 1(3)]
  let ?w1 = "w1\<lparr>g_real_malloc := dlsym_found w ''malloc''\<rparr>"
  obtain w2 where 2: "dlsym nested_ensure ''calloc'' ?w1 = Done (dlsym_found w ''calloc'', w2)" "loading w2" "boot_only ?w1 w2"
    using dlsym_loading [of ?w1, OF _ names(2), of nested_ensure] 1(2) by (auto simp: f1)
  note f2 = boot_onlyD [OF 2(3)]
  let ?w2 = "w2\<lparr>g_real_calloc := dlsym_found w ''calloc''\<rparr>"
  obtain w3 where 3: "dlsym nested_ensure ''realloc'' ?w2 = Done (dlsym_found w ''realloc'', w3)" "loading w3" "boot_only ?w2 w3"
    using dlsym_loading [of ?w2, OF _ names(3), of nested_ensure] 2(2) by (auto simp: f1 f2)
  note f3 = boot_onlyD [OF 3(3)]
  let ?w3 = "w3\<lparr>g_real_realloc := dlsym_found w ''realloc''\<rparr>"
  obtain w4 where 4: "dlsym nested_ensure ''free'' ?w3 = Done (dlsym_found w ''free'', w4)" "boot_only ?w3 w4"
    using dlsym_loading [of ?w3, OF _ names(4), of nested_ensure] 3(2) by (auto simp: f1 f2 f3)
  note f4 = boot_onlyD [OF 4(2)]
  define x where "x = w4\<lparr>g_real_free := dlsym_found w ''free'', g_in_resolver := False\<rparr>"
  have flags: "g_real_malloc x = dlsym_found w ''malloc''" "g_real_calloc x = dlsym_found w ''calloc''"
      "g_real_realloc x = dlsym_found w ''realloc''" "g_real_free x = dlsym_found w ''free''"
    by (simp_all add: x_def f2 f3 f4)
  have eq: "ao_resolve_real_functions w =
      (if \<forall>name \<in> set resolver_names. dlsym_found w name then Done x else Exit 127)"
    by (auto simp: ao_resolve_real_functions_def 1(1) 2(1) 3(1) 4(1) x_def f2 f3 f4
        ao_fatal_def resolver_names_def)
  have "resolved_from w x" if "\<forall>name \<in> set resolver_names. dlsym_found w name"
    using that flags by (simp add: resolved_from_def resolver_names_def) (simp add: x_def f1 f2 f3 f4)
  then show ?thesis by (simp add: eq)
qed

text \<open>From the start of \<open>pthread_once\<close>.\<close>

lemma once_spec:
  assumes "boot_ok w" "given_ok w" "dlsym_contract w" "g_resolve_once w = Once_init"
  shows "if \<forall>name \<in> set resolver_names. dlsym_found w name
         then \<exists>u. ao_ensure_real_functions w = Done (u\<lparr>g_resolve_once := Once_done\<rparr>) \<and> resolved_from w u
         else ao_ensure_real_functions w = Exit 127"
proof -
  let ?w = "w\<lparr>g_resolve_once := Once_running\<rparr>"
  have e: "ao_ensure_real_functions w = obind (ao_resolve_real_functions ?w) (\<lambda>w. Done (w\<lparr>g_resolve_once := Once_done\<rparr>))"
    using assms(4) by (simp add: ao_ensure_real_functions_def pthread_once_def)
  have "boot_ok ?w" "given_ok ?w" "dlsym_contract ?w"
    using assms by (simp_all add: boot_ok_def given_ok_def boot_block_def ao_bootstrap_contains_def boot_offset_def dlsym_contract_def)
  from resolve_spec [OF this] show ?thesis unfolding e by (auto simp: resolved_from_def split: if_splits)
qed

text \<open>The first call of any entry point establishes the invariant with an empty registry.\<close>

lemma ensure_spec:
  assumes loaded: "mock_loaded w" and dl: "dlsym_contract w"
    and found: "\<forall>name \<in> set resolver_names. dlsym_found w name"
  shows "\<exists>w'. ao_ensure_real_functions w = Done w' \<and> mock_inv w' \<and> tracked w' = (\<lambda>_. None)
     \<and> blocks w' = blocks w"
proof -
  obtain u where u: "ao_ensure_real_functions w = Done (u\<lparr>g_resolve_once := Once_done\<rparr>)" "resolved_from w u"
    using once_spec [OF _ _ dl] found loaded by (auto simp: mock_loaded_def given_ok_def)
  let ?w' = "u\<lparr>g_resolve_once := Once_done\<rparr>"
  have t: "tracked ?w' = (\<lambda>_. None)"
    using u(2) loaded by (simp add: tracked_def resolved_from_def mock_loaded_def registry_map_empty)
  have "mock_inv ?w'"
    using u(2) loaded t
    by (simp add: mock_inv_defs resolved_from_def mock_loaded_def registry_ok_empty zero_stats_def)
  with t u show ?thesis by (auto simp: resolved_from_def)
qed

section \<open>Calls and reachable states\<close>

text \<open>
  One completed call into the library, or one thing the rest of the process does to the heap:
  libc creating an object of its own, or the program storing into an object. The pointers
  passed to \<open>realloc\<close> and \<open>free\<close> are null or point to live objects or into the bootstrap heap, and the two
  functions of the bridge are called for an object the library does not track, as \<open>scanf_overrides.c\<close> does.
\<close>

inductive mock_step :: "mock \<Rightarrow> mock \<Rightarrow> bool" where
  step_malloc: "malloc n w = Done (p, w') \<Longrightarrow> mock_step w w'"
| step_calloc: "calloc m n w = Done (p, w') \<Longrightarrow> mock_step w w'"
| step_realloc: "p = NULL \<or> blocks w p \<noteq> None \<or> ao_bootstrap_contains p w \<Longrightarrow> realloc p n w = Done (q, w') \<Longrightarrow> mock_step w w'"
| step_free: "p = NULL \<or> blocks w p \<noteq> None \<or> ao_bootstrap_contains p w \<Longrightarrow> free p w = Done w' \<Longrightarrow> mock_step w w'"
| step_begin: "mock_step w (ao_mock_begin_capture w)"
| step_end: "mock_step w (ao_mock_end_capture w)"
| step_reset: "mock_step w (ao_mock_reset w)"
| step_is_tracked: "ao_mock_is_tracked_allocation p w = Done (b, w') \<Longrightarrow> mock_step w w'"
| step_bridge_free: "p = NULL \<or> blocks w p \<noteq> None \<and> \<not> mock_owns w p \<Longrightarrow>
    ao_alloc_bridge_libc_free p w = Done w' \<Longrightarrow> mock_step w w'"
| step_bridge_realloc: "p = NULL \<or> blocks w p \<noteq> None \<and> \<not> mock_owns w p \<Longrightarrow>
    ao_alloc_bridge_libc_realloc p n w = Done (q, w') \<Longrightarrow> mock_step w w'"
| step_libc: "real_malloc n w = (p, w') \<Longrightarrow> mock_step w w'"
| step_store: "blocks w p = Some cs \<Longrightarrow> length cs' = length cs \<Longrightarrow>
    mock_step w (w\<lparr>blocks := (blocks w)(p \<mapsto> cs')\<rparr>)"

inductive mock_reachable :: "mock \<Rightarrow> bool" where
  reachable_start: "mock_loaded w \<Longrightarrow> dlsym_contract w \<Longrightarrow> ao_ensure_real_functions w = Done w' \<Longrightarrow> mock_reachable w'"
| reachable_step: "mock_reachable w \<Longrightarrow> mock_step w w' \<Longrightarrow> mock_reachable w'"

lemma is_tracked_eq:
  assumes "mock_inv w" "p \<noteq> 1"
  shows "ao_mock_is_tracked_allocation p w = Done (mock_owns w p, w)"
proof (cases "p = NULL")
  case True
  then show ?thesis
    by (simp add: ao_mock_is_tracked_allocation_def mock_owns_def tracked_def registry_map_def
        live_key_def AO_REGISTRY_EMPTY_def)
next
  case False
  then have "live_key p"
    using assms(2) by (simp add: live_key_def AO_REGISTRY_EMPTY_def AO_REGISTRY_TOMBSTONE_def)
  then show ?thesis
    using False assms(1) lookup_registry_map [of p "g_registry w"]
    by (cases w) (simp add: ao_mock_is_tracked_allocation_def ao_registry_contains_def
        ao_registry_lock_def ao_registry_unlock_def mock_inv_defs mock_owns_def tracked_def Let_def)
qed

lemma is_tracked_state:
  assumes "mock_inv w" "ao_mock_is_tracked_allocation p w = Done (b, w')"
  shows "w' = w"
  using assms
  by (cases w) (auto simp: ao_mock_is_tracked_allocation_def ao_registry_contains_def
      ao_registry_lock_def ao_registry_unlock_def mock_inv_defs Let_def split: if_splits)

lemma bridge_libc_free_spec:
  assumes inv: "mock_inv w" and p: "p \<noteq> NULL" "blocks w p = Some cs" "\<not> mock_owns w p"
  shows "ao_alloc_bridge_libc_free p w = Done (w\<lparr>blocks := (blocks w)(p := None)\<rparr>)"
    and "mock_inv (w\<lparr>blocks := (blocks w)(p := None)\<rparr>)"
proof -
  have t: "tracked w p = None" using p(3) unfolding mock_owns_def by blast
  show "ao_alloc_bridge_libc_free p w = Done (w\<lparr>blocks := (blocks w)(p := None)\<rparr>)"
    using p by (simp add: ao_alloc_bridge_libc_free_def mock_inv_ensure [OF inv] real_free_def)
  show "mock_inv (w\<lparr>blocks := (blocks w)(p := None)\<rparr>)"
    by (rule mock_inv_free_untracked [OF inv, where p = p]) (simp_all add: t)
qed

lemma realloc_mock_inv:
  assumes inv: "mock_inv w" and p: "p = NULL \<or> blocks w p \<noteq> None"
  shows "wp (mock_room w = 0) (realloc p n w) (\<lambda>(q, w'). mock_inv w')"
proof (cases "p = NULL")
  case True
  then show ?thesis
    using c_allocator.realloc_NULL_law [OF mock_keeps_contract inv, of n] by (auto elim: wp_conseq)
next
  case False
  with p obtain cs where cs: "blocks w p = Some cs" by blast
  show ?thesis
    using realloc_untracked_spec [OF inv False _ cs, of n] realloc_tracked_spec [OF inv False _ cs, of _ _ n]
    by (cases "tracked w p") (auto elim: wp_conseq)
qed

lemma free_mock_inv:
  assumes inv: "mock_inv w" and p: "p = NULL \<or> blocks w p \<noteq> None"
  shows "wp False (free p w) mock_inv"
proof (cases "p = NULL")
  case True
  then show ?thesis using inv by (simp add: free_def free_body_def)
next
  case False
  with p obtain cs where "blocks w p = Some cs" by blast
  from free_spec [OF inv False this] show ?thesis by (auto elim: wp_conseq)
qed

text \<open>The bootstrap heap is no part of what the invariant is about.\<close>

lemma boot_only_inv: "boot_only w w' \<Longrightarrow> mock_inv w' = mock_inv w"
  using boot_onlyD [of w w'] by (simp add: mock_inv_defs tracked_def)

lemma boot_alloc_only: "ao_bootstrap_alloc n w = Done (p, w') \<Longrightarrow> boot_only w w'"
  by (auto simp: ao_bootstrap_alloc_def Let_def split: if_splits)

lemma boot_realloc_only: "ao_bootstrap_realloc p n w = Done (q, w') \<Longrightarrow> boot_only w w'"
  using boot_only_trans [OF boot_alloc_only boot_onlyI(3)]
  by (auto simp: ao_bootstrap_realloc_def obind_eq_Done Let_def boot_alloc_only split: if_splits)

lemma real_malloc_inv:
  assumes inv: "mock_inv w" and r: "real_malloc n w = (p, w')"
  shows "mock_inv w'"
proof (cases rule: real_malloc_cases [of n w])
  case (null u)
  with r show ?thesis using mock_inv_same_blocks [OF inv null(5,3,2)] by simp
next
  case (block q u)
  have "mock_inv u"
    using block fresh_blockD [OF block(2)] mock_inv_fresh_untracked [OF inv]
    by (intro mock_inv_untracked_block [OF inv block(6,4,3) fresh_block_live [OF block(2)]]) simp_all
  with r block(1) show ?thesis by simp
qed

lemma real_realloc_inv:
  assumes inv: "mock_inv w" and p: "p \<noteq> NULL" "blocks w p = Some cs" "tracked w p = None" and r: "real_realloc p n w = Done (q, w')"
  shows "mock_inv w'"
  using p(1,2)
proof (cases rule: real_realloc_cases [where n = n])
  case (moved q u)
  have q: "live_key q" "\<not> in_static (static_base w) q" "tracked w q = None"
    using moved(3) mock_inv_block [OF inv p(2)] p(3) mock_inv_fresh_untracked [OF inv]
    by (auto dest: fresh_blockD fresh_block_live)
  let ?f = "w\<lparr>blocks := (blocks w)(p := None)\<rparr>"
  have f: "mock_inv ?f" using p(3) by (intro mock_inv_free_untracked [OF inv, where p = p]) simp_all
  have "mock_inv u"
    using moved(5,6,8) q by (intro mock_inv_untracked_block [OF f, where p = q]) (simp_all add: tracked_def)
  with moved(1) r show ?thesis by simp
next
  case (failed u)
  with r mock_inv_same_blocks [OF inv failed(6,4,3)] show ?thesis by simp
next
  case (freed u)
  with r mock_inv_free_untracked [OF inv freed(6,4,3) p(3)] show ?thesis by simp
qed

lemma mock_step_inv: "mock_step w w' \<Longrightarrow> mock_inv w \<Longrightarrow> mock_inv w'"
proof (induction rule: mock_step.induct)
  case (step_malloc n w p w')
  then show ?case using malloc_spec [of w n] by simp
next
  case (step_calloc m n w p w')
  then show ?case using calloc_spec [of w m n] by simp
next
  case (step_realloc p w n q w')
  show ?case
  proof (cases "ao_bootstrap_contains p w")
    case True
    then have "ao_bootstrap_realloc p n w = Done (q, w')"
      using step_realloc mock_inv_resolver by (simp add: realloc_def realloc_body_def)
    with step_realloc.prems boot_only_inv [OF boot_realloc_only] show ?thesis by simp
  next
    case False
    with step_realloc realloc_mock_inv [of w p n] show ?thesis by simp
  qed
next
  case (step_free p w w')
  show ?case
  proof (cases "ao_bootstrap_contains p w")
    case True
    then show ?thesis using step_free by (simp add: free_def free_body_def split: if_splits)
  next
    case False
    with step_free free_mock_inv [of w p] show ?thesis by simp
  qed
next
  case (step_begin w)
  then show ?case by (simp add: ao_mock_begin_capture_def mock_inv_defs tracked_def)
next
  case (step_end w)
  then show ?case by (simp add: ao_mock_end_capture_def mock_inv_defs tracked_def)
next
  case (step_reset w)
  then show ?case by (simp only: mock_inv_calls(1) [OF reset_calls])
next
  case (step_is_tracked p w b w')
  then show ?case using is_tracked_state by blast
next
  case (step_bridge_free p w w')
  show ?case
  proof (cases "p = NULL")
    case True
    with step_bridge_free show ?thesis by (simp add: ao_alloc_bridge_libc_free_def)
  next
    case False
    with step_bridge_free obtain cs where "blocks w p = Some cs" "\<not> mock_owns w p" by blast
    with bridge_libc_free_spec [OF step_bridge_free.prems False] step_bridge_free.hyps
    show ?thesis by simp
  qed
next
  case (step_bridge_realloc p w n q w')
  then have r: "real_realloc p n w = Done (q, w')"
    by (simp add: ao_alloc_bridge_libc_realloc_def mock_inv_ensure)
  show ?case
  proof (cases "p = NULL")
    case True
    with r real_malloc_inv [OF step_bridge_realloc.prems] show ?thesis by (simp add: real_realloc_def)
  next
    case False
    then have l: "blocks w p \<noteq> None" "\<not> mock_owns w p" using step_bridge_realloc.hyps(1) by simp_all
    then obtain cs where "blocks w p = Some cs" by blast
    moreover have "tracked w p = None" using l(2) by (simp add: mock_owns_def del: not_None_eq)
    ultimately show ?thesis using real_realloc_inv [OF step_bridge_realloc.prems False _ _ r] by blast
  qed
next
  case (step_libc n w p w')
  show ?case by (rule real_malloc_inv [OF step_libc.prems step_libc.hyps])
next
  case (step_store w p cs cs')
  then show ?case by (blast intro: mock_inv_store)
qed

lemma mock_reachable_inv: "mock_reachable w \<Longrightarrow> mock_inv w"
proof (induction rule: mock_reachable.induct)
  case (reachable_start w w')
  have "\<forall>name \<in> set resolver_names. dlsym_found w name"
  proof (rule ccontr)
    assume "\<not> (\<forall>name \<in> set resolver_names. dlsym_found w name)"
    then have "ao_ensure_real_functions w = Exit 127"
      using once_spec [OF _ _ reachable_start(2)] reachable_start(1) by (auto simp: mock_loaded_def given_ok_def split: if_splits)
    with reachable_start show False by simp
  qed
  with ensure_spec [OF reachable_start(1,2)] reachable_start(3) show ?case by auto
next
  case (reachable_step w w')
  then show ?case by (blast intro: mock_step_inv)
qed

end
