(* ===== verification/Sample_States.thy ===== *)
theory Sample_States
  imports Mock_Runs
begin

text \<open>
  Concrete states of the mock allocator: the library right after the loader mapped it, the same
  library with the libc symbols resolved, and a state with one tracked block. The theorems on
  the mock allocator are evaluated on them.
\<close>

definition loaded_state :: "(string \<Rightarrow> bool) \<Rightarrow> (string \<Rightarrow> (ptr list \<Rightarrow> dl_call) list) \<Rightarrow> ptr option list \<Rightarrow> mock" where
  "loaded_state found calls as =
     \<lparr>blocks = (\<lambda>_. None), answers = as, errno = EOK, static_base = 0x10000,
      g_registry = empty_registry, g_registry_lock = False, g_stats = zero_stats,
      g_capture_depth = 0, g_next_allocation_id = 1, g_bootstrap_heap = (\<lambda>_. 0),
      g_bootstrap_offset = 0, g_in_resolver = False, g_resolve_once = Once_init,
      g_real_malloc = False, g_real_calloc = False, g_real_realloc = False, g_real_free = False,
      dlsym_found = found, dlsym_calls = calls, dlsym_given = []\<rparr>"

definition ready_state :: "ptr option list \<Rightarrow> mock" where
  "ready_state as = (loaded_state (\<lambda>_. True) (\<lambda>_. []) as)\<lparr>g_resolve_once := Once_done,
     g_real_malloc := True, g_real_calloc := True, g_real_realloc := True, g_real_free := True\<rparr>"

text \<open>One block of four bytes at \<open>0x100000\<close>, tracked under the identifier 1.\<close>

definition one_block_registry :: registry where
  "one_block_registry = empty_registry(0 := \<lparr>key = 0x100000, requested_size = 4, allocation_id = 1\<rparr>)"

definition one_block_state :: "cell list \<Rightarrow> ptr option list \<Rightarrow> mock" where
  "one_block_state cs as = ao_live_add 4 ((ready_state as)\<lparr>
     blocks := [0x100000 \<mapsto> cs], g_registry := one_block_registry, g_next_allocation_id := 2\<rparr>)"

text \<open>The same with a further block of the system allocator that the mock does not track.\<close>

definition foreign_block_state :: "cell list \<Rightarrow> ptr option list \<Rightarrow> mock" where
  "foreign_block_state cs as = (ready_state as)\<lparr>blocks := [0x200000 \<mapsto> cs]\<rparr>"

lemma live_key_numeral: "live_key k \<longleftrightarrow> k \<noteq> 0 \<and> k \<noteq> 1"
  by (simp add: live_key_def AO_REGISTRY_EMPTY_def AO_REGISTRY_TOMBSTONE_def)

lemma insert_first:
  "ao_registry_insert_locked 0x100000 4 1 empty_registry = Some one_block_registry"
proof -
  have "probe 0x100000 0 = 0"
    by (simp add: probe_def ao_registry_index_for_def)
  then show ?thesis
    by (simp add: ao_registry_insert_locked_def insert_loop.simps [of _ _ _ _ _ 0] empty_registry_def
        empty_entry_def one_block_registry_def AO_REGISTRY_CAPACITY_def AO_REGISTRY_EMPTY_def
        AO_REGISTRY_TOMBSTONE_def Let_def)
qed

lemma heap_ok_ready: "heap_ok ((ready_state as)\<lparr>blocks := [p \<mapsto> cs]\<rparr>)"
  if "live_key p" "\<not> in_static 0x10000 p"
  using that by (simp add: heap_ok_def ready_state_def loaded_state_def)

lemma ready_inv: "mock_inv (ready_state as)"
  by (simp add: mock_inv_def mock_ready_def heap_ok_def tracking_ok_def live_ok_def tracked_def
      registry_map_empty registry_ok_empty zero_stats_def ready_state_def loaded_state_def dom_def)

lemma ready_tracked: "tracked (ready_state as) = (\<lambda>_. None)"
  by (simp add: tracked_def ready_state_def loaded_state_def registry_map_empty)

lemma ready_room: "mock_room (ready_state as) = 65536"
  by (simp add: mock_room_def ready_tracked AO_REGISTRY_CAPACITY_def dom_def)

lemma foreign_inv: "mock_inv (foreign_block_state cs as)"
proof (rule mock_inv_untracked_block [OF ready_inv])
  show "tracked (ready_state as) 0x200000 = None" by (simp add: ready_tracked)
qed (simp_all add: foreign_block_state_def ready_state_def loaded_state_def live_key_numeral in_static_def)

lemma foreign_tracked: "tracked (foreign_block_state cs as) = (\<lambda>_. None)"
  by (simp add: tracked_def foreign_block_state_def ready_state_def loaded_state_def registry_map_empty)

lemma one_block_inv:
  assumes "length cs = 4"
  shows "mock_inv (one_block_state cs as)"
    and "tracked (one_block_state cs as) = [0x100000 \<mapsto> (4, 1)]"
proof -
  let ?w = "(ready_state as)\<lparr>blocks := [0x100000 \<mapsto> cs]\<rparr>"
  have w: "mock_inv ?w" "tracked ?w = (\<lambda>_. None)"
  proof -
    show "mock_inv ?w"
    proof (rule mock_inv_untracked_block [OF ready_inv])
      show "tracked (ready_state as) 0x100000 = None" by (simp add: ready_tracked)
    qed (simp_all add: ready_state_def loaded_state_def live_key_numeral in_static_def)
    show "tracked ?w = (\<lambda>_. None)" using ready_tracked [of as] by (simp add: tracked_def)
  qed
  have ins: "ao_registry_insert_locked 0x100000 4 1 (g_registry ?w) = Some one_block_registry"
    using insert_first by (simp add: ready_state_def loaded_state_def)
  have one: "one_block_state cs as = ao_live_add 4 (?w\<lparr>g_registry := one_block_registry, g_next_allocation_id := 2\<rparr>)"
    by (simp add: one_block_state_def)
  show "mock_inv (one_block_state cs as)"
    unfolding one using assms w(2) by (intro mock_inv_register(1) [OF w(1) _ _ _ _ ins]) (simp_all add: live_key_numeral)
  show "tracked (one_block_state cs as) = [0x100000 \<mapsto> (4, 1)]"
    unfolding one using assms w(2)
    by (subst mock_inv_register(2) [OF w(1) _ _ _ _ ins]) (simp_all add: live_key_numeral)
qed

lemma loaded_ok: "mock_loaded (loaded_state found calls as)"
  by (simp add: mock_loaded_def loaded_state_def heap_ok_def boot_ok_def)

text \<open>The first \<open>malloc\<close> of four bytes, when the system allocator answers with \<open>0x100000\<close>.\<close>

lemma malloc_first:
  "malloc 4 (ready_state (Some 0x100000 # as)) = Done (0x100000, one_block_state (replicate 4 None) as)"
  using insert_first
  by (simp add: malloc_def malloc_body_def ao_ensure_real_functions_def pthread_once_def real_malloc_def fresh_block_def in_static_def
      ao_track_allocation_or_die_def ao_registry_lock_def ao_registry_unlock_def ao_next_allocation_id_def
      ao_record_successful_allocation_def ao_capture_enabled_def ao_live_add_def
      one_block_state_def ready_state_def loaded_state_def Let_def)

lemma one_block_blocks: "blocks (one_block_state cs as) = [0x100000 \<mapsto> cs]"
  by (simp add: one_block_state_def ao_live_add_def)

lemma foreign_blocks: "blocks (foreign_block_state cs as) = [0x200000 \<mapsto> cs]"
  by (simp add: foreign_block_state_def)

lemma ready_reachable: "mock_reachable (ready_state as)"
proof (rule reachable_start)
  show "ao_ensure_real_functions (loaded_state (\<lambda>_. True) (\<lambda>_. []) as) = Done (ready_state as)"
    by (simp add: ao_ensure_real_functions_def pthread_once_def ao_resolve_real_functions_def dlsym_def
        ready_state_def loaded_state_def Let_def)
qed (simp_all add: loaded_ok, simp add: dlsym_contract_def loaded_state_def)

lemma one_block_reachable: "mock_reachable (one_block_state (replicate 4 None) as)"
  by (rule reachable_step [OF ready_reachable step_malloc [OF malloc_first]])

end
