(* ===== verification/String_Overrides.thy ===== *)
theory String_Overrides
  imports Allocator
begin

text \<open>
  \<open>src/string_overrides.c\<close>: \<open>strdup\<close>, \<open>strndup\<close> and \<open>wcsdup\<close>. Each takes the allocator's
  \<open>malloc\<close> as its first argument and the cells of the source object from the pointer on.
  The lemmas of the \<open>c_allocator\<close> context hold for every preloaded allocator.
\<close>

type_synonym 'a malloc_fn = "size_t \<Rightarrow> 'a libc_scheme \<Rightarrow> (ptr \<times> 'a libc_scheme) outcome"
type_synonym 'a realloc_fn = "ptr \<Rightarrow> size_t \<Rightarrow> 'a libc_scheme \<Rightarrow> (ptr \<times> 'a libc_scheme) outcome"
type_synonym 'a free_fn = "ptr \<Rightarrow> 'a libc_scheme \<Rightarrow> 'a libc_scheme outcome"

definition strdup :: "'a malloc_fn \<Rightarrow> cell list \<Rightarrow> 'a libc_scheme \<Rightarrow> (ptr \<times> 'a libc_scheme) outcome" where
  "strdup malloc s w =
     obind (strlen s) (\<lambda>len.
     obind (malloc (of_nat len + 1) w) (\<lambda>(dup, w).
       if dup = NULL then Done (NULL, w)
       else obind (read_cells s 0 (len + 1)) (\<lambda>src.
            obind (write_cells dup 0 src w) (\<lambda>w.
              Done (dup, w)))))"

definition strndup ::
  "'a malloc_fn \<Rightarrow> cell list \<Rightarrow> size_t \<Rightarrow> 'a libc_scheme \<Rightarrow> (ptr \<times> 'a libc_scheme) outcome" where
  "strndup malloc s n w =
     obind (strnlen s (unat n)) (\<lambda>len.
     obind (malloc (of_nat len + 1) w) (\<lambda>(dup, w).
       if dup = NULL then Done (NULL, w)
       else obind (read_cells s 0 len) (\<lambda>src.
            obind (write_cells dup 0 src w) (\<lambda>w.
            obind (write_cells dup len [Some 0] w) (\<lambda>w.
              Done (dup, w))))))"

definition wcsdup :: "'a malloc_fn \<Rightarrow> cell list \<Rightarrow> 'a libc_scheme \<Rightarrow> (ptr \<times> 'a libc_scheme) outcome" where
  "wcsdup malloc s w =
     obind (wcslen s) (\<lambda>len.
     obind (malloc ((of_nat len + 1) * of_nat sizeof_wchar_t) w) (\<lambda>(dup, w).
       if dup = NULL then Done (NULL, w)
       else obind (read_cells s 0 ((len + 1) * sizeof_wchar_t)) (\<lambda>src.
            obind (write_cells dup 0 src w) (\<lambda>w.
              Done (dup, w)))))"

section \<open>Reading the source\<close>

lemma read_cstring:
  "cstring s cells \<Longrightarrow> read_cells cells 0 (length s + 1) = Done (map Some (s @ [0]))"
  using cstring_length [of s cells] by (simp add: read_cells_def cstring_def)

lemma read_cstring_prefix:
  assumes "cstring s cells" "k \<le> length s"
  shows "read_cells cells 0 k = Done (map Some (take k s))"
proof -
  have "take k cells = take k (take (Suc (length s)) cells)"
    using assms(2) by (simp add: min_def)
  also have "\<dots> = map Some (take k s)"
    using assms by (simp add: cstring_def take_map)
  finally show ?thesis
    using cstring_length [OF assms(1)] assms(2) by (simp add: read_cells_def)
qed

lemma wcstring_length: "wcstring ws cells \<Longrightarrow> 4 * Suc (length ws) \<le> length cells"
  by (metis wcstring_def length_wide_cells length_append_singleton length_take min.cobounded1)

lemma read_wcstring:
  "wcstring ws cells \<Longrightarrow>
   read_cells cells 0 ((length ws + 1) * sizeof_wchar_t) = Done (wide_cells (ws @ [0]))"
  using wcstring_length [of ws cells]
  by (simp add: read_cells_def wcstring_def sizeof_wchar_t_def mult.commute)

section \<open>Results under any allocator\<close>

text \<open>A duplicate: no block and \<open>ENOMEM\<close>, or a fresh owned block that holds exactly the
  given cells, with every other object unchanged.\<close>

definition duplicated ::
  "('a libc_scheme \<Rightarrow> ptr \<Rightarrow> bool) \<Rightarrow> cell list \<Rightarrow> 'a libc_scheme \<Rightarrow> ptr \<Rightarrow> 'a libc_scheme \<Rightarrow> bool" where
  "duplicated owned new w p w' \<longleftrightarrow>
     (if p = NULL then blocks w' = blocks w \<and> errno w' = ENOMEM \<and> owned w' = owned w
      else blocks w p = None \<and> blocks w' = (blocks w)(p \<mapsto> new) \<and> errno w' = errno w
           \<and> owned w' = (owned w)(p := True))"

lemma unat_Suc_of_nat: "len + 1 < 2 ^ 64 \<Longrightarrow> unat (of_nat len + 1 :: 64 word) = len + 1"
  by (metis of_nat_1 of_nat_add unat_of_nat_lt)

lemma strdup_eq:
  assumes "cstring s cells"
  shows "strdup malloc cells w = obind (malloc (of_nat (length s) + 1) w) (\<lambda>(p, w).
    if p = NULL then Done (NULL, w)
    else obind (write_cells p 0 (map Some (s @ [0])) w) (\<lambda>w. Done (p, w)))"
  unfolding strdup_def strlen_cstring [OF assms] obind.simps read_cstring [OF assms] ..

lemma strndup_eq:
  assumes "cstring s cells"
  shows "strndup malloc cells n w =
    obind (malloc (of_nat (min (length s) (unat n)) + 1) w) (\<lambda>(p, w).
      if p = NULL then Done (NULL, w)
      else obind (write_cells p 0 (map Some (take (unat n) s @ [0])) w) (\<lambda>w. Done (p, w)))"
proof -
  define k where "k = min (length s) (unat n)"
  have k: "take k s = take (unat n) s" "k = length (take k s)"
    by (simp_all add: k_def min_def)
  have rd: "read_cells cells 0 k = Done (map Some (take k s))"
    by (rule read_cstring_prefix [OF assms]) (simp add: k_def)
  have wr: "obind (write_cells p 0 (map Some (take k s)) w) (\<lambda>w.
      obind (write_cells p k [Some 0] w) (\<lambda>w. Done (p, w)))
    = obind (write_cells p 0 (map Some (take (unat n) s @ [0])) w) (\<lambda>w. Done (p, w))" for p w
    using write_cells_append [of p 0 "map Some (take k s)" w "[Some 0]"] k
    by (simp add: obind_assoc [symmetric])
  show ?thesis
    unfolding strndup_def strnlen_cstring [OF assms] obind.simps k_def [symmetric] rd wr ..
qed

lemma wcsdup_eq:
  assumes "wcstring ws cells"
  shows "wcsdup malloc cells w = obind (malloc ((of_nat (length ws) + 1) * of_nat sizeof_wchar_t) w) (\<lambda>(p, w).
    if p = NULL then Done (NULL, w)
    else obind (write_cells p 0 (wide_cells (ws @ [0])) w) (\<lambda>w. Done (p, w)))"
  unfolding wcsdup_def wcslen_wcstring [OF assms] obind.simps read_wcstring [OF assms] ..

context c_allocator
begin

lemma strdup_law:
  assumes "inv w" "cstring s cells" "length cells < 2 ^ 64"
  shows "wp (room w = 0) (strdup malloc cells w)
    (\<lambda>(p, w'). inv w' \<and> duplicated owned (map Some (s @ [0])) w p w')"
proof -
  have "unat (of_nat (length s) + 1 :: size_t) = length (map Some (s @ [0 :: byte]))"
    using cstring_length [OF assms(2)] assms(3) by (subst unat_Suc_of_nat) simp_all
  from malloc_fill [OF assms(1) this] show ?thesis
    unfolding strdup_eq [OF assms(2)] duplicated_def .
qed

lemma strndup_law:
  assumes "inv w" "cstring s cells" "length cells < 2 ^ 64"
  shows "wp (room w = 0) (strndup malloc cells n w)
    (\<lambda>(p, w'). inv w' \<and> duplicated owned (map Some (take (unat n) s @ [0])) w p w')"
proof -
  have "unat (of_nat (min (length s) (unat n)) + 1 :: size_t)
      = length (map Some (take (unat n) s @ [0 :: byte]))"
    using cstring_length [OF assms(2)] assms(3) by (subst unat_Suc_of_nat) simp_all
  from malloc_fill [OF assms(1) this] show ?thesis
    unfolding strndup_eq [OF assms(2)] duplicated_def .
qed

lemma wcsdup_law:
  assumes "inv w" "wcstring ws cells" "length cells < 2 ^ 64"
  shows "wp (room w = 0) (wcsdup malloc cells w)
    (\<lambda>(p, w'). inv w' \<and> duplicated owned (wide_cells (ws @ [0])) w p w')"
proof -
  have b: "4 * Suc (length ws) < 2 ^ 64"
    using wcstring_length [OF assms(2)] assms(3) by simp
  have "((of_nat (length ws) + 1) * of_nat sizeof_wchar_t :: size_t) = of_nat (4 * Suc (length ws))"
    by (simp add: sizeof_wchar_t_def algebra_simps)
  then have "unat ((of_nat (length ws) + 1) * of_nat sizeof_wchar_t :: size_t)
      = length (wide_cells (ws @ [0]))"
    using unat_of_nat_lt [OF b] by simp
  from malloc_fill [OF assms(1) this] show ?thesis
    unfolding wcsdup_eq [OF assms(2)] duplicated_def .
qed

end

end
