(* ===== verification/Sched_Overrides.thy ===== *)
theory Sched_Overrides
  imports String_Overrides
begin

text \<open>
  \<open>src/sched_overrides.c\<close>: the size of a CPU set in whole \<open>unsigned long\<close> words and
  \<open>__sched_cpualloc\<close>.
\<close>

definition sizeof_ulong :: size_t where [layout]: "sizeof_ulong = 8"

definition ao_cpu_alloc_size :: "size_t \<Rightarrow> size_t" where
  "ao_cpu_alloc_size count =
     sizeof_ulong * (count div (8 * sizeof_ulong)
       + (count mod (8 * sizeof_ulong) + 8 * sizeof_ulong - 1) div (8 * sizeof_ulong))"

definition sched_cpualloc :: "'a malloc_fn \<Rightarrow> size_t \<Rightarrow> 'a libc_scheme \<Rightarrow> (ptr \<times> 'a libc_scheme) outcome" where
  "sched_cpualloc malloc count w = malloc (ao_cpu_alloc_size count) w"

text \<open>The size is the least multiple of eight bytes with a bit per CPU; it never wraps.\<close>

lemma unat_ao_cpu_alloc_size: "unat (ao_cpu_alloc_size count) = 8 * ((unat count + 63) div 64)"
proof -
  let ?q = "unat count div 64" and ?r = "unat count mod 64"
  have c: "unat count = 64 * ?q + ?r" "?r < 64" and lt: "unat count < 2 ^ 64"
    by (simp_all add: less_le_trans [OF unsigned_less])
  have q: "?q < 2 ^ 58" using lt by (simp add: div_less_iff_less_mult)
  have d: "unat (count div 64) = ?q" and m: "unat (count mod 64) = ?r"
    by (simp_all add: unat_div unat_mod)
  have s: "unat (count mod 64 + 64 - 1) = ?r + 63"
  proof -
    have "count mod 64 + 64 - 1 = count mod 64 + 63" by simp
    then show ?thesis using m c(2) by (simp add: unat_add_no_wrap)
  qed
  have e: "unat ((count mod 64 + 64 - 1) div 64) = (?r + 63) div 64"
    by (simp only: unat_div s) simp
  have le: "(?r + 63) div 64 \<le> 1" using c(2) by simp
  have "unat (count div 64 + (count mod 64 + 64 - 1) div 64) = ?q + (?r + 63) div 64"
    using d e q le by (subst unat_add_no_wrap) simp_all
  moreover have "8 * (?q + (?r + 63) div 64) < 2 ^ 64" using q le by simp
  ultimately have "unat (8 * (count div 64 + (count mod 64 + 64 - 1) div 64))
      = 8 * (?q + (?r + 63) div 64)"
    by (simp add: unat_word_ariths)
  moreover have "(unat count + 63) div 64 = ?q + (?r + 63) div 64"
  proof -
    have "unat count + 63 = 64 * ?q + (?r + 63)" using c(1) by linarith
    then show ?thesis using div_mult_self4 [of 64 ?q "?r + 63"] by (metis zero_neq_numeral)
  qed
  ultimately show ?thesis
    by (simp add: ao_cpu_alloc_size_def sizeof_ulong_def)
qed

lemma ao_cpu_alloc_size_enough:
  "unat count \<le> 8 * unat (ao_cpu_alloc_size count)"
  "8 * unat (ao_cpu_alloc_size count) < unat count + 64"
  unfolding unat_ao_cpu_alloc_size
  using div_mult_mod_eq [of "unat count + 63" 64] mod_less_divisor [of 64 "unat count + 63"]
  by linarith+

end
