(* ===== verification/Stdio_Overrides.thy ===== *)
theory Stdio_Overrides
  imports String_Overrides
begin

text \<open>
  \<open>src/stdio_overrides.c\<close>: \<open>vasprintf\<close> and \<open>asprintf\<close>. What libc formats is a parameter: the
  text the format and the arguments produce, or \<open>None\<close> where \<open>vsnprintf\<close> reports an error; the two
  calls of \<open>vasprintf\<close> have one each, since the second may fail where the first did not.
\<close>

definition INT_MAX :: nat where [layout]: "INT_MAX = 2 ^ 31 - 1"

text \<open>The return value of \<open>vsnprintf\<close>: the length of the whole text, negative on an error or
  when the length does not fit an \<open>int\<close>.\<close>

definition vsnprintf_ret :: "byte list option \<Rightarrow> int" where
  "vsnprintf_ret text =
     (case text of None \<Rightarrow> -1 | Some t \<Rightarrow> if length t \<le> INT_MAX then int (length t) else -1)"

text \<open>What \<open>vsnprintf\<close> stores into a buffer of \<open>n > 0\<close> bytes.\<close>

definition vsnprintf_store ::
  "byte list option \<Rightarrow> ptr \<Rightarrow> nat \<Rightarrow> 'a libc_scheme \<Rightarrow> 'a libc_scheme outcome" where
  "vsnprintf_store text p n w =
     (case text of None \<Rightarrow> Done w | Some t \<Rightarrow> write_cells p 0 (map Some (take (n - 1) t @ [0])) w)"

text \<open>The result is the return value and the new value of \<open>*s\<close>, \<open>None\<close> where it is not assigned.\<close>

definition vasprintf ::
  "'a malloc_fn \<Rightarrow> byte list option \<Rightarrow> byte list option \<Rightarrow> 'a libc_scheme
   \<Rightarrow> ((int \<times> ptr option) \<times> 'a libc_scheme) outcome" where
  "vasprintf malloc text1 text2 w =
     (let len = vsnprintf_ret text1
      in if len < 0 then Done ((-1, None), w)
         else obind (malloc (of_int len + 1) w) (\<lambda>(s, w).
                if s = NULL then Done ((-1, Some NULL), w)
                else obind (vsnprintf_store text2 s (nat len + 1) w) (\<lambda>w.
                       Done ((vsnprintf_ret text2, Some s), w))))"

definition asprintf ::
  "'a malloc_fn \<Rightarrow> byte list option \<Rightarrow> byte list option \<Rightarrow> 'a libc_scheme
   \<Rightarrow> ((int \<times> ptr option) \<times> 'a libc_scheme) outcome" where
  "asprintf malloc text1 text2 w = vasprintf malloc text1 text2 w"

lemma vasprintf_eq:
  assumes "length t \<le> INT_MAX"
  shows "vasprintf malloc (Some t) (Some t) w =
    obind (obind (malloc (of_nat (length t) + 1) w) (\<lambda>(p, w).
      if p = NULL then Done (NULL, w)
      else obind (write_cells p 0 (map Some (t @ [0])) w) (\<lambda>w. Done (p, w))))
    (\<lambda>(p, w). Done ((if p = NULL then -1 else int (length t), Some p), w))"
  using assms
  by (auto simp: vasprintf_def vsnprintf_ret_def vsnprintf_store_def obind_assoc Let_def
      intro!: obind_cong split: prod.splits)

context c_allocator
begin

lemma vasprintf_law:
  assumes inv: "inv w" and t: "length t \<le> INT_MAX"
  shows "wp (room w = 0) (vasprintf malloc (Some t) (Some t) w)
    (\<lambda>((ret, s), w'). inv w' \<and> s \<noteq> None \<and> duplicated owned (map Some (t @ [0])) w (the s) w'
       \<and> ret = (if the s = NULL then -1 else int (length t)))"
proof -
  have "unat (of_nat (length t) + 1 :: size_t) = length (map Some (t @ [0 :: byte]))"
    using t by (subst unat_Suc_of_nat) (simp_all add: INT_MAX_def)
  from malloc_fill [OF inv this] show ?thesis
    unfolding vasprintf_eq [OF t] wp_bind [of _ _ "\<lambda>(p, w). Done (_ p, w)"]
    by (auto simp: duplicated_def wp_bind elim!: wp_conseq)
qed

end

end
