(* ===== verification/Line_Overrides.thy ===== *)
theory Line_Overrides
  imports String_Overrides
begin

text \<open>
  \<open>src/line_overrides.c\<close>: \<open>getdelim\<close> and \<open>getline\<close>. The input stream is the bytes still to come and
  whether reading past them is an error or the end of the file; the stream lock is a counter.
\<close>

record stream =
  st_input :: "byte list"
  st_fails :: bool
  st_error :: bool
  st_locks :: nat

definition EOF :: int where [layout]: "EOF = -1"

definition flockfile :: "stream \<Rightarrow> stream" where
  "flockfile f = f\<lparr>st_locks := st_locks f + 1\<rparr>"

definition funlockfile :: "stream \<Rightarrow> stream" where
  "funlockfile f = f\<lparr>st_locks := st_locks f - 1\<rparr>"

definition getc_unlocked :: "stream \<Rightarrow> int \<times> stream" where
  "getc_unlocked f =
     (case st_input f of
        [] \<Rightarrow> (EOF, f\<lparr>st_error := st_error f \<or> st_fails f\<rparr>)
      | b # bs \<Rightarrow> (uint b, f\<lparr>st_input := bs\<rparr>))"

text \<open>The result holds the return code and the new values of \<open>*buffer\<close> and \<open>*capacity\<close>.\<close>

definition ao_grow_line_buffer ::
  "'a realloc_fn \<Rightarrow> ptr \<Rightarrow> size_t \<Rightarrow> size_t \<Rightarrow> 'a libc_scheme
   \<Rightarrow> ((int \<times> ptr \<times> size_t) \<times> 'a libc_scheme) outcome" where
  "ao_grow_line_buffer realloc buffer capacity len w =
     (if len > SIZE_MAX - 2 then Done ((-1, buffer, capacity), w\<lparr>errno := ENOMEM\<rparr>)
      else
        let min_capacity = len + 2;
            new_capacity = (if min_capacity < SIZE_MAX div 4
                            then min_capacity + min_capacity div 2 else min_capacity)
        in obind (realloc buffer new_capacity w) (\<lambda>(new_buffer, w).
             if new_buffer = NULL
             then obind (realloc buffer min_capacity w) (\<lambda>(new_buffer, w).
                    if new_buffer = NULL
                    then Done ((-1, buffer, capacity), w\<lparr>errno := ENOMEM\<rparr>)
                    else Done ((0, new_buffer, min_capacity), w))
             else Done ((0, new_buffer, new_capacity), w)))"

text \<open>The loop of \<open>getdelim\<close> with the code after it; the result is the return value with the new
  \<open>*s\<close> and \<open>*n\<close>, and the stream.\<close>

definition getdelim_finish ::
  "ptr \<Rightarrow> size_t \<Rightarrow> size_t \<Rightarrow> stream \<Rightarrow> 'a libc_scheme
   \<Rightarrow> ((int \<times> ptr \<times> size_t) \<times> stream \<times> 'a libc_scheme) outcome" where
  "getdelim_finish s n len f w =
     obind (write_cells s (unat len) [Some 0] w) (\<lambda>w.
       Done ((sint len, s, n), funlockfile f, w))"

function getdelim_loop ::
  "'a realloc_fn \<Rightarrow> int \<Rightarrow> ptr \<Rightarrow> size_t \<Rightarrow> size_t \<Rightarrow> stream \<Rightarrow> 'a libc_scheme
   \<Rightarrow> ((int \<times> ptr \<times> size_t) \<times> stream \<times> 'a libc_scheme) outcome" where
  "getdelim_loop realloc delim s n len f w =
     obind (if len + 1 \<ge> n then ao_grow_line_buffer realloc s n len w else Done ((0, s, n), w))
       (\<lambda>((rc, s, n), w).
          if rc \<noteq> 0 then Done ((-1, s, n), funlockfile f, w)
          else case getc_unlocked f of (c, f') \<Rightarrow>
            if c = EOF
            then if len = 0 \<or> st_error f' then Done ((-1, s, n), funlockfile f', w)
                 else getdelim_finish s n len f' w
            else obind (write_cells s (unat len) [Some (of_int c)] w) (\<lambda>w.
                   if c = delim then getdelim_finish s n (len + 1) f' w
                   else getdelim_loop realloc delim s n (len + 1) f' w))"
  by pat_completeness auto
termination
  by (relation "measure (\<lambda>(_, _, _, _, _, f, _). length (st_input f))")
    (auto simp: getc_unlocked_def split: list.splits)

declare getdelim_loop.simps [simp del]

text \<open>\<open>s\<close> and \<open>n\<close> are pointers to the caller's variables, \<open>None\<close> when null.\<close>

definition getdelim ::
  "'a realloc_fn \<Rightarrow> ptr option \<Rightarrow> size_t option \<Rightarrow> int \<Rightarrow> stream \<Rightarrow> 'a libc_scheme
   \<Rightarrow> ((int \<times> ptr option \<times> size_t option) \<times> stream \<times> 'a libc_scheme) outcome" where
  "getdelim realloc s n delim f w =
     (case (s, n) of
        (Some sv, Some nv) \<Rightarrow>
          obind (getdelim_loop realloc delim sv (if sv = NULL then 0 else nv) 0 (flockfile f) w)
            (\<lambda>((ret, sv, nv), f, w). Done ((ret, Some sv, Some nv), f, w))
      | _ \<Rightarrow> Done ((-1, s, n), f, w\<lparr>errno := EINVAL\<rparr>))"

definition getdelim_alias ::
  "'a realloc_fn \<Rightarrow> ptr option \<Rightarrow> size_t option \<Rightarrow> int \<Rightarrow> stream \<Rightarrow> 'a libc_scheme
   \<Rightarrow> ((int \<times> ptr option \<times> size_t option) \<times> stream \<times> 'a libc_scheme) outcome" where
  "getdelim_alias realloc s n delim f w = getdelim realloc s n delim f w"

definition getline ::
  "'a realloc_fn \<Rightarrow> ptr option \<Rightarrow> size_t option \<Rightarrow> stream \<Rightarrow> 'a libc_scheme
   \<Rightarrow> ((int \<times> ptr option \<times> size_t option) \<times> stream \<times> 'a libc_scheme) outcome" where
  "getline realloc s n f w = getdelim realloc s n 10 f w"

section \<open>What a line is\<close>

text \<open>The line up to and including the delimiter, the rest of the input, and whether the
  delimiter was found.\<close>

fun split_line :: "int \<Rightarrow> byte list \<Rightarrow> byte list \<times> byte list \<times> bool" where
  "split_line d [] = ([], [], False)"
| "split_line d (b # bs) =
     (if uint b = d then ([b], bs, True)
      else case split_line d bs of (l, r, hit) \<Rightarrow> (b # l, r, hit))"

text \<open>The caller's buffer: none, or an owned object of at least \<open>n\<close> bytes.\<close>

definition line_buffer ::
  "('a libc_scheme \<Rightarrow> ptr \<Rightarrow> bool) \<Rightarrow> ptr \<Rightarrow> size_t \<Rightarrow> 'a libc_scheme \<Rightarrow> bool" where
  "line_buffer owned s n w \<longleftrightarrow>
     s \<noteq> NULL \<longrightarrow> owned w s \<and> (\<exists>cs. blocks w s = Some cs \<and> unat n \<le> length cs \<and> length cs \<le> SSIZE_MAX)"

text \<open>The bytes read so far stand at the start of the buffer, with room for one more.\<close>

definition line_partial ::
  "('a libc_scheme \<Rightarrow> ptr \<Rightarrow> bool) \<Rightarrow> ptr \<Rightarrow> size_t \<Rightarrow> byte list \<Rightarrow> 'a libc_scheme \<Rightarrow> bool" where
  "line_partial owned s n got w \<longleftrightarrow> line_buffer owned s n w \<and> (s = NULL \<longrightarrow> n = 0) \<and>
     (got \<noteq> [] \<longrightarrow> length got < unat n \<and>
        (\<exists>cs. blocks w s = Some cs \<and> take (length got) cs = map Some got))"

text \<open>The result of \<open>getdelim\<close> on a stream whose next line is \<open>l\<close>.\<close>

definition line_result ::
  "('a libc_scheme \<Rightarrow> ptr \<Rightarrow> bool) \<Rightarrow> byte list \<times> byte list \<times> bool \<Rightarrow> int \<Rightarrow> ptr \<Rightarrow> stream
   \<Rightarrow> 'a libc_scheme \<Rightarrow> bool" where
  "line_result owned split ret s f w \<longleftrightarrow>
     (case split of (l, r, hit) \<Rightarrow>
        if ret = -1
        then errno w = ENOMEM \<or> st_input f = [] \<and> \<not> hit \<and> (l = [] \<or> st_error f)
        else l \<noteq> [] \<and> ret = int (length l) \<and> st_input f = r \<and> (hit \<or> \<not> st_error f)
             \<and> (\<exists>cs. blocks w s = Some cs \<and> take (length l + 1) cs = map Some (l @ [0])))"

section \<open>Lemmas\<close>

lemma split_line_append:
  "split_line d bs = (l, r, hit) \<Longrightarrow> bs = l @ r"
  by (induction bs arbitrary: l) (auto split: if_splits prod.splits)

lemma split_line_miss: "split_line d bs = (l, r, False) \<Longrightarrow> r = []"
  by (induction bs arbitrary: l) (auto split: if_splits prod.splits)

lemma uint_not_EOF: "uint (b :: byte) \<noteq> EOF"
  using order_trans [OF uint_ge_0 eq_refl, of b EOF] by (auto simp: EOF_def)

lemma line_partial_unat:
  "line_partial owned s n got w \<Longrightarrow> unat (of_nat (length got) :: size_t) = length got"
  using unsigned_less [where 'a = nat, of n]
  by (intro unat_of_nat_lt) (cases "got = []", auto simp: line_partial_def)

text \<open>The two sizes a growth asks for: both hold one byte more than the text and its terminator.\<close>

lemma grow_capacity:
  fixes len :: size_t
  assumes "\<not> len > SIZE_MAX - 2"
  defines "m \<equiv> len + 2"
  shows "unat m = unat len + 2"
    and "unat len + 2 \<le> unat (if m < SIZE_MAX div 4 then m + m div 2 else m)"
proof -
  have le: "len \<le> SIZE_MAX - 2" using assms(1) by (simp only: not_less)
  have e: "unat (SIZE_MAX - 2) = 2 ^ 64 - 3"
    by (subst unat_sub_no_wrap) (simp_all add: unat_SIZE_MAX word_le_nat_alt)
  have "unat len \<le> 2 ^ 64 - 3" using le e by (simp only: word_le_nat_alt)
  then have "unat len + unat (2 :: size_t) < 2 ^ 64" by simp
  from unat_add_no_wrap [OF this] show m: "unat m = unat len + 2" by (simp add: m_def)
  show "unat len + 2 \<le> unat (if m < SIZE_MAX div 4 then m + m div 2 else m)"
  proof (cases "m < SIZE_MAX div 4")
    case True
    have "unat (m div 2) = unat m div 2" by (simp add: unat_div)
    moreover have "unat m < (2 ^ 64 - 1) div 4"
      using True by (simp add: word_less_nat_alt unat_div unat_SIZE_MAX)
    ultimately have "unat (m + m div 2) = unat m + unat m div 2"
      by (subst unat_add_no_wrap) simp_all
    with True m show ?thesis by simp
  qed (simp add: m)
qed

lemma line_partial_moved:
  assumes lp: "line_partial owned s n got w" and lt: "length got + 2 \<le> unat n'" and q: "q \<noteq> NULL"
    and b: "blocks w' q = Some (resized (unat n') (case blocks w s of None \<Rightarrow> [] | Some cs \<Rightarrow> cs))"
    and o: "owned w' q" and le: "unat n' \<le> SSIZE_MAX"
  shows "line_partial owned q n' got w'"
proof (cases "got = []")
  case True
  with assms show ?thesis by (simp add: line_partial_def line_buffer_def)
next
  case False
  with lp obtain cs where cs: "blocks w s = Some cs" "take (length got) cs = map Some got"
    by (auto simp: line_partial_def)
  then have "length got \<le> length cs" by (metis length_map length_take min.absorb_iff2 nle_le)
  with cs lt have "take (length got) (resized (unat n') cs) = map Some got" by (simp add: take_resized)
  with cs assms show ?thesis by (simp add: line_partial_def line_buffer_def)
qed

lemma line_partial_write:
  assumes "line_partial owned s n got w" "s \<noteq> NULL" "length got + 1 < unat n"
    and b: "blocks w s = Some cs" "blocks w' = (blocks w)(s \<mapsto> overwrite (length got) [Some c] cs)"
    and o: "owned w' = owned w"
  shows "line_partial owned s n (got @ [c]) w'"
proof -
  have cs: "unat n \<le> length cs" "take (length got) cs = map Some got"
    using assms by (auto simp: line_partial_def line_buffer_def)
  have "take (length got + length [Some c]) (overwrite (length got) [Some c] cs)
      = take (length got) cs @ [Some c]"
    using cs assms(3) by (intro take_overwrite_end) linarith
  with cs assms show ?thesis by (auto simp: line_partial_def line_buffer_def)
qed

lemma sint_of_nat_small:
  assumes "k \<le> SSIZE_MAX" shows "sint (of_nat k :: size_t) = int k"
proof -
  have "sint (of_nat k :: size_t) = signed_take_bit 63 (int k)"
    by (simp add: signed_of_nat)
  also have "\<dots> = int k"
  proof (rule signed_take_bit_int_eq_self)
    have "k < 2 ^ 63" using assms by simp
    then have "int k < int (2 ^ 63)" by (simp only: of_nat_less_iff)
    then show "int k < 2 ^ 63" by simp
  qed simp
  finally show ?thesis .
qed

lemma funlockfile_simps [simp]:
  "st_input (funlockfile f) = st_input f" "st_error (funlockfile f) = st_error f"
  "st_locks (funlockfile f) = st_locks f - 1"
  by (simp_all add: funlockfile_def)

context c_allocator
begin

lemma getdelim_finish_law:
  assumes inv: "inv w" and lp: "line_partial owned s n got w" and s: "s \<noteq> NULL" "got \<noteq> []"
  shows "wp E (getdelim_finish s n (of_nat (length got)) f w)
    (\<lambda>((ret, s', n'), f', w'). inv w' \<and> replaced owned s w s' w' \<and> line_buffer owned s' n' w'
      \<and> f' = funlockfile f \<and> ret = int (length got)
      \<and> (\<exists>cs. blocks w' s' = Some cs \<and> take (length got + 1) cs = map Some (got @ [0])))"
proof -
  obtain cs where cs: "blocks w s = Some cs" "unat n \<le> length cs" "length cs \<le> SSIZE_MAX"
      "length got < unat n" "take (length got) cs = map Some got" "owned w s"
    using lp s by (auto simp: line_partial_def line_buffer_def)
  have len: "unat (of_nat (length got) :: size_t) = length got" using lp by (rule line_partial_unat)
  have ret: "sint (of_nat (length got) :: size_t) = int (length got)"
    using cs by (intro sint_of_nat_small) linarith
  have "wp E (write_cells s (length got) [Some 0] w) (\<lambda>w'. inv w' \<and> owned w' = owned w \<and> room w' = room w
    \<and> blocks w' = (blocks w)(s \<mapsto> overwrite (length got) [Some 0] cs) \<and> errno w' = errno w)"
    using inv cs by (intro write_law) auto
  moreover have "take (length got + 1) (overwrite (length got) [Some 0] cs) = map Some (got @ [0])"
    using take_overwrite_end [of "length got" cs "[Some 0]"] cs by simp
  ultimately show ?thesis
    unfolding getdelim_finish_def len ret wp_bind
    by (elim wp_conseq) (use cs in \<open>auto simp: line_buffer_def intro: replaced_same\<close>)
qed

lemma grow_line_buffer_law:
  assumes inv: "inv w" and lp: "line_partial owned s n got w"
  shows "wp (s = NULL \<and> room w = 0) (ao_grow_line_buffer realloc s n (of_nat (length got)) w)
    (\<lambda>((rc, s', n'), w'). inv w' \<and>
       (if rc = 0 then replaced owned s w s' w' \<and> line_partial owned s' n' got w' \<and> s' \<noteq> NULL
            \<and> length got + 1 < unat n'
        else s' = s \<and> n' = n \<and> blocks w' = blocks w \<and> owned w' = owned w \<and> errno w' = ENOMEM))"
proof (cases "of_nat (length got) > SIZE_MAX - 2")
  case True
  with inv show ?thesis by (simp add: ao_grow_line_buffer_def errno_laws)
next
  case False
  let ?len = "of_nat (length got) :: size_t"
  define m where "m = ?len + 2"
  define big where "big = (if m < SIZE_MAX div 4 then m + m div 2 else m)"
  have len: "unat ?len = length got" using lp by (rule line_partial_unat)
  have m: "length got + 2 \<le> unat m" "length got + 2 \<le> unat big"
    using grow_capacity [OF False] len unfolding big_def m_def by simp_all
  then have z: "m \<noteq> 0" "big \<noteq> 0" by auto
  have s: "s \<noteq> NULL \<Longrightarrow> owned w s \<and> blocks w s \<noteq> None"
    using lp by (auto simp: line_partial_def line_buffer_def)
  show ?thesis
    unfolding ao_grow_line_buffer_def if_not_P [OF False] Let_def m_def [symmetric] big_def [symmetric]
  proof (rule wp_bindI [OF realloc_buffer_law [OF inv z(2) s]], assumption, goal_cases)
    case (2 x)
    obtain q u where x: "x = (q, u)" by (cases x)
    show ?case
    proof (cases "q = NULL")
      case False
      with 2 x m(2) line_partial_moved [OF lp m(2) False] show ?thesis by auto
    next
      case True
      with 2 x have u: "inv u" "blocks u = blocks w" "owned u = owned w" "room w \<le> room u" by auto
      have lpu: "line_partial owned s n got u"
        using lp u by (simp add: line_partial_def line_buffer_def)
      have rp: "replaced owned s u p v \<Longrightarrow> replaced owned s w p v" for p v
        using u by (simp add: replaced_def)
      have "wp (s = NULL \<and> room u = 0) (realloc s m u) (\<lambda>(q, w'). inv w' \<and>
        (if q = NULL then blocks w' = blocks u \<and> owned w' = owned u \<and> room u \<le> room w' \<and> errno w' = ENOMEM
         else replaced owned s u q w' \<and> owned w' q \<and> unat m \<le> SSIZE_MAX
           \<and> blocks w' q = Some (resized (unat m) (case blocks u s of None \<Rightarrow> [] | Some cs \<Rightarrow> cs))))"
        using u(1) z(1) s u(2,3) by (intro realloc_buffer_law) auto
      then show ?thesis
        unfolding x prod.case if_P [OF True]
      proof (rule wp_bindI, goal_cases)
        case (2 y)
        then show ?case
          using m(1) u rp line_partial_moved [OF lpu m(1)] by (cases y) (auto simp: errno_laws)
      qed (use u in auto)
    qed
  qed auto
qed

text \<open>One step of the loop: the buffer has room for one more byte, or the growth failed.\<close>

lemma getdelim_room_law:
  assumes inv: "inv w" and lp: "line_partial owned s n got w"
  defines "len \<equiv> of_nat (length got)"
  shows "wp (s = NULL \<and> room w = 0)
    (if len + 1 \<ge> n then ao_grow_line_buffer realloc s n len w else Done ((0, s, n), w))
    (\<lambda>((rc, s', n'), w'). inv w' \<and> replaced owned s w s' w' \<and> line_buffer owned s' n' w' \<and>
       (if rc = 0 then line_partial owned s' n' got w' \<and> s' \<noteq> NULL \<and> length got + 1 < unat n'
        else errno w' = ENOMEM))"
proof (cases "len + 1 \<ge> n")
  case True
  have lb: "line_buffer owned s n w'" if "blocks w' = blocks w" "owned w' = owned w" for w'
    using lp that by (simp add: line_partial_def line_buffer_def)
  show ?thesis
    unfolding if_P [OF True]
    using grow_line_buffer_law [OF inv lp, folded len_def] lb
    by (auto elim!: wp_conseq simp: line_partial_def replaced_def split: if_splits)
next
  case False
  have len: "unat len = length got" unfolding len_def using lp by (rule line_partial_unat)
  have "length got + 1 < 2 ^ 64"
  proof (cases "got = []")
    case False
    with lp have "length got < unat n" by (simp add: line_partial_def)
    then show ?thesis using unsigned_less [where 'a = nat, of n] by simp
  qed simp
  then have "unat (len + 1) = length got + 1" using len by (subst unat_add_no_wrap) simp_all
  with False have lt: "length got + 1 < unat n" by (simp add: word_le_nat_alt)
  then have "s \<noteq> NULL" using lp by (auto simp: line_partial_def)
  with lp lt inv show ?thesis
    unfolding if_not_P [OF False] by (simp add: line_partial_def)
qed

lemma getdelim_loop_law:
  assumes "inv w" "line_partial owned s n got w" "split_line delim (st_input f) = (l, r, hit)"
  shows "wp (s = NULL \<and> room w = 0) (getdelim_loop realloc delim s n (of_nat (length got)) f w)
    (\<lambda>((ret, s', n'), f', w'). inv w' \<and> replaced owned s w s' w' \<and> line_buffer owned s' n' w'
      \<and> st_locks f' = st_locks f - 1 \<and> line_result owned (got @ l, r, hit) ret s' f' w')"
  using assms
proof (induction "st_input f" arbitrary: w s n got f l)
  case Nil
  note inp = Nil.hyps [symmetric]
  have [simp]: "l = []" "r = []" "\<not> hit" using Nil.prems(3) by (simp_all add: inp)
  obtain f' where f': "getc_unlocked f = (EOF, f')" "st_input f' = []" "st_locks f' = st_locks f"
    by (simp add: getc_unlocked_def inp)
  show ?case
    unfolding getdelim_loop.simps [of _ _ _ _ _ f]
  proof (rule wp_bindI [OF getdelim_room_law [OF Nil.prems(1,2)]], assumption, goal_cases)
    case (1 x)
    obtain rc s' n' u where x: "x = ((rc, s', n'), u)" by (metis surj_pair)
    with 1 have u: "inv u" "replaced owned s w s' u" "line_buffer owned s' n' u" by auto
    show ?case
    proof (cases "rc = 0 \<and> got \<noteq> [] \<and> \<not> st_error f'")
      case True
      with 1 x have lp: "line_partial owned s' n' got u" "s' \<noteq> NULL" by auto
      have ne: "(of_nat (length got) :: size_t) \<noteq> 0"
        using line_partial_unat [OF lp(1)] True by auto
      from getdelim_finish_law [OF u(1) lp conjunct1 [OF conjunct2 [OF True]], of "s = NULL \<and> room w = 0" f']
      have "wp (s = NULL \<and> room w = 0) (getdelim_finish s' n' (of_nat (length got)) f' u)
        (\<lambda>((ret, s', n'), f', w'). inv w' \<and> replaced owned s w s' w' \<and> line_buffer owned s' n' w'
          \<and> st_locks f' = st_locks f - 1 \<and> line_result owned (got @ l, r, hit) ret s' f' w')"
        by (elim wp_conseq) (use f' True in \<open>auto simp: line_result_def intro: replaced_trans [OF u(2)]\<close>)
      with True x f' ne show ?thesis by simp
    next
      case False
      with 1 x u f' show ?thesis
        by (auto simp: line_result_def split: if_splits)
    qed
  qed
next
  case (Cons b bs)
  note inp = Cons.hyps(2) [symmetric]
  obtain l' where l': "if uint b = delim then l = [b] \<and> r = bs \<and> hit
      else l = b # l' \<and> split_line delim bs = (l', r, hit)"
    using Cons.prems(3) by (auto simp: inp split: if_splits prod.splits)
  define f' where "f' = f\<lparr>st_input := bs\<rparr>"
  have f': "getc_unlocked f = (uint b, f')" "st_input f' = bs" "st_locks f' = st_locks f" "uint b \<noteq> EOF"
    using uint_not_EOF by (simp_all add: getc_unlocked_def f'_def inp)
  show ?case
    unfolding getdelim_loop.simps [of _ _ _ _ _ f]
  proof (rule wp_bindI [OF getdelim_room_law [OF Cons.prems(1,2)]], assumption, goal_cases)
    case (1 x)
    obtain rc s' n' u where x: "x = ((rc, s', n'), u)" by (metis surj_pair)
    with 1 have u: "inv u" "replaced owned s w s' u" "line_buffer owned s' n' u" by auto
    show ?case
    proof (cases "rc = 0")
      case False
      with 1 x u show ?thesis by (simp add: line_result_def)
    next
      case True
      with 1 x have lp: "line_partial owned s' n' got u" "s' \<noteq> NULL" "length got + 1 < unat n'" by auto
      then obtain cs where cs: "blocks u s' = Some cs" "unat n' \<le> length cs"
        by (auto simp: line_partial_def line_buffer_def)
      have len: "unat (of_nat (length got) :: size_t) = length got"
        "(of_nat (length got) + 1 :: size_t) = of_nat (length (got @ [b]))"
        using line_partial_unat [OF lp(1)] by simp_all
      have wr: "wp E (write_cells s' (length got) [Some b] u) (\<lambda>w'. inv w' \<and> owned w' = owned u \<and> room w' = room u
        \<and> blocks w' = (blocks u)(s' \<mapsto> overwrite (length got) [Some b] cs) \<and> errno w' = errno u)" for E
        using u(1) cs lp(3) by (intro write_law) auto
      have step: "wp E (if uint b = delim then getdelim_finish s' n' (of_nat (length (got @ [b]))) f' v
            else getdelim_loop realloc delim s' n' (of_nat (length (got @ [b]))) f' v)
          (\<lambda>((ret, s'', n''), f'', w'). inv w' \<and> replaced owned s w s'' w' \<and> line_buffer owned s'' n'' w'
            \<and> st_locks f'' = st_locks f - 1 \<and> line_result owned (got @ l, r, hit) ret s'' f'' w')"
        if v: "inv v" "owned v = owned u" "blocks v = (blocks u)(s' \<mapsto> overwrite (length got) [Some b] cs)" for v E
      proof -
        have lpv: "line_partial owned s' n' (got @ [b]) v"
          using lp cs(1) v(2,3) by (intro line_partial_write)
        have rp: "replaced owned s w s' v"
          using replaced_trans [OF u(2) replaced_same [OF v(3,2)]] .
        show ?thesis
        proof (cases "uint b = delim")
          case True
          have ret: "int (length (got @ [b])) \<noteq> -1" by simp
          have "got @ [b] \<noteq> []" by simp
          from getdelim_finish_law [OF v(1) lpv lp(2) this, of E f'] show ?thesis
            unfolding if_P [OF True]
            by (elim wp_conseq) (use True l' f' ret in \<open>auto simp: line_result_def intro: replaced_trans [OF rp]\<close>)
        next
          case False
          with l' have l: "l = b # l'" "split_line delim (st_input f') = (l', r, hit)"
            using f'(2) by simp_all
          from Cons.hyps(1) [OF f'(2) [symmetric] v(1) lpv l(2)] show ?thesis
            unfolding if_not_P [OF False]
            by (elim wp_conseq) (use l f' lp(2) in \<open>auto intro: replaced_trans [OF rp]\<close>)
        qed
      qed
      show ?thesis
        unfolding x prod.case True f'(1) len(2) if_not_P [OF f'(4)] simp_thms if_False len(1) word_of_int_uint
        by (rule wp_bindI [OF wr]) (assumption, rule step, simp_all)
    qed
  qed
qed

lemma getdelim_law:
  assumes "inv w" "line_buffer owned s n w"
  shows "wp (s = NULL \<and> room w = 0) (getdelim realloc (Some s) (Some n) delim f w)
    (\<lambda>((ret, s', n'), f', w'). s' \<noteq> None \<and> n' \<noteq> None \<and> inv w' \<and> replaced owned s w (the s') w'
      \<and> line_buffer owned (the s') (the n') w' \<and> st_locks f' = st_locks f
      \<and> line_result owned (split_line delim (st_input f)) ret (the s') f' w')"
proof -
  obtain l r hit where l: "split_line delim (st_input (flockfile f)) = (l, r, hit)"
    by (metis surj_pair)
  have "line_partial owned s (if s = NULL then 0 else n) [] w"
    using assms(2) by (simp add: line_partial_def line_buffer_def)
  from getdelim_loop_law [OF assms(1) this l]
  have "wp (s = NULL \<and> room w = 0)
      (getdelim_loop realloc delim s (if s = NULL then 0 else n) 0 (flockfile f) w)
      (\<lambda>((ret, s', n'), f', w'). inv w' \<and> replaced owned s w s' w' \<and> line_buffer owned s' n' w'
        \<and> st_locks f' = st_locks f \<and> line_result owned (split_line delim (st_input f)) ret s' f' w')"
    using l [unfolded flockfile_def] unfolding flockfile_def list.size(3) of_nat_0
    by (auto elim!: wp_conseq)
  then show ?thesis
    unfolding getdelim_def prod.case option.case
    by (rule wp_bindI) auto
qed

end

section \<open>Reading into a buffer that is large enough\<close>

text \<open>No allocation: the line is read into the caller's buffer, whatever the allocator.\<close>

lemma getdelim_loop_in_place:
  assumes "split_line delim (st_input f) = (l, r, hit)" "got @ l \<noteq> []"
    and "hit \<or> \<not> st_error f \<and> \<not> st_fails f"
    and "length got + length l + 1 < unat n" "unat n \<le> SSIZE_MAX"
  shows "getdelim_loop realloc delim s n (of_nat (length got)) f w =
    obind (write_cells s (length got) (map Some (l @ [0])) w) (\<lambda>w.
      Done ((int (length got + length l), s, n), f\<lparr>st_input := r, st_locks := st_locks f - 1\<rparr>, w))"
  using assms
proof (induction "st_input f" arbitrary: w got f l)
  case Nil
  note inp = Nil.hyps [symmetric]
  have [simp]: "l = []" "r = []" "\<not> hit" using Nil.prems(1) by (simp_all add: inp)
  have len: "unat (of_nat (length got) :: size_t) = length got"
    "unat (of_nat (length got) + 1 :: size_t) = length got + 1"
    using Nil.prems(4,5) unat_of_nat_lt [of "length got"] unat_Suc_of_nat [of "length got"] by simp_all
  have big: "\<not> n \<le> of_nat (length got) + 1" "of_nat (length got) \<noteq> (0 :: size_t)"
    using Nil.prems(2,4) len by (auto simp: word_le_nat_alt)
  have f: "getc_unlocked f = (EOF, f)" "\<not> st_error f"
    using Nil.prems(3) inp by (simp_all add: getc_unlocked_def)
  have ret: "sint (of_nat (length got) :: size_t) = int (length got)"
    using Nil.prems(4,5) by (intro sint_of_nat_small) linarith
  have "f\<lparr>st_input := r\<rparr> = f" using inp by simp
  then have "f\<lparr>st_input := r, st_locks := st_locks f - 1\<rparr> = funlockfile f"
    by (simp add: funlockfile_def)
  with big f show ?case
    by (simp add: getdelim_loop.simps [of _ _ _ _ _ f] getdelim_finish_def len ret)
next
  case (Cons b bs)
  note inp = Cons.hyps(2) [symmetric]
  let ?f = "f\<lparr>st_input := bs\<rparr>" and ?len = "of_nat (length got) :: size_t"
  obtain l' where l: "l = b # l'" "if uint b = delim then l' = [] \<and> r = bs \<and> hit
      else split_line delim bs = (l', r, hit)"
    using Cons.prems(1) by (auto simp: inp split: if_splits prod.splits)
  have len: "unat ?len = length got" "unat (?len + 1) = length got + 1" "?len + 1 = of_nat (length (got @ [b]))"
    using Cons.prems(4,5) unat_of_nat_lt [of "length got"] unat_Suc_of_nat [of "length got"] by simp_all
  have big: "\<not> n \<le> ?len + 1"
    using Cons.prems(4) l(1) unfolding word_le_nat_alt len(2) by simp
  have "getdelim_loop realloc delim s n ?len f w =
      obind (write_cells s (length got) [Some b] w) (\<lambda>w.
        if uint b = delim then getdelim_finish s n (?len + 1) ?f w
        else getdelim_loop realloc delim s n (?len + 1) ?f w)"
    using big inp len(1) uint_not_EOF
    by (simp add: getdelim_loop.simps [of _ _ _ _ _ f] getc_unlocked_def)
  also have "(\<lambda>w. if uint b = delim then getdelim_finish s n (?len + 1) ?f w
        else getdelim_loop realloc delim s n (?len + 1) ?f w)
      = (\<lambda>w. obind (write_cells s (length got + 1) (map Some (l' @ [0])) w) (\<lambda>w.
          Done ((int (length got + length l), s, n), f\<lparr>st_input := r, st_locks := st_locks f - 1\<rparr>, w)))"
  proof (cases "uint b = delim")
    case True
    have "sint (of_nat (length (got @ [b])) :: size_t) = int (length (got @ [b]))"
      using Cons.prems(4,5) l(1) by (intro sint_of_nat_small) simp
    then have "getdelim_finish s n (?len + 1) ?f w
      = obind (write_cells s (length got + 1) [Some 0] w) (\<lambda>w.
          Done ((int (length (got @ [b])), s, n), funlockfile ?f, w))" for w :: "'a libc_scheme"
      unfolding getdelim_finish_def len(2) by (simp only: len(3))
    then show ?thesis
      using True l by (simp add: funlockfile_def fun_eq_iff)
  next
    case False
    have "getdelim_loop realloc delim s n (of_nat (length (got @ [b]))) ?f w =
      obind (write_cells s (length (got @ [b])) (map Some (l' @ [0])) w) (\<lambda>w.
        Done ((int (length (got @ [b]) + length l'), s, n),
          ?f\<lparr>st_input := r, st_locks := st_locks ?f - 1\<rparr>, w))" for w
      using False l Cons.prems by (intro Cons.hyps(1)) auto
    then show ?thesis
      unfolding len(3) using False l(1) by (simp add: fun_eq_iff)
  qed
  finally show ?case
    using write_cells_append [of s "length got" "[Some b]" w "map Some (l' @ [0])"] l(1)
    by (simp add: obind_assoc [symmetric])
qed

lemma getdelim_in_place:
  assumes "split_line delim (st_input f) = (l, r, hit)" "l \<noteq> []" "hit \<or> \<not> st_error f \<and> \<not> st_fails f"
    and "length l + 1 < unat n" "unat n \<le> length cs" "length cs \<le> SSIZE_MAX"
    and "blocks w s = Some cs" "s \<noteq> NULL"
  shows "getdelim realloc (Some s) (Some n) delim f w =
    Done ((int (length l), Some s, Some n), f\<lparr>st_input := r\<rparr>,
      w\<lparr>blocks := (blocks w)(s \<mapsto> overwrite 0 (map Some (l @ [0])) cs)\<rparr>)"
  using getdelim_loop_in_place [of delim "flockfile f" l r hit "[]" n realloc s w] assms
  by (simp add: getdelim_def flockfile_def write_cells_Done)

end
