(* ===== verification/Memstream_Overrides.thy ===== *)
theory Memstream_Overrides
  imports Line_Overrides
begin

text \<open>
  \<open>src/memstream_overrides.c\<close>: the narrow memory stream \<open>open_memstream\<close>. The cookie is a record; the two variables of the
  caller it points to, \<open>*bufp\<close> and \<open>*sizep\<close>, are its last two fields. libc's \<open>fopencookie\<close> is a parameter.
\<close>

record ao_memstream_cookie =
  ck_pos :: size_t
  ck_buf :: ptr
  ck_len :: size_t
  ck_space :: size_t
  out_buf :: ptr
  out_size :: size_t

definition sizeof_ao_memstream_cookie :: size_t where [layout]: "sizeof_ao_memstream_cookie = 48"

definition ao_memstream_grow ::
  "'a realloc_fn \<Rightarrow> ao_memstream_cookie \<Rightarrow> size_t \<Rightarrow> 'a libc_scheme
   \<Rightarrow> ((int \<times> ao_memstream_cookie) \<times> 'a libc_scheme) outcome" where
  "ao_memstream_grow realloc cookie len w =
     (if ck_pos cookie > SIZE_MAX - len - 1 then Done ((-1, cookie), w\<lparr>errno := ENOMEM\<rparr>)
      else let required = ck_pos cookie + len + 1
      in if required \<le> ck_space cookie then Done ((0, cookie), w)
      else let doubled = (if ck_space cookie > (SIZE_MAX - 1) div 2 then SIZE_MAX
                          else 2 * ck_space cookie + 1);
               new_space = doubled OR required;
               new_space = (if new_space < required then required else new_space)
      in obind (realloc (ck_buf cookie) new_space w) (\<lambda>(new_buf, w).
           if new_buf = NULL then Done ((-1, cookie), w)
           else obind (write_cells new_buf (unat (ck_space cookie))
                         (replicate (unat (new_space - ck_space cookie)) (Some 0)) w) (\<lambda>w.
                  Done ((0, cookie\<lparr>ck_buf := new_buf, ck_space := new_space, out_buf := new_buf\<rparr>), w))))"

text \<open>\<open>data\<close> is what stdio hands to the write callback; the result is the return value.\<close>

definition ao_memstream_write ::
  "'a realloc_fn \<Rightarrow> ao_memstream_cookie \<Rightarrow> byte list \<Rightarrow> 'a libc_scheme
   \<Rightarrow> ((int \<times> ao_memstream_cookie) \<times> 'a libc_scheme) outcome" where
  "ao_memstream_write realloc cookie data w =
     (let len = of_nat (length data)
      in obind (ao_memstream_grow realloc cookie len w) (\<lambda>((rc, cookie), w).
           if rc \<noteq> 0 then Done ((0, cookie), w)
           else obind (if len \<noteq> 0 then write_cells (ck_buf cookie) (unat (ck_pos cookie)) (map Some data) w
                       else Done w) (\<lambda>w.
             let pos = ck_pos cookie + len
             in Done ((sint len, cookie\<lparr>ck_pos := pos,
                        ck_len := (if pos \<ge> ck_len cookie then pos else ck_len cookie),
                        out_size := pos\<rparr>), w))))"

text \<open>\<open>off_t\<close> arithmetic that leaves the 64-bit range is undefined.\<close>

definition off_t_range :: "int \<Rightarrow> bool" where
  "off_t_range x \<longleftrightarrow> - (2 ^ 63) \<le> x \<and> x < 2 ^ 63"

definition ao_memstream_seek ::
  "ao_memstream_cookie \<Rightarrow> int \<Rightarrow> int \<Rightarrow> 'a libc_scheme
   \<Rightarrow> ((int \<times> int \<times> ao_memstream_cookie) \<times> 'a libc_scheme) outcome" where
  "ao_memstream_seek cookie offset whence w =
     (if whence < 0 \<or> whence > 2 then Done ((-1, offset, cookie), w\<lparr>errno := EINVAL\<rparr>)
      else let base = sint ([0, ck_pos cookie, ck_len cookie] ! nat whence)
      in if \<not> off_t_range (- base) then Undef
      else if offset < - base then Done ((-1, offset, cookie), w\<lparr>errno := EINVAL\<rparr>)
      else if \<not> off_t_range (int SSIZE_MAX - base) then Undef
      else if offset > int SSIZE_MAX - base then Done ((-1, offset, cookie), w\<lparr>errno := EINVAL\<rparr>)
      else Done ((0, base + offset, cookie\<lparr>ck_pos := of_int (base + offset)\<rparr>), w))"

definition ao_memstream_close :: "'a free_fn \<Rightarrow> ptr \<Rightarrow> 'a libc_scheme \<Rightarrow> (int \<times> 'a libc_scheme) outcome" where
  "ao_memstream_close free context w = obind (free context w) (\<lambda>w. Done (0, w))"

text \<open>
  The result is the stream pointer and, where the stream was set up so far, the address of the cookie
  with its content; before that the caller's variables are not assigned.
\<close>

definition open_memstream ::
  "'a malloc_fn \<Rightarrow> 'a free_fn \<Rightarrow> (ptr \<Rightarrow> 'a libc_scheme \<Rightarrow> (ptr \<times> 'a libc_scheme) outcome) \<Rightarrow> 'a libc_scheme
   \<Rightarrow> ((ptr \<times> (ptr \<times> ao_memstream_cookie) option) \<times> 'a libc_scheme) outcome" where
  "open_memstream malloc free fopencookie w =
     obind (malloc sizeof_ao_memstream_cookie w) (\<lambda>(cookie, w).
       if cookie = NULL then Done ((NULL, None), w)
       else obind (malloc 1 w) (\<lambda>(buf, w).
         if buf = NULL then obind (free cookie w) (\<lambda>w. Done ((NULL, None), w))
         else let c = \<lparr>ck_pos = 0, ck_buf = buf, ck_len = 0, ck_space = 0, out_buf = buf, out_size = 0\<rparr>
         in obind (write_cells buf 0 [Some 0] w) (\<lambda>w.
            obind (fopencookie cookie w) (\<lambda>(stream, w).
              if stream = NULL
              then obind (free buf w) (\<lambda>w. obind (free cookie w) (\<lambda>w. Done ((NULL, Some (cookie, c)), w)))
              else Done ((stream, Some (cookie, c)), w)))))"

section \<open>What the stream holds\<close>

text \<open>
  The text of the stream stands at the start of the buffer and every byte after it is zero, so the
  buffer is always a terminated string.
\<close>

definition memstream_ok ::
  "('a libc_scheme \<Rightarrow> ptr \<Rightarrow> bool) \<Rightarrow> ao_memstream_cookie \<Rightarrow> byte list \<Rightarrow> 'a libc_scheme \<Rightarrow> bool" where
  "memstream_ok owned c text w \<longleftrightarrow>
     ck_buf c \<noteq> NULL \<and> owned w (ck_buf c) \<and> out_buf c = ck_buf c
     \<and> length text = unat (ck_len c) \<and> length text < max 1 (unat (ck_space c))
     \<and> unat (ck_space c) \<le> SSIZE_MAX \<and> unat (ck_pos c) \<le> SSIZE_MAX
     \<and> blocks w (ck_buf c) =
         Some (map Some text @ replicate (max 1 (unat (ck_space c)) - length text) (Some 0))"

text \<open>The specification of a write at a position: the gap after the end is filled with zeros.\<close>

definition write_at :: "nat \<Rightarrow> 'b::zero list \<Rightarrow> 'b list \<Rightarrow> 'b list" where
  "write_at pos data text =
     take pos (text @ replicate (pos - length text) 0) @ data @ drop (pos + length data) text"

lemma length_write_at: "length (write_at pos data text) = max (length text) (pos + length data)"
  by (simp add: write_at_def)

lemma write_at_end: "write_at (length text) data text = text @ data"
  by (simp add: write_at_def)

lemma nth_write_at:
  "i < max (length text) (pos + length data) \<Longrightarrow>
   write_at pos data text ! i =
     (if i < pos then (if i < length text then text ! i else 0)
      else if i < pos + length data then data ! (i - pos) else text ! i)"
  by (auto simp: write_at_def nth_append min_def)

text \<open>Storing into a zero-filled buffer is the specified write.\<close>

lemma overwrite_write_at:
  assumes "pos + length data \<le> n" "length text \<le> n"
  shows "overwrite pos (map Some data) (map Some text @ replicate (n - length text) (Some 0))
    = map Some (write_at pos data text) @ replicate (n - length (write_at pos data text)) (Some 0)"
proof (rule nth_equalityI)
  show "length (overwrite pos (map Some data) (map Some text @ replicate (n - length text) (Some 0)))
    = length (map Some (write_at pos data text) @ replicate (n - length (write_at pos data text)) (Some 0))"
    using assms by (simp add: length_write_at)
  fix i assume "i < length (overwrite pos (map Some data) (map Some text @ replicate (n - length text) (Some 0)))"
  then have i: "i < n" using assms by simp
  show "overwrite pos (map Some data) (map Some text @ replicate (n - length text) (Some 0)) ! i
    = (map Some (write_at pos data text) @ replicate (n - length (write_at pos data text)) (Some 0)) ! i"
    using assms i
    by (cases "i < max (length text) (pos + length data)")
      (auto simp: nth_overwrite nth_append length_write_at nth_write_at)
qed

text \<open>The buffer after growing: the same text in a larger zero-filled block.\<close>

lemma overwrite_grown:
  assumes "length text < max 1 sp" "sp \<le> n" "max 1 sp \<le> n"
  shows "overwrite sp (replicate (n - sp) (Some 0))
      (resized n (map Some text @ replicate (max 1 sp - length text) (Some 0)))
    = map Some text @ replicate (n - length text) (Some 0)"
  using assms
  by (intro nth_equalityI) (auto simp: nth_overwrite resized_def nth_append)

text \<open>The size the buffer grows to.\<close>

definition grown_space :: "size_t \<Rightarrow> size_t \<Rightarrow> size_t" where
  "grown_space space required =
     (let doubled = (if space > (SIZE_MAX - 1) div 2 then SIZE_MAX else 2 * space + 1);
          new_space = doubled OR required
      in if new_space < required then required else new_space)"

lemma grown_space_ge: "required \<le> grown_space space required"
  unfolding grown_space_def Let_def using word_le_or_right by auto

lemma memstream_required:
  assumes "unat pos \<le> SSIZE_MAX" "k \<le> SSIZE_MAX"
  shows "\<not> pos > SIZE_MAX - of_nat k - 1" and "unat (pos + of_nat k + 1) = unat pos + k + 1"
proof -
  have k: "unat (of_nat k :: size_t) = k" using assms(2) by (intro unat_of_nat_lt) simp
  have le: "of_nat k \<le> SIZE_MAX" by (simp add: word_le_nat_alt unat_SIZE_MAX k) (use assms(2) in simp)
  have a: "unat (SIZE_MAX - of_nat k) = 2 ^ 64 - 1 - k"
    by (simp only: unat_sub_no_wrap [OF le] unat_SIZE_MAX k)
  have "unat (SIZE_MAX - of_nat k - 1) = 2 ^ 64 - 2 - k"
    using assms(2) a by (subst unat_sub_no_wrap) (simp_all add: word_le_nat_alt)
  then show "\<not> pos > SIZE_MAX - of_nat k - 1"
    using assms by (simp add: word_less_nat_alt not_less)
  have p: "unat (pos + of_nat k) = unat pos + k"
    using assms k by (subst unat_add_no_wrap) simp_all
  then show "unat (pos + of_nat k + 1) = unat pos + k + 1"
    using assms by (subst unat_add_no_wrap) simp_all
qed

text \<open>The code \<open>open_memstream\<close> and \<open>open_wmemstream\<close> share, with the sizes, the first content of the buffer and the
  initial cookie as arguments.\<close>

definition open_stream ::
  "size_t \<Rightarrow> size_t \<Rightarrow> cell list \<Rightarrow> (ptr \<Rightarrow> 'c) \<Rightarrow> 'a malloc_fn \<Rightarrow> 'a free_fn
   \<Rightarrow> (ptr \<Rightarrow> 'a libc_scheme \<Rightarrow> (ptr \<times> 'a libc_scheme) outcome) \<Rightarrow> 'a libc_scheme
   \<Rightarrow> ((ptr \<times> (ptr \<times> 'c) option) \<times> 'a libc_scheme) outcome" where
  "open_stream csize bsize init mk malloc free fopencookie w =
     obind (malloc csize w) (\<lambda>(cookie, w).
       if cookie = NULL then Done ((NULL, None), w)
       else obind (malloc bsize w) (\<lambda>(buf, w).
         if buf = NULL then obind (free cookie w) (\<lambda>w. Done ((NULL, None), w))
         else obind (write_cells buf 0 init w) (\<lambda>w.
            obind (fopencookie cookie w) (\<lambda>(stream, w).
              if stream = NULL
              then obind (free buf w) (\<lambda>w. obind (free cookie w) (\<lambda>w. Done ((NULL, Some (cookie, mk buf)), w)))
              else Done ((stream, Some (cookie, mk buf)), w)))))"

lemma open_memstream_eq:
  "open_memstream malloc free fopencookie w = open_stream sizeof_ao_memstream_cookie 1 [Some 0]
     (\<lambda>buf. \<lparr>ck_pos = 0, ck_buf = buf, ck_len = 0, ck_space = 0, out_buf = buf, out_size = 0\<rparr>)
     malloc free fopencookie w"
  unfolding open_memstream_def open_stream_def Let_def ..

text \<open>
  What is relied on of libc's \<open>fopencookie\<close>: a failure changes nothing, a success allocates its own objects
  and leaves the others alone.
\<close>

definition fopencookie_contract ::
  "('a libc_scheme \<Rightarrow> bool) \<Rightarrow> ('a libc_scheme \<Rightarrow> ptr \<Rightarrow> bool)
   \<Rightarrow> (ptr \<Rightarrow> 'a libc_scheme \<Rightarrow> (ptr \<times> 'a libc_scheme) outcome) \<Rightarrow> bool" where
  "fopencookie_contract good owned fc \<longleftrightarrow>
     (\<forall>cookie w. good w \<longrightarrow> wp False (fc cookie w) (\<lambda>(st, w'). good w' \<and>
        (if st = NULL then blocks w' = blocks w \<and> owned w' = owned w
         else blocks w \<subseteq>\<^sub>m blocks w' \<and> (\<forall>p. blocks w p \<noteq> None \<longrightarrow> owned w' p = owned w p))))"

context c_allocator
begin

lemma memstream_grow_law:
  assumes inv: "inv w" and ok: "memstream_ok owned c text w" and k: "k \<le> SSIZE_MAX"
  shows "wp False (ao_memstream_grow realloc c (of_nat k) w) (\<lambda>((rc, c'), w'). inv w' \<and>
    (if rc = 0
     then memstream_ok owned c' text w' \<and> replaced owned (ck_buf c) w (ck_buf c') w'
       \<and> unat (ck_pos c) + k + 1 \<le> unat (ck_space c')
       \<and> ck_pos c' = ck_pos c \<and> ck_len c' = ck_len c
     else c' = c \<and> blocks w' = blocks w \<and> owned w' = owned w \<and> errno w' = ENOMEM))"
proof -
  let ?sp = "ck_space c" and ?req = "ck_pos c + of_nat k + 1" and ?cs = "map Some text @ replicate (max 1 (unat (ck_space c)) - length text) (Some 0)"
  note okD = ok [unfolded memstream_ok_def]
  have req: "\<not> ck_pos c > SIZE_MAX - of_nat k - 1" "unat ?req = unat (ck_pos c) + k + 1"
    using memstream_required okD k by blast+
  show ?thesis
  proof (cases "?req \<le> ?sp")
    case True
    then have "unat (ck_pos c) + k + 1 \<le> unat ?sp" using req(2) by (simp add: word_le_nat_alt)
    with True req(1) ok inv show ?thesis
      by (simp add: ao_memstream_grow_def memstream_ok_def)
  next
    case False
    define n where "n = grown_space ?sp ?req"
    have n: "?req \<le> n" unfolding n_def by (rule grown_space_ge)
    with False have sp: "unat ?sp < unat n" "max 1 (unat ?sp) \<le> unat n" "n \<noteq> 0" "?sp \<le> n"
      using req(2) by (auto simp: word_le_nat_alt)
    have diff: "unat (n - ?sp) = unat n - unat ?sp" using sp(4) by (rule unat_sub_no_wrap)
    have eq: "ao_memstream_grow realloc c (of_nat k) w = obind (realloc (ck_buf c) n w) (\<lambda>(new_buf, w).
           if new_buf = NULL then Done ((-1, c), w)
           else obind (write_cells new_buf (unat ?sp) (replicate (unat (n - ?sp)) (Some 0)) w) (\<lambda>w.
                  Done ((0, c\<lparr>ck_buf := new_buf, ck_space := n, out_buf := new_buf\<rparr>), w)))"
      unfolding ao_memstream_grow_def if_not_P [OF req(1)] Let_def if_not_P [OF False]
      unfolding n_def grown_space_def Let_def ..
    have buf: "ck_buf c \<noteq> NULL \<Longrightarrow> owned w (ck_buf c) \<and> blocks w (ck_buf c) \<noteq> None" using okD by simp
    show ?thesis
      unfolding eq diff
    proof (rule wp_bindI [OF realloc_buffer_law [OF inv sp(3) buf]], assumption, goal_cases)
      case (1) then show ?case using okD by simp
    next
      case (2 x)
      obtain q u where x: "x = (q, u)" by (cases x)
      show ?case
      proof (cases "q = NULL")
        case True
        with 2 x show ?thesis by simp
      next
        case False
        with 2 x okD have u: "inv u" "replaced owned (ck_buf c) w q u" "owned u q" "unat n \<le> SSIZE_MAX"
            "blocks u q = Some (resized (unat n) ?cs)" by auto
        have "wp False (write_cells q (unat ?sp) (replicate (unat n - unat ?sp) (Some 0)) u)
          (\<lambda>w'. inv w' \<and> owned w' = owned u \<and> room w' = room u \<and> blocks w' = (blocks u)
             (q \<mapsto> overwrite (unat ?sp) (replicate (unat n - unat ?sp) (Some 0)) (resized (unat n) ?cs)) \<and> errno w' = errno u)"
          using u sp(1) by (intro write_law) simp_all
        moreover have "overwrite (unat ?sp) (replicate (unat n - unat ?sp) (Some 0)) (resized (unat n) ?cs)
            = map Some text @ replicate (max 1 (unat n) - length text) (Some 0)"
          using overwrite_grown [of "text" "unat ?sp" "unat n"] okD sp by (simp add: max_def)
        ultimately have "wp False (write_cells q (unat ?sp) (replicate (unat n - unat ?sp) (Some 0)) u)
          (\<lambda>w'. inv w' \<and> memstream_ok owned (c\<lparr>ck_buf := q, ck_space := n, out_buf := q\<rparr>) text w'
             \<and> replaced owned (ck_buf c) w q w')"
        proof (elim wp_conseq, goal_cases)
          case (2 w')
          then have "replaced owned q u q w'" by (intro replaced_same) auto
          with 2 u okD sp False show ?case
            by (auto simp: memstream_ok_def intro: replaced_trans [OF u(2)])
        qed simp
        then show ?thesis
          unfolding x prod.case if_not_P [OF False]
          using n req(2) by (elim wp_bindI) (auto simp: word_le_nat_alt)
      qed
    qed
  qed
qed

lemma memstream_write_law:
  assumes inv: "inv w" and ok: "memstream_ok owned c text w" and len: "length data \<le> SSIZE_MAX"
  shows "wp False (ao_memstream_write realloc c data w) (\<lambda>((ret, c'), w'). inv w' \<and>
    (memstream_ok owned c' (write_at (unat (ck_pos c)) data text) w' \<and> ret = int (length data)
       \<and> replaced owned (ck_buf c) w (ck_buf c') w'
       \<and> unat (ck_pos c') = unat (ck_pos c) + length data \<and> out_size c' = ck_pos c'
     \<or> ret = 0 \<and> c' = c \<and> blocks w' = blocks w \<and> owned w' = owned w \<and> errno w' = ENOMEM))"
  unfolding ao_memstream_write_def Let_def
proof (rule wp_bindI [OF memstream_grow_law [OF inv ok len]], assumption, goal_cases)
  case (1 x)
  obtain rc d u where x: "x = ((rc, d), u)" by (metis surj_pair)
  show ?case
  proof (cases "rc = 0")
    case False
    with 1 x show ?thesis by simp
  next
    case True
    let ?pos = "unat (ck_pos c)" and ?n = "length data"
    have d: "inv u" "memstream_ok owned d text u" "replaced owned (ck_buf c) w (ck_buf d) u"
        "?pos + ?n + 1 \<le> unat (ck_space d)" "ck_pos d = ck_pos c" "ck_len d = ck_len c"
      using 1 x True by auto
    note okd = d(2) [unfolded memstream_ok_def]
    have mx: "max 1 (unat (ck_space d)) = unat (ck_space d)" using d(4) by simp
    let ?cs = "map Some text @ replicate (unat (ck_space d) - length text) (Some 0)"
    let ?new = "write_at ?pos data text"
    have b: "blocks u (ck_buf d) = Some ?cs" "length ?cs = unat (ck_space d)" "length text < unat (ck_space d)"
      using okd mx by auto
    have ret: "sint (of_nat ?n :: size_t) = int ?n" using len by (rule sint_of_nat_small)
    have k: "unat (of_nat ?n :: size_t) = ?n" using len by (intro unat_of_nat_lt) simp
    have pos: "unat (ck_pos c + of_nat ?n) = ?pos + ?n"
      using k d(4) unsigned_less [where 'a = nat, of "ck_space d"] by (subst unat_add_no_wrap) simp_all
    have wr: "wp False (if of_nat ?n \<noteq> (0 :: size_t) then write_cells (ck_buf d) (unat (ck_pos d)) (map Some data) u
          else Done u)
        (\<lambda>w'. inv w' \<and> owned w' = owned u \<and> blocks w' = (blocks u)(ck_buf d \<mapsto>
          map Some ?new @ replicate (unat (ck_space d) - length ?new) (Some 0)))"
    proof -
      have "wp False (write_cells (ck_buf d) ?pos (map Some data) u) (\<lambda>w'. inv w' \<and> owned w' = owned u \<and> room w' = room u
        \<and> blocks w' = (blocks u)(ck_buf d \<mapsto> overwrite ?pos (map Some data) ?cs) \<and> errno w' = errno u)"
        using d b by (intro write_law) simp_all
      moreover have ow: "overwrite ?pos (map Some data) ?cs
          = map Some ?new @ replicate (unat (ck_space d) - length ?new) (Some 0)"
        using d(4) b(3) by (intro overwrite_write_at) simp_all
      ultimately have w1: "wp False (write_cells (ck_buf d) ?pos (map Some data) u)
        (\<lambda>w'. inv w' \<and> owned w' = owned u \<and> blocks w' = (blocks u)(ck_buf d \<mapsto>
          map Some ?new @ replicate (unat (ck_space d) - length ?new) (Some 0)))"
        by (simp only:) (elim wp_conseq, simp_all)
      have n0: "of_nat ?n = (0 :: size_t) \<longleftrightarrow> data = []"
        using unat_eq_zero [of "of_nat ?n :: size_t"] unfolding k by simp
      show ?thesis
      proof (cases "data = []")
        case True
        then have "(blocks u)(ck_buf d \<mapsto> map Some ?new @ replicate (unat (ck_space d) - length ?new) (Some 0)) = blocks u"
          using ow b(1) by (simp add: fun_upd_idem)
        with True d(1) show ?thesis by simp
      next
        case False
        with w1 n0 d(5) show ?thesis by simp
      qed
    qed
    have ln: "length ?new = unat (if ck_len c \<le> ck_pos c + of_nat ?n then ck_pos c + of_nat ?n else ck_len c)"
      using okd d(6) pos by (simp add: length_write_at word_le_nat_alt max_def)
    let ?d = "d\<lparr>ck_pos := ck_pos c + of_nat ?n, ck_len :=
        if ck_len c \<le> ck_pos c + of_nat ?n then ck_pos c + of_nat ?n else ck_len c,
        out_size := ck_pos c + of_nat ?n\<rparr>"
    have fin: "memstream_ok owned ?d ?new v \<and> replaced owned (ck_buf c) w (ck_buf d) v"
      if v: "owned v = owned u" "blocks v = (blocks u)(ck_buf d \<mapsto>
        map Some ?new @ replicate (unat (ck_space d) - length ?new) (Some 0))" for v
    proof
      show "replaced owned (ck_buf c) w (ck_buf d) v"
        by (rule replaced_trans [OF d(3) replaced_same [OF v(2,1)]])
      have "unat (ck_pos c + of_nat ?n) \<le> SSIZE_MAX" using pos d(4) okd by simp
      moreover have "length ?new < unat (ck_space d)" using b(3) d(4) by (simp add: length_write_at)
      ultimately show "memstream_ok owned ?d ?new v"
        unfolding memstream_ok_def using v okd ln mx by simp
    qed
    show ?thesis
      unfolding x prod.case True ret d(5,6) simp_thms if_False
    proof (rule wp_bindI [OF wr [unfolded d(5)]], assumption, goal_cases)
      case (1 v)
      with fin [of v] pos show ?case by simp
    qed
  qed
qed

text \<open>
  Opening a stream gives two fresh blocks, the cookie and the initial buffer, or \<open>NULL\<close> with every block
  it took released.
\<close>

lemma open_stream_law:
  assumes inv: "inv w" and fc: "fopencookie_contract inv owned fopencookie" and bs: "unat bsize = length init"
  shows "wp (room w \<le> 1) (open_stream csize bsize init mk malloc free fopencookie w) (\<lambda>((stream, r), w'). inv w' \<and> grows owned w w' \<and>
    (if stream = NULL then blocks w' = blocks w
     else \<exists>cookie buf. r = Some (cookie, mk buf) \<and> buf \<noteq> NULL \<and> owned w' cookie \<and> owned w' buf
       \<and> blocks w' buf = Some init \<and> blocks w cookie = None \<and> blocks w buf = None \<and> cookie \<noteq> buf
       \<and> blocks w \<subseteq>\<^sub>m blocks w'))"
  unfolding open_stream_def
proof (rule wp_bindI [OF malloc_law [OF inv]], simp, goal_cases)
  case (1 x)
  have restored: "grows owned w w'"
    if "blocks w' = blocks w" "\<And>q. blocks w q \<noteq> None \<Longrightarrow> owned w' q = owned w q" for w'
    using that by (simp add: grows_def)
  obtain cookie u where x: "x = (cookie, u)" by (cases x)
  show ?case
  proof (cases "cookie = NULL")
    case True
    with 1 x show ?thesis by (simp add: malloc_result_def grows_def)
  next
    case False
    with 1 x have u: "inv u" "blocks w cookie = None" "owned u cookie" "room w \<le> Suc (room u)"
        "blocks u = (blocks w)(cookie \<mapsto> replicate (unat csize) None)" "owned u = (owned w)(cookie := True)"
      by (auto simp: malloc_result_def)
    have E: "room u = 0 \<Longrightarrow> room w \<le> 1" using u(4) by simp
    show ?thesis
      unfolding x prod.case if_not_P [OF False]
    proof (rule wp_bindI [OF malloc_law [OF u(1)] E], assumption, goal_cases)
      case (1 y)
      obtain buf v where y: "y = (buf, v)" by (cases y)
      show ?case
      proof (cases "buf = NULL")
        case True
        with 1 y u have v: "inv v" "owned v cookie" "blocks v cookie \<noteq> None" "blocks v = blocks u" "owned v = owned u"
          by (auto simp: malloc_result_def)
        with False have "wp False (free cookie v) (\<lambda>w'. inv w' \<and> grows owned w w' \<and> blocks w' = blocks w)"
          using free_law [OF v(1,2) False] u(2,5,6) by (auto elim!: wp_conseq intro!: restored simp: fun_upd_idem split: if_splits)
        with y True show ?thesis by (auto elim: wp_bindI)
      next
        case ne: False
        from ne 1 y have v: "inv v" "blocks u buf = None" "owned v = (owned u)(buf := True)"
            "blocks v = (blocks u)(buf \<mapsto> replicate (length init) None)"
          by (auto simp: malloc_result_def bs)
        have bc: "buf \<noteq> cookie" using v(2) u(5) by auto
        have bw: "blocks w buf = None" using v(2) u(5) bc by simp
        have wr: "wp E (write_cells buf 0 init v) (\<lambda>w'. inv w' \<and> owned w' = owned v
            \<and> blocks w' = (blocks u)(buf \<mapsto> init))" for E
          using write_law [OF v(1), of buf "replicate (length init) None" 0 init E] v(4)
          by (auto elim!: wp_conseq simp: overwrite_full)
        have undo: "wp False (free buf t) (\<lambda>w1. wp False (free cookie w1) (\<lambda>w'. inv w' \<and> grows owned w w' \<and> blocks w' = blocks w))"
          if t: "inv t" "owned t = owned v" "blocks t = (blocks u)(buf \<mapsto> init)" for t
        proof (rule wp_conseq [OF free_law [OF t(1) _ ne]], goal_cases)
          case (4 w1)
          then have "inv w1" "owned w1 cookie" "blocks w1 cookie \<noteq> None" "blocks w1 = blocks u"
              "owned w1 = ((owned u)(buf := True))(buf := False)"
            using t v u bc by (auto simp: fun_upd_idem)
          then show ?case
            using free_law [of w1 cookie] False u(2,5,6) bw
            by (auto elim!: wp_conseq intro!: restored simp: fun_upd_idem split: if_splits)
        qed (use t v in auto)
        show ?thesis
          unfolding y prod.case if_not_P [OF ne] Let_def
        proof (rule wp_bindI [OF wr], assumption, goal_cases)
          case (1 t)
          have "wp False (fopencookie cookie t) (\<lambda>(st, w'). inv w' \<and>
              (if st = NULL then blocks w' = blocks t \<and> owned w' = owned t
               else blocks t \<subseteq>\<^sub>m blocks w' \<and> (\<forall>p. blocks t p \<noteq> None \<longrightarrow> owned w' p = owned t p)))"
            using fc 1 by (simp add: fopencookie_contract_def)
          then show ?case
          proof (rule wp_bindI, simp, goal_cases)
            case (1 z)
            obtain st z' where z: "z = (st, z')" by (cases z)
            show ?case
            proof (cases "st = NULL")
              case True
              with 1 z \<open>inv t \<and> owned t = owned v \<and> blocks t = (blocks u)(buf \<mapsto> init)\<close>
              have "wp False (free buf z') (\<lambda>w1. wp False (free cookie w1) (\<lambda>w'. inv w' \<and> grows owned w w' \<and> blocks w' = blocks w))"
                by (intro undo) auto
              with z True show ?thesis
                by (auto simp: wp_bind elim!: wp_conseq)
            next
              case st: False
              have t: "blocks t buf = Some init" "blocks t cookie \<noteq> None" "owned t buf" "owned t cookie"
                  "blocks w \<subseteq>\<^sub>m blocks t"
                using \<open>inv t \<and> owned t = owned v \<and> blocks t = (blocks u)(buf \<mapsto> init)\<close> u v bc bw
                by (auto simp: map_le_def)
              with 1 z st have z': "inv z'" "blocks t \<subseteq>\<^sub>m blocks z'" "owned z' buf" "owned z' cookie"
                by auto
              have "blocks z' buf = Some init" using z'(2) t(1) by (auto simp: map_le_def dom_def)
              moreover have "blocks w \<subseteq>\<^sub>m blocks z'" using t(5) z'(2) by (rule map_le_trans)
              ultimately have bz: "blocks z' buf = Some init" "blocks w \<subseteq>\<^sub>m blocks z'" .
              have "owned z' q = owned w q" if q: "blocks w q \<noteq> None" for q
              proof -
                have "q \<noteq> cookie" "q \<noteq> buf" "blocks t q \<noteq> None"
                  using q u(2) bw t(5) by (auto simp: map_le_def dom_def)
                with 1 z st \<open>inv t \<and> owned t = owned v \<and> blocks t = (blocks u)(buf \<mapsto> init)\<close> v(3) u(6)
                show ?thesis by simp
              qed
              then have "grows owned w z'" using bz(2) by (auto simp: grows_def map_le_def dom_def)
              with bz z st z' ne u(2) bc bw show ?thesis by auto
            qed
          qed
        qed
      qed
    qed
  qed
qed

lemma open_memstream_law:
  assumes "inv w" "fopencookie_contract inv owned fopencookie"
  shows "wp (room w \<le> 1) (open_memstream malloc free fopencookie w) (\<lambda>((stream, r), w'). inv w' \<and> grows owned w w' \<and>
    (if stream = NULL then blocks w' = blocks w
     else \<exists>cookie c. r = Some (cookie, c) \<and> memstream_ok owned c [] w' \<and> owned w' cookie
       \<and> blocks w cookie = None \<and> blocks w (ck_buf c) = None \<and> cookie \<noteq> ck_buf c
       \<and> blocks w \<subseteq>\<^sub>m blocks w'))"
  unfolding open_memstream_eq
  by (rule wp_conseq [OF open_stream_law [OF assms]]) (auto simp: memstream_ok_def split: if_splits)

end

section \<open>Seeking\<close>

text \<open>The position a seek starts from.\<close>

definition seek_base :: "ao_memstream_cookie \<Rightarrow> int \<Rightarrow> int" where
  "seek_base c whence = int ([0, unat (ck_pos c), unat (ck_len c)] ! nat whence)"

lemma memstream_seek_eq:
  assumes ok: "memstream_ok owned c text w" and wh: "0 \<le> whence" "whence \<le> 2"
  shows "ao_memstream_seek c offset whence w =
    (if 0 \<le> seek_base c whence + offset \<and> seek_base c whence + offset \<le> int SSIZE_MAX
     then Done ((0, seek_base c whence + offset, c\<lparr>ck_pos := of_int (seek_base c whence + offset)\<rparr>), w)
     else Done ((-1, offset, c), w\<lparr>errno := EINVAL\<rparr>))"
proof -
  have small: "unat (ck_pos c) \<le> SSIZE_MAX" "unat (ck_len c) \<le> SSIZE_MAX"
    using ok by (auto simp: memstream_ok_def)
  have s: "sint v = int (unat v)" if "unat v \<le> SSIZE_MAX" for v :: size_t
    using sint_of_nat_small [OF that] by simp
  have sm: "int (unat (ck_pos c)) \<le> int SSIZE_MAX" "int (unat (ck_len c)) \<le> int SSIZE_MAX"
    using small by (simp_all only: of_nat_le_iff)
  consider "whence = 0" | "whence = 1" | "whence = 2" using wh by linarith
  then have base: "sint ([0, ck_pos c, ck_len c] ! nat whence) = seek_base c whence
      \<and> 0 \<le> seek_base c whence \<and> seek_base c whence \<le> int SSIZE_MAX"
    by cases (use s [OF small(1)] s [OF small(2)] sm in \<open>simp_all add: seek_base_def\<close>)
  then have r: "off_t_range (- seek_base c whence)" "off_t_range (int SSIZE_MAX - seek_base c whence)"
    by (simp_all add: off_t_range_def)
  show ?thesis
    using wh base r by (auto simp: ao_memstream_seek_def Let_def)
qed

lemma memstream_seek_ok:
  assumes "memstream_ok owned c text w" "0 \<le> p" "p \<le> int SSIZE_MAX"
  shows "memstream_ok owned (c\<lparr>ck_pos := of_int p\<rparr>) text w" and "unat (of_int p :: size_t) = nat p"
proof -
  have n: "nat p \<le> SSIZE_MAX" using assms(2,3) by simp
  have "(of_int p :: size_t) = of_nat (nat p)" using assms(2) by simp
  then show "unat (of_int p :: size_t) = nat p" using n by (simp only:) (intro unat_of_nat_lt, simp)
  with assms n show "memstream_ok owned (c\<lparr>ck_pos := of_int p\<rparr>) text w"
    by (simp add: memstream_ok_def)
qed

end
