(* ===== verification/Memstream_Runs.thy ===== *)
theory Memstream_Runs
  imports Memstream_Overrides
begin

text \<open>
  Any sequence of writes and seeks on a memory stream behaves like a file in memory: the specification
  is a step relation on the file's content and position, the refinement a forward simulation.
\<close>

section \<open>Runs of the callbacks\<close>

datatype stream_op = Write "byte list" | Seek int int

text \<open>libc calls one callback after the other; a failure leaves the stream usable.\<close>

fun memstream_op ::
  "'a realloc_fn \<Rightarrow> stream_op \<Rightarrow> ao_memstream_cookie \<Rightarrow> 'a libc_scheme
   \<Rightarrow> (ao_memstream_cookie \<times> 'a libc_scheme) outcome" where
  "memstream_op realloc (Write data) c w =
     obind (ao_memstream_write realloc c data w) (\<lambda>((_, c), w). Done (c, w))"
| "memstream_op realloc (Seek offset whence) c w =
     obind (ao_memstream_seek c offset whence w) (\<lambda>((_, _, c), w). Done (c, w))"

fun memstream_run ::
  "'a realloc_fn \<Rightarrow> stream_op list \<Rightarrow> ao_memstream_cookie \<Rightarrow> 'a libc_scheme
   \<Rightarrow> (ao_memstream_cookie \<times> 'a libc_scheme) outcome" where
  "memstream_run realloc [] c w = Done (c, w)"
| "memstream_run realloc (x # xs) c w =
     obind (memstream_op realloc x c w) (\<lambda>(c, w). memstream_run realloc xs c w)"

section \<open>A file in memory\<close>

type_synonym memfile = "byte list \<times> nat"

definition seek_target :: "memfile \<Rightarrow> int \<Rightarrow> int \<Rightarrow> int" where
  "seek_target f offset whence =
     (if whence = 0 then 0 else if whence = 1 then int (snd f) else int (length (fst f))) + offset"

inductive memfile_step :: "stream_op \<Rightarrow> memfile \<Rightarrow> memfile \<Rightarrow> bool" where
  step_write: "memfile_step (Write data) (t, pos) (write_at pos data t, pos + length data)"
| step_write_fails: "memfile_step (Write data) f f"
| step_seek: "whence \<in> {0, 1, 2} \<Longrightarrow> 0 \<le> seek_target (t, pos) offset whence
    \<Longrightarrow> seek_target (t, pos) offset whence \<le> int SSIZE_MAX
    \<Longrightarrow> memfile_step (Seek offset whence) (t, pos) (t, nat (seek_target (t, pos) offset whence))"
| step_seek_fails: "whence \<notin> {0, 1, 2} \<or> seek_target f offset whence < 0
    \<or> seek_target f offset whence > int SSIZE_MAX \<Longrightarrow> memfile_step (Seek offset whence) f f"

inductive memfile_run :: "stream_op list \<Rightarrow> memfile \<Rightarrow> memfile \<Rightarrow> bool" where
  run_none: "memfile_run [] f f"
| run_step: "memfile_step x f f' \<Longrightarrow> memfile_run xs f' f'' \<Longrightarrow> memfile_run (x # xs) f f''"

inductive_cases memfile_run_ConsE: "memfile_run (x # xs) f f''"

text \<open>A write that fits the arguments of the callback.\<close>

fun op_ok :: "stream_op \<Rightarrow> bool" where
  "op_ok (Write data) \<longleftrightarrow> length data \<le> SSIZE_MAX"
| "op_ok (Seek _ _) \<longleftrightarrow> True"

text \<open>The stream \<open>c\<close> represents the file \<open>f\<close>.\<close>

definition represents ::
  "('a libc_scheme \<Rightarrow> ptr \<Rightarrow> bool) \<Rightarrow> ao_memstream_cookie \<Rightarrow> 'a libc_scheme \<Rightarrow> memfile \<Rightarrow> bool" where
  "represents owned c w f \<longleftrightarrow> memstream_ok owned c (fst f) w \<and> snd f = unat (ck_pos c)"

lemma seek_base_target:
  assumes "represents owned c w f" "whence \<in> {0, 1, 2}"
  shows "seek_base c whence + offset = seek_target f offset whence"
  using assms by (auto simp: represents_def memstream_ok_def seek_base_def seek_target_def)

lemma seek_represents:
  assumes rep: "represents owned c w f" and keep: "\<And>e t. memstream_ok owned c t (w\<lparr>errno := e\<rparr>) = memstream_ok owned c t w"
  shows "wp False (ao_memstream_seek c offset whence w) (\<lambda>((ret, off, c'), w'). \<exists>e f'. (w' = w \<or> w' = w\<lparr>errno := e\<rparr>)
    \<and> represents owned c' w' f' \<and> memfile_step (Seek offset whence) f f' \<and> ck_buf c' = ck_buf c)"
proof (cases "whence \<in> {0, 1, 2}")
  case False
  then have "ao_memstream_seek c offset whence w = Done ((-1, offset, c), w\<lparr>errno := EINVAL\<rparr>)"
    by (auto simp: ao_memstream_seek_def)
  moreover have "memfile_step (Seek offset whence) f f" using False by (auto intro: step_seek_fails)
  moreover have "represents owned c (w\<lparr>errno := EINVAL\<rparr>) f" using rep keep by (simp add: represents_def)
  ultimately show ?thesis by (auto simp del: split_paired_Ex)
next
  case True
  let ?p = "seek_target f offset whence"
  have ok: "memstream_ok owned c (fst f) w" using rep by (simp add: represents_def)
  have eq: "ao_memstream_seek c offset whence w =
      (if 0 \<le> ?p \<and> ?p \<le> int SSIZE_MAX then Done ((0, ?p, c\<lparr>ck_pos := of_int ?p\<rparr>), w)
       else Done ((-1, offset, c), w\<lparr>errno := EINVAL\<rparr>))"
    using memstream_seek_eq [OF ok, of whence offset] True seek_base_target [OF rep True] by auto
  show ?thesis
  proof (cases "0 \<le> ?p \<and> ?p \<le> int SSIZE_MAX")
    case in_range: True
    then have "represents owned (c\<lparr>ck_pos := of_int ?p\<rparr>) w (fst f, nat ?p)"
      using memstream_seek_ok [OF ok] by (simp add: represents_def)
    with in_range True show ?thesis
      unfolding eq using step_seek [of whence "fst f" "snd f" offset] by auto
  next
    case out: False
    then have "memfile_step (Seek offset whence) f f" by (intro step_seek_fails) auto
    moreover have "represents owned c (w\<lparr>errno := EINVAL\<rparr>) f" using rep keep by (simp add: represents_def)
    ultimately show ?thesis using out unfolding eq by (auto simp del: split_paired_Ex)
  qed
qed

context c_allocator
begin

lemma memstream_ok_errno: "memstream_ok owned c t (w\<lparr>errno := e\<rparr>) = memstream_ok owned c t w"
  by (simp add: memstream_ok_def errno_laws)

lemma memstream_op_law:
  assumes inv: "inv w" and rep: "represents owned c w f" and x: "op_ok x"
  shows "wp False (memstream_op realloc x c w) (\<lambda>(c', w'). inv w' \<and> replaced owned (ck_buf c) w (ck_buf c') w'
    \<and> (\<exists>f'. represents owned c' w' f' \<and> memfile_step x f f'))"
proof (cases x)
  case (Write data)
  have ok: "memstream_ok owned c (fst f) w" and pos: "snd f = unat (ck_pos c)" using rep by (simp_all add: represents_def)
  have len: "length data \<le> SSIZE_MAX" using x Write by simp
  show ?thesis
    unfolding Write memstream_op.simps
  proof (rule wp_bindI [OF memstream_write_law [OF inv ok len]], assumption, goal_cases)
    case (1 y)
    obtain ret c' w' where y: "y = ((ret, c'), w')" by (metis surj_pair)
    from 1 y consider
        "memstream_ok owned c' (write_at (snd f) data (fst f)) w'" "replaced owned (ck_buf c) w (ck_buf c') w'"
        "unat (ck_pos c') = snd f + length data" "inv w'"
      | "c' = c" "blocks w' = blocks w" "owned w' = owned w" "inv w'"
      unfolding pos by auto
    then show ?case
    proof cases
      case 1
      then have "represents owned c' w' (write_at (snd f) data (fst f), snd f + length data)"
        by (simp add: represents_def)
      with 1 y show ?thesis using step_write [of data "fst f" "snd f"] by auto
    next
      case 2
      with rep have "represents owned c' w' f" by (simp add: represents_def memstream_ok_def)
      with 2 y show ?thesis using step_write_fails [of data f]
        by (auto simp del: split_paired_Ex intro: replaced_unchanged)
    qed
  qed
next
  case (Seek offset whence)
  show ?thesis
    unfolding Seek memstream_op.simps
  proof (rule wp_bindI [OF seek_represents [OF rep memstream_ok_errno]], assumption, goal_cases)
    case (1 y)
    obtain ret off c' w' where y: "y = ((ret, off, c'), w')" by (metis surj_pair)
    with 1 obtain e f' where s: "w' = w \<or> w' = w\<lparr>errno := e\<rparr>" "represents owned c' w' f'"
        "memfile_step (Seek offset whence) f f'" "ck_buf c' = ck_buf c"
      unfolding y prod.case by blast
    have "inv w'" "blocks w' = blocks w" "owned w' = owned w" using inv s(1) by (auto simp: errno_laws)
    with y s(2-) show ?case by (auto simp del: split_paired_Ex simp: replaced_unchanged)
  qed
qed

lemma memstream_run_law:
  assumes "inv w" "represents owned c w f" "list_all op_ok xs"
  shows "wp False (memstream_run realloc xs c w) (\<lambda>(c', w'). inv w' \<and> replaced owned (ck_buf c) w (ck_buf c') w'
    \<and> (\<exists>f'. represents owned c' w' f' \<and> memfile_run xs f f'))"
  using assms
proof (induction xs arbitrary: c w f)
  case Nil
  then show ?case by (auto simp del: split_paired_Ex intro: run_none)
next
  case (Cons x xs)
  then have "op_ok x" "list_all op_ok xs" by simp_all
  show ?case
    unfolding memstream_run.simps
  proof (rule wp_bindI [OF memstream_op_law [OF Cons.prems(1,2) \<open>op_ok x\<close>]], assumption, goal_cases)
    case (1 y)
    then obtain c' w' f' where y: "y = (c', w')" and s: "inv w'" "replaced owned (ck_buf c) w (ck_buf c') w'"
        "represents owned c' w' f'" "memfile_step x f f'"
      by (cases y) auto
    from Cons.IH [OF s(1,3) \<open>list_all op_ok xs\<close>] show ?case
      unfolding y prod.case
      by (rule wp_conseq) (use s in \<open>auto simp del: split_paired_Ex intro: run_step replaced_trans\<close>)
  qed
qed

end

end
