(* ===== verification/Wmemstream_Overrides.thy ===== *)
theory Wmemstream_Overrides
  imports Memstream_Overrides
begin

text \<open>
  \<open>src/memstream_overrides.c\<close>: the wide memory stream \<open>open_wmemstream\<close>. libc's multibyte conversion \<open>mbsnrtowcs\<close>, its
  conversion state and \<open>fopencookie\<close> are parameters.
\<close>

record 's ao_wmemstream_cookie =
  wck_pos :: size_t
  wck_buf :: ptr
  wck_len :: size_t
  wck_space :: size_t
  wck_state :: 's
  wout_buf :: ptr
  wout_size :: size_t

definition sizeof_ao_wmemstream_cookie :: size_t where [layout]: "sizeof_ao_wmemstream_cookie = 56"

text \<open>\<open>(size_t)SSIZE_MAX / sizeof(wchar_t)\<close>\<close>

definition max_chars :: size_t where [layout]: "max_chars = (2 ^ 63 - 1) div of_nat sizeof_wchar_t"

definition ao_wmemstream_grow ::
  "'a realloc_fn \<Rightarrow> 's ao_wmemstream_cookie \<Rightarrow> size_t \<Rightarrow> 'a libc_scheme
   \<Rightarrow> ((int \<times> 's ao_wmemstream_cookie) \<times> 'a libc_scheme) outcome" where
  "ao_wmemstream_grow realloc cookie len w =
     (if wck_pos cookie > max_chars - len - 1 then Done ((-1, cookie), w\<lparr>errno := ENOMEM\<rparr>)
      else let required = wck_pos cookie + len + 1
      in if required \<le> wck_space cookie then Done ((0, cookie), w)
      else let doubled = (if wck_space cookie > (SIZE_MAX - 1) div 2 then SIZE_MAX
                          else 2 * wck_space cookie + 1);
               new_space = doubled OR required;
               new_space = (if new_space < required then required else new_space)
      in if new_space > max_chars then Done ((-1, cookie), w\<lparr>errno := ENOMEM\<rparr>)
      else obind (realloc (wck_buf cookie) (new_space * of_nat sizeof_wchar_t) w) (\<lambda>(new_buf, w).
           if new_buf = NULL then Done ((-1, cookie), w)
           else obind (write_cells new_buf (unat (wck_space cookie) * sizeof_wchar_t)
                         (replicate (unat ((new_space - wck_space cookie) * of_nat sizeof_wchar_t)) (Some 0)) w) (\<lambda>w.
                  Done ((0, cookie\<lparr>wck_buf := new_buf, wck_space := new_space, wout_buf := new_buf\<rparr>), w))))"

text \<open>
  \<open>mbsnrtowcs state src n\<close>, called with \<open>src\<close> as the bytes to convert and room for \<open>n\<close> wide characters: the wide
  characters it stores, its return value (\<open>None\<close> for \<open>(size_t)-1\<close>) and the new conversion state.
\<close>

type_synonym 's mbsnrtowcs_fn = "'s \<Rightarrow> byte list \<Rightarrow> nat \<Rightarrow> wchar list \<times> nat option \<times> 's"

definition ao_wmemstream_write ::
  "'a realloc_fn \<Rightarrow> 's mbsnrtowcs_fn \<Rightarrow> 's ao_wmemstream_cookie \<Rightarrow> byte list \<Rightarrow> 'a libc_scheme
   \<Rightarrow> ((int \<times> 's ao_wmemstream_cookie) \<times> 'a libc_scheme) outcome" where
  "ao_wmemstream_write realloc mbsnrtowcs cookie data w =
     (let len = of_nat (length data)
      in obind (ao_wmemstream_grow realloc cookie len w) (\<lambda>((rc, cookie), w).
           if rc \<noteq> 0 then Done ((0, cookie), w)
           else case mbsnrtowcs (wck_state cookie) data (unat (wck_space cookie - wck_pos cookie)) of
             (stored, count, st) \<Rightarrow>
               obind (write_cells (wck_buf cookie) (unat (wck_pos cookie) * sizeof_wchar_t) (wide_cells stored) w) (\<lambda>w.
                 case count of
                   None \<Rightarrow> Done ((0, cookie\<lparr>wck_state := st\<rparr>), w)
                 | Some converted \<Rightarrow>
                     let pos = wck_pos cookie + of_nat converted
                     in Done ((sint len, cookie\<lparr>wck_pos := pos,
                                wck_len := (if pos \<ge> wck_len cookie then pos else wck_len cookie),
                                wck_state := st, wout_size := pos\<rparr>), w))))"

definition ao_wmemstream_seek ::
  "'s \<Rightarrow> 's ao_wmemstream_cookie \<Rightarrow> int \<Rightarrow> int \<Rightarrow> 'a libc_scheme
   \<Rightarrow> ((int \<times> int \<times> 's ao_wmemstream_cookie) \<times> 'a libc_scheme) outcome" where
  "ao_wmemstream_seek zero_state cookie offset whence w =
     (let limit = sint max_chars
      in if whence < 0 \<or> whence > 2 then Done ((-1, offset, cookie), w\<lparr>errno := EINVAL\<rparr>)
      else let base = sint ([0, wck_pos cookie, wck_len cookie] ! nat whence)
      in if \<not> off_t_range (- base) then Undef
      else if offset < - base then Done ((-1, offset, cookie), w\<lparr>errno := EINVAL\<rparr>)
      else if \<not> off_t_range (limit - base) then Undef
      else if offset > limit - base then Done ((-1, offset, cookie), w\<lparr>errno := EINVAL\<rparr>)
      else Done ((0, base + offset,
                  cookie\<lparr>wck_pos := of_int (base + offset), wck_state := zero_state\<rparr>), w))"

definition ao_wmemstream_close :: "'a free_fn \<Rightarrow> ptr \<Rightarrow> 'a libc_scheme \<Rightarrow> (int \<times> 'a libc_scheme) outcome" where
  "ao_wmemstream_close free context w = obind (free context w) (\<lambda>w. Done (0, w))"

definition open_wmemstream ::
  "'a malloc_fn \<Rightarrow> 'a free_fn \<Rightarrow> (ptr \<Rightarrow> 'a libc_scheme \<Rightarrow> (ptr \<times> 'a libc_scheme) outcome) \<Rightarrow> 's \<Rightarrow> 'a libc_scheme
   \<Rightarrow> ((ptr \<times> (ptr \<times> 's ao_wmemstream_cookie) option) \<times> 'a libc_scheme) outcome" where
  "open_wmemstream malloc free fopencookie zero_state w =
     obind (malloc sizeof_ao_wmemstream_cookie w) (\<lambda>(cookie, w).
       if cookie = NULL then Done ((NULL, None), w)
       else obind (malloc (of_nat sizeof_wchar_t) w) (\<lambda>(buf, w).
         if buf = NULL then obind (free cookie w) (\<lambda>w. Done ((NULL, None), w))
         else let c = \<lparr>wck_pos = 0, wck_buf = buf, wck_len = 0, wck_space = 0, wck_state = zero_state,
                       wout_buf = buf, wout_size = 0\<rparr>
         in obind (write_cells buf 0 (wide_cells [0]) w) (\<lambda>w.
            obind (fopencookie cookie w) (\<lambda>(stream, w).
              if stream = NULL
              then obind (free buf w) (\<lambda>w. obind (free cookie w) (\<lambda>w. Done ((NULL, Some (cookie, c)), w)))
              else Done ((stream, Some (cookie, c)), w)))))"

section \<open>Wide cells\<close>

lemma wide_cells_append: "wide_cells (xs @ ys) = wide_cells xs @ wide_cells ys"
  by (simp add: wide_cells_def)

lemma wide_cells_zeros: "wide_cells (replicate n 0) = replicate (4 * n) (Some 0)"
proof (induction n)
  case (Suc n)
  have z: "wchar_bytes 0 = [0, 0, 0, 0]" by (simp add: wchar_bytes_def)
  have n: "4 * Suc n = Suc (Suc (Suc (Suc (4 * n))))" by simp
  show ?case
    unfolding n replicate_Suc wide_cells_Cons z Suc by simp
qed simp

lemma take_wide_cells: "take (4 * n) (wide_cells ws) = wide_cells (take n ws)"
proof (induction ws arbitrary: n)
  case (Cons c ws)
  then show ?case by (cases n) (simp_all add: wide_cells_Cons)
qed simp

lemma drop_wide_cells: "drop (4 * n) (wide_cells ws) = wide_cells (drop n ws)"
proof (induction ws arbitrary: n)
  case (Cons c ws)
  then show ?case by (cases n) (simp_all add: wide_cells_Cons)
qed simp

lemma overwrite_wide_cells:
  "overwrite (4 * p) (wide_cells new) (wide_cells ws) = wide_cells (overwrite p new ws)"
  using take_wide_cells [of p ws] drop_wide_cells [of "p + length new" ws]
  by (simp add: overwrite_def wide_cells_append)

section \<open>What the stream holds\<close>

text \<open>\<open>chars\<close> are all wide characters of the buffer, the first \<open>wck_len\<close> of them the text of the stream.\<close>

definition wmemstream_ok ::
  "('a libc_scheme \<Rightarrow> ptr \<Rightarrow> bool) \<Rightarrow> 's ao_wmemstream_cookie \<Rightarrow> wchar list \<Rightarrow> 'a libc_scheme \<Rightarrow> bool" where
  "wmemstream_ok owned c chars w \<longleftrightarrow>
     wck_buf c \<noteq> NULL \<and> owned w (wck_buf c) \<and> wout_buf c = wck_buf c
     \<and> length chars = max 1 (unat (wck_space c)) \<and> unat (wck_len c) < length chars
     \<and> wck_space c \<le> max_chars \<and> wck_pos c \<le> max_chars
     \<and> blocks w (wck_buf c) = Some (wide_cells chars)"

text \<open>The buffer enlarged to \<open>n\<close> characters, the new ones zero.\<close>

definition grown_chars :: "nat \<Rightarrow> nat \<Rightarrow> wchar list \<Rightarrow> wchar list" where
  "grown_chars sp n chars = take sp chars @ replicate (n - sp) 0"

lemma unat_max_chars: "unat max_chars = 2305843009213693951"
  by (simp add: max_chars_def sizeof_wchar_t_def unat_div)

lemma wide_grown:
  assumes "length chars = max 1 sp" "max 1 sp \<le> n"
  shows "overwrite (4 * sp) (replicate (4 * (n - sp)) (Some 0)) (resized (4 * n) (wide_cells chars))
    = wide_cells (grown_chars sp n chars)"
proof -
  have a: "take (4 * sp) (resized (4 * n) (wide_cells chars)) = wide_cells (take sp chars)"
    using assms take_wide_cells [of sp chars] by (subst take_resized) auto
  have d: "drop (4 * sp + 4 * (n - sp)) (resized (4 * n) (wide_cells chars)) = []"
    using assms by simp
  show ?thesis
    using a d by (simp add: overwrite_def grown_chars_def wide_cells_append wide_cells_zeros)
qed

text \<open>
  What is relied on of \<open>mbsnrtowcs\<close>: it stores no more characters than there is room for, and counts no more
  than it stores and than there are bytes.
\<close>

definition mbsnrtowcs_contract :: "'s mbsnrtowcs_fn \<Rightarrow> bool" where
  "mbsnrtowcs_contract mbsnrtowcs \<longleftrightarrow>
     (\<forall>st src n. case mbsnrtowcs st src n of (stored, count, _) \<Rightarrow>
        length stored \<le> n \<and> (\<forall>k. count = Some k \<longrightarrow> k \<le> length stored \<and> k \<le> length src))"

lemma mbsnrtowcs_contractD:
  assumes "mbsnrtowcs_contract f" "f st src n = (stored, count, st')"
  shows "length stored \<le> n \<and> (\<forall>k. count = Some k \<longrightarrow> k \<le> length stored \<and> k \<le> length src)"
proof -
  have "case f st src n of (stored, count, _) \<Rightarrow>
      length stored \<le> n \<and> (\<forall>k. count = Some k \<longrightarrow> k \<le> length stored \<and> k \<le> length src)"
    by (rule assms(1) [unfolded mbsnrtowcs_contract_def, THEN spec, THEN spec, THEN spec])
  with assms(2) show ?thesis by simp
qed

text \<open>
  A write that reached the conversion: what it stored lies at the position, the gap before it is
  zero, and the position and the length moved by the number of characters converted, or not at
  all when the conversion failed.
\<close>

definition wide_written ::
  "'s mbsnrtowcs_fn \<Rightarrow> 's ao_wmemstream_cookie \<Rightarrow> wchar list \<Rightarrow> byte list \<Rightarrow> int
   \<Rightarrow> 's ao_wmemstream_cookie \<Rightarrow> wchar list \<Rightarrow> bool" where
  "wide_written mbsnrtowcs c chars data ret c' chars' \<longleftrightarrow>
     (case mbsnrtowcs (wck_state c) data (unat (wck_space c') - unat (wck_pos c)) of (stored, count, st) \<Rightarrow>
        chars' = overwrite (unat (wck_pos c)) stored
                   (grown_chars (unat (wck_space c)) (unat (wck_space c')) chars)
        \<and> wck_state c' = st \<and>
        (case count of
           None \<Rightarrow> ret = 0 \<and> wck_pos c' = wck_pos c \<and> wck_len c' = wck_len c
         | Some k \<Rightarrow> ret = int (length data) \<and> unat (wck_pos c') = unat (wck_pos c) + k
             \<and> unat (wck_len c') = max (unat (wck_len c)) (unat (wck_pos c) + k)
             \<and> wout_size c' = wck_pos c'))"

lemma open_wmemstream_eq:
  "open_wmemstream malloc free fopencookie zero_state w =
     open_stream sizeof_ao_wmemstream_cookie (of_nat sizeof_wchar_t) (wide_cells [0])
       (\<lambda>buf. \<lparr>wck_pos = 0, wck_buf = buf, wck_len = 0, wck_space = 0, wck_state = zero_state,
               wout_buf = buf, wout_size = 0\<rparr>) malloc free fopencookie w"
  unfolding open_wmemstream_def open_stream_def Let_def ..

lemma unat_times4:
  fixes n :: size_t
  assumes "unat n \<le> 2305843009213693951"
  shows "unat (n * of_nat sizeof_wchar_t) = 4 * unat n"
  using assms by (simp add: sizeof_wchar_t_def unat_word_ariths)

context c_allocator
begin

lemma wmemstream_grow_law:
  assumes inv: "inv w" and ok: "wmemstream_ok owned c chars w" and k: "k \<le> SSIZE_MAX"
  shows "wp False (ao_wmemstream_grow realloc c (of_nat k) w) (\<lambda>((rc, c'), w'). inv w' \<and>
    (if rc = 0
     then wmemstream_ok owned c' (grown_chars (unat (wck_space c)) (unat (wck_space c')) chars) w'
       \<and> replaced owned (wck_buf c) w (wck_buf c') w'
       \<and> unat (wck_pos c) + k + 1 \<le> unat (wck_space c')
       \<and> wck_pos c' = wck_pos c \<and> wck_len c' = wck_len c \<and> wck_state c' = wck_state c
     else c' = c \<and> blocks w' = blocks w \<and> owned w' = owned w \<and> errno w' = ENOMEM))"
proof -
  let ?sp = "wck_space c" and ?req = "wck_pos c + of_nat k + 1"
  note okD = ok [unfolded wmemstream_ok_def]
  have "unat (wck_pos c) \<le> unat max_chars" using okD by (simp only: word_le_nat_alt)
  then have "unat (wck_pos c) \<le> SSIZE_MAX" unfolding unat_max_chars by simp
  then have req: "unat ?req = unat (wck_pos c) + k + 1" using k by (rule memstream_required(2))
  show ?thesis
  proof (cases "wck_pos c > max_chars - of_nat k - 1")
    case True
    with inv show ?thesis by (simp add: ao_wmemstream_grow_def errno_laws)
  next
    case guard: False
    show ?thesis
    proof (cases "?req \<le> ?sp")
      case True
      then have le: "unat (wck_pos c) + k + 1 \<le> unat ?sp" using req by (simp add: word_le_nat_alt)
      then have "grown_chars (unat ?sp) (unat ?sp) chars = chars"
        using okD by (simp add: grown_chars_def)
      with True guard ok inv le show ?thesis
        by (simp add: ao_wmemstream_grow_def)
    next
      case new: False
      define n where "n = grown_space ?sp ?req"
      have eq: "ao_wmemstream_grow realloc c (of_nat k) w =
          (if n > max_chars then Done ((-1, c), w\<lparr>errno := ENOMEM\<rparr>)
           else obind (realloc (wck_buf c) (n * of_nat sizeof_wchar_t) w) (\<lambda>(new_buf, w).
             if new_buf = NULL then Done ((-1, c), w)
             else obind (write_cells new_buf (unat ?sp * sizeof_wchar_t)
                           (replicate (unat ((n - ?sp) * of_nat sizeof_wchar_t)) (Some 0)) w) (\<lambda>w.
                  Done ((0, c\<lparr>wck_buf := new_buf, wck_space := n, wout_buf := new_buf\<rparr>), w))))"
        unfolding ao_wmemstream_grow_def if_not_P [OF guard] Let_def if_not_P [OF new]
        unfolding n_def grown_space_def Let_def ..
      show ?thesis
      proof (cases "n > max_chars")
        case True
        with inv eq show ?thesis by (simp add: errno_laws)
      next
        case fits: False
        then have nm: "unat n \<le> 2305843009213693951" by (simp add: word_less_nat_alt unat_max_chars)
        have "?req \<le> n" unfolding n_def by (rule grown_space_ge)
        with new have sp: "unat ?sp < unat n" "max 1 (unat ?sp) \<le> unat n" "?sp \<le> n" "unat ?req \<le> unat n"
          using req by (auto simp: word_le_nat_alt)
        have n4: "unat (n * of_nat sizeof_wchar_t) = 4 * unat n"
            "unat ((n - ?sp) * of_nat sizeof_wchar_t) = 4 * (unat n - unat ?sp)"
          using nm unat_sub_no_wrap [OF sp(3)] unat_times4 [of n] unat_times4 [of "n - ?sp"] by simp_all
        then have nz: "n * of_nat sizeof_wchar_t \<noteq> 0" using sp(1) by auto
        have buf: "wck_buf c \<noteq> NULL \<Longrightarrow> owned w (wck_buf c) \<and> blocks w (wck_buf c) \<noteq> None" using okD by simp
        show ?thesis
          unfolding eq if_not_P [OF fits]
        proof (rule wp_bindI [OF realloc_buffer_law [OF inv nz buf]], assumption, goal_cases)
          case 1 then show ?case using okD by simp
        next
          case (2 x)
          obtain q u where x: "x = (q, u)" by (cases x)
          show ?case
          proof (cases "q = NULL")
            case True
            with 2 x show ?thesis by simp
          next
            case False
            let ?g = "grown_chars (unat ?sp) (unat n) chars"
            from False 2 x okD n4 have u: "inv u" "replaced owned (wck_buf c) w q u" "owned u q"
                "blocks u q = Some (resized (4 * unat n) (wide_cells chars))" by auto
            have "wp False (write_cells q (4 * unat ?sp) (replicate (4 * (unat n - unat ?sp)) (Some 0)) u)
              (\<lambda>w'. inv w' \<and> owned w' = owned u \<and> room w' = room u \<and> blocks w' = (blocks u)
                 (q \<mapsto> overwrite (4 * unat ?sp) (replicate (4 * (unat n - unat ?sp)) (Some 0))
                    (resized (4 * unat n) (wide_cells chars))) \<and> errno w' = errno u)"
              using u sp(1) by (intro write_law) simp_all
            then have "wp False (write_cells q (4 * unat ?sp) (replicate (4 * (unat n - unat ?sp)) (Some 0)) u)
              (\<lambda>w'. inv w' \<and> wmemstream_ok owned (c\<lparr>wck_buf := q, wck_space := n, wout_buf := q\<rparr>) ?g w'
                 \<and> replaced owned (wck_buf c) w q w')"
            proof (elim wp_conseq, goal_cases)
              case (2 w')
              then have b: "blocks w' = (blocks u)(q \<mapsto> wide_cells ?g)" "owned w' = owned u"
                using wide_grown [of chars "unat ?sp" "unat n"] okD sp(2) by simp_all
              have "length ?g = max 1 (unat n)" "unat (wck_len c) < length ?g"
                using okD sp by (auto simp: grown_chars_def)
              with b 2 u okD fits False show ?case
                by (auto simp: wmemstream_ok_def intro: replaced_trans [OF u(2) replaced_same])
            qed simp
            then show ?thesis
              unfolding x prod.case if_not_P [OF False] n4
              unfolding sizeof_wchar_t_def mult.commute [of _ "4 :: nat"]
              by (rule wp_bindI) (use sp(4) req in auto)
          qed
        qed
      qed
    qed
  qed
qed

lemma wmemstream_write_law:
  assumes inv: "inv w" and ok: "wmemstream_ok owned c chars w" and len: "length data \<le> SSIZE_MAX"
    and conv: "mbsnrtowcs_contract mbsnrtowcs"
  shows "wp False (ao_wmemstream_write realloc mbsnrtowcs c data w) (\<lambda>((ret, c'), w'). inv w' \<and>
    (replaced owned (wck_buf c) w (wck_buf c') w'
       \<and> (\<exists>chars'. wmemstream_ok owned c' chars' w' \<and> wide_written mbsnrtowcs c chars data ret c' chars')
     \<or> ret = 0 \<and> c' = c \<and> blocks w' = blocks w \<and> owned w' = owned w \<and> errno w' = ENOMEM))"
  unfolding ao_wmemstream_write_def Let_def
proof (rule wp_bindI [OF wmemstream_grow_law [OF inv ok len]], assumption, goal_cases)
  case (1 x)
  obtain rc d u where x: "x = ((rc, d), u)" by (metis surj_pair)
  show ?case
  proof (cases "rc = 0")
    case False
    with 1 x show ?thesis by simp
  next
    case True
    let ?pos = "unat (wck_pos c)" and ?sp = "unat (wck_space d)"
    let ?g = "grown_chars (unat (wck_space c)) ?sp chars"
    have d: "inv u" "wmemstream_ok owned d ?g u" "replaced owned (wck_buf c) w (wck_buf d) u"
        "?pos + length data + 1 \<le> ?sp" "wck_pos d = wck_pos c" "wck_len d = wck_len c" "wck_state d = wck_state c"
      using 1 x True by auto
    note okd = d(2) [unfolded wmemstream_ok_def]
    have g: "length ?g = ?sp" using okd d(4) by simp
    have room: "unat (wck_space d - wck_pos c) = ?sp - ?pos"
      using d(4) by (intro unat_sub_no_wrap) (simp add: word_le_nat_alt)
    obtain stored count st where m: "mbsnrtowcs (wck_state c) data (?sp - ?pos) = (stored, count, st)"
      by (metis surj_pair)
    have st: "length stored \<le> ?sp - ?pos" "\<And>k. count = Some k \<Longrightarrow> k \<le> length stored \<and> k \<le> length data"
      using mbsnrtowcs_contractD [OF conv m] by auto
    let ?new = "overwrite ?pos stored ?g"
    have new: "length ?new = ?sp" using st(1) g d(4) by simp
    have "wp False (write_cells (wck_buf d) (4 * ?pos) (wide_cells stored) u) (\<lambda>w'. inv w' \<and> owned w' = owned u
        \<and> room w' = room u \<and> blocks w' = (blocks u)(wck_buf d \<mapsto> overwrite (4 * ?pos) (wide_cells stored) (wide_cells ?g))
        \<and> errno w' = errno u)"
      using d(1) okd g st(1) d(4) by (intro write_law) simp_all
    then have wr: "wp False (write_cells (wck_buf d) (?pos * sizeof_wchar_t) (wide_cells stored) u) (\<lambda>w'. inv w'
        \<and> owned w' = owned u \<and> blocks w' = (blocks u)(wck_buf d \<mapsto> wide_cells ?new))"
      unfolding sizeof_wchar_t_def mult.commute [of _ "4 :: nat"] overwrite_wide_cells
      by (auto elim!: wp_conseq)
    have fin: "wmemstream_ok owned d' ?new v \<and> replaced owned (wck_buf c) w (wck_buf d') v"
      if v: "owned v = owned u" "blocks v = (blocks u)(wck_buf d \<mapsto> wide_cells ?new)"
        and d': "wck_buf d' = wck_buf d" "wout_buf d' = wout_buf d" "wck_space d' = wck_space d"
          "unat (wck_len d') < ?sp" "wck_pos d' \<le> max_chars" for v and d'
      using okd v d' new d(4) replaced_trans [OF d(3) replaced_same [OF v(2,1)]]
      by (simp add: wmemstream_ok_def)
    show ?thesis
    proof (cases count)
      case None
      show ?thesis
        unfolding x prod.case True d(5,6,7) simp_thms if_False room m None
        by (rule wp_bindI [OF wr], assumption)
          (use fin [of _ "d\<lparr>wck_state := st\<rparr>"] okd d m None new in \<open>auto simp: wide_written_def\<close>)
    next
      case (Some k)
      have k: "k \<le> length data" using st(2) Some by blast
      have kk: "unat (of_nat k :: size_t) = k" using k len by (intro unat_of_nat_lt) simp
      have pos: "unat (wck_pos c + of_nat k) = ?pos + k"
        using k d(4) kk unsigned_less [where 'a = nat, of "wck_space d"] by (subst unat_add_no_wrap) simp_all
      have "wck_pos c + of_nat k \<le> wck_space d" using pos k d(4) by (simp add: word_le_nat_alt)
      then have pm: "wck_pos c + of_nat k \<le> max_chars" using okd by (blast intro: order_trans)
      let ?l = "if wck_len c \<le> wck_pos c + of_nat k then wck_pos c + of_nat k else wck_len c"
      have l: "unat ?l = max (unat (wck_len c)) (?pos + k)" "unat ?l < ?sp"
        using pos okd d k g by (auto simp: word_le_nat_alt)
      have ret: "sint (of_nat (length data) :: size_t) = int (length data)" using len by (rule sint_of_nat_small)
      let ?d = "d\<lparr>wck_pos := wck_pos c + of_nat k, wck_len := ?l, wck_state := st, wout_size := wck_pos c + of_nat k\<rparr>"
      have ww: "wide_written mbsnrtowcs c chars data (int (length data)) ?d ?new"
        using m Some pos l(1) by (simp add: wide_written_def)
      show ?thesis
        unfolding x prod.case True d(5,6,7) simp_thms if_False room m Some option.case ret
        by (rule wp_bindI [OF wr], assumption)
          (use fin [of _ ?d] ww l(2) pm in auto)
    qed
  qed
qed

lemma open_wmemstream_law:
  assumes "inv w" "fopencookie_contract inv owned fopencookie"
  shows "wp (room w \<le> 1) (open_wmemstream malloc free fopencookie zero_state w) (\<lambda>((stream, r), w'). inv w' \<and> grows owned w w' \<and>
    (if stream = NULL then blocks w' = blocks w
     else \<exists>cookie c. r = Some (cookie, c) \<and> wmemstream_ok owned c [0] w' \<and> owned w' cookie
       \<and> blocks w cookie = None \<and> blocks w (wck_buf c) = None \<and> cookie \<noteq> wck_buf c
       \<and> blocks w \<subseteq>\<^sub>m blocks w'))"
  unfolding open_wmemstream_eq
  by (rule wp_conseq [OF open_stream_law [OF assms]])
    (auto simp: wmemstream_ok_def sizeof_wchar_t_def split: if_splits)

end

section \<open>Seeking\<close>

definition wseek_base :: "'s ao_wmemstream_cookie \<Rightarrow> int \<Rightarrow> int" where
  "wseek_base c whence = int ([0, unat (wck_pos c), unat (wck_len c)] ! nat whence)"

lemma wmemstream_seek_eq:
  assumes ok: "wmemstream_ok owned c chars w" and wh: "0 \<le> whence" "whence \<le> 2"
  shows "ao_wmemstream_seek zero_state c offset whence w =
    (if 0 \<le> wseek_base c whence + offset \<and> wseek_base c whence + offset \<le> 2305843009213693951
     then Done ((0, wseek_base c whence + offset,
       c\<lparr>wck_pos := of_int (wseek_base c whence + offset), wck_state := zero_state\<rparr>), w)
     else Done ((-1, offset, c), w\<lparr>errno := EINVAL\<rparr>))"
proof -
  have "unat (wck_space c) \<le> unat max_chars" "unat (wck_pos c) \<le> unat max_chars"
    using ok by (simp_all only: wmemstream_ok_def word_le_nat_alt)
  then have small: "unat (wck_pos c) \<le> 2305843009213693951" "unat (wck_len c) \<le> 2305843009213693951"
    using ok unfolding unat_max_chars by (auto simp: wmemstream_ok_def)
  have s: "sint v = int (unat v)" if "unat v \<le> 2305843009213693951" for v :: size_t
    using sint_of_nat_small [of "unat v"] that by simp
  have sm: "int (unat (wck_pos c)) \<le> int 2305843009213693951" "int (unat (wck_len c)) \<le> int 2305843009213693951"
    using small by (simp_all only: of_nat_le_iff)
  have lim: "sint max_chars = 2305843009213693951"
    using s [of max_chars] by (simp add: unat_max_chars)
  consider "whence = 0" | "whence = 1" | "whence = 2" using wh by linarith
  then have base: "sint ([0, wck_pos c, wck_len c] ! nat whence) = wseek_base c whence
      \<and> 0 \<le> wseek_base c whence \<and> wseek_base c whence \<le> 2305843009213693951"
    by cases (use s [OF small(1)] s [OF small(2)] sm in \<open>simp_all add: wseek_base_def\<close>)
  then have r: "off_t_range (- wseek_base c whence)" "off_t_range (2305843009213693951 - wseek_base c whence)"
    by (simp_all add: off_t_range_def)
  show ?thesis
    using wh base r lim by (auto simp: ao_wmemstream_seek_def Let_def)
qed

end
