(* ===== verification/Scanf_Format.thy ===== *)
theory Scanf_Format
  imports String_Overrides
begin

text \<open>
  \<open>src/scanf_overrides.c\<close>, first half: the plan of \<open>%m\<close> conversions and the format parsers that fill it. The
  narrow and the wide functions of the source differ only in the character type, so each pair is
  one function over words of any width with one instance per source function.

  A format is the list of its characters before the terminator; \<open>hd0\<close> reads the character under the
  cursor. The variable arguments are the list of pointers not fetched yet; fetching one that is
  not there is undefined.
\<close>

datatype ao_size = AO_SIZE_DEF | AO_SIZE_L

datatype ao_rehome_mode =
    AO_REHOME_CHAR_STRING
  | AO_REHOME_WIDE_STRING
  | AO_REHOME_CHAR_COUNT
  | AO_REHOME_WIDE_COUNT
  | AO_REHOME_UNSUPPORTED_WIDE_CHAR_COUNT

record ao_scanf_record =
  slot :: ptr
  ordinal :: "32 word"
  mode :: ao_rehome_mode
  width :: size_t

text \<open>The array a plan points to is a heap object of \<open>capacity\<close> entries; its content is \<open>items\<close>.\<close>

record ao_scanf_plan =
  records :: ptr
  items :: "ao_scanf_record list"
  plan_count :: size_t
  capacity :: size_t

definition sizeof_ao_scanf_record :: size_t where [layout]: "sizeof_ao_scanf_record = 24"

definition empty_plan :: ao_scanf_plan where
  "empty_plan = \<lparr>records = NULL, items = [], plan_count = 0, capacity = 0\<rparr>"

definition ao_scanf_plan_reset ::
  "'a free_fn \<Rightarrow> ao_scanf_plan \<Rightarrow> 'a libc_scheme \<Rightarrow> (ao_scanf_plan \<times> 'a libc_scheme) outcome" where
  "ao_scanf_plan_reset free plan w =
     obind (free (records plan) w) (\<lambda>w.
       Done (plan\<lparr>records := NULL, items := [], plan_count := 0, capacity := 0\<rparr>, w))"

text \<open>Storing an entry outside the array is undefined.\<close>

definition store_record ::
  "ao_scanf_plan \<Rightarrow> ao_scanf_record \<Rightarrow> 'a libc_scheme \<Rightarrow> (ao_scanf_plan \<times> 'a libc_scheme) outcome" where
  "store_record plan r w =
     (case blocks w (records plan) of
        None \<Rightarrow> Undef
      | Some cs \<Rightarrow>
          if (unat (plan_count plan) + 1) * unat sizeof_ao_scanf_record \<le> length cs
          then Done (plan\<lparr>items := take (unat (plan_count plan)) (items plan) @ [r],
                          plan_count := plan_count plan + 1\<rparr>, w)
          else Undef)"

definition ao_scanf_plan_push ::
  "'a realloc_fn \<Rightarrow> ao_scanf_plan \<Rightarrow> ao_scanf_record \<Rightarrow> 'a libc_scheme
   \<Rightarrow> ((int \<times> ao_scanf_plan) \<times> 'a libc_scheme) outcome" where
  "ao_scanf_plan_push realloc plan r w =
     obind (if plan_count plan = capacity plan
            then let new_capacity = (if capacity plan = 0 then 8 else capacity plan * 2)
                 in obind (realloc (records plan) (new_capacity * sizeof_ao_scanf_record) w) (\<lambda>(p, w).
                      if p = NULL then Done ((-1, plan), w)
                      else Done ((0, plan\<lparr>records := p, capacity := new_capacity\<rparr>), w))
            else Done ((0 :: int, plan), w)) (\<lambda>((rc, plan), w).
       if rc \<noteq> 0 then Done ((-1, plan), w)
       else obind (store_record plan r w) (\<lambda>(plan, w). Done ((0, plan), w)))"

section \<open>Characters and numbers\<close>

fun hd0 :: "'c::zero list \<Rightarrow> 'c" where
  "hd0 [] = 0"
| "hd0 (c # _) = c"

definition is_digit :: "'c::len word \<Rightarrow> bool" where
  "is_digit c \<longleftrightarrow> 48 \<le> c \<and> c \<le> 57"

definition ao_is_digit_char :: "byte \<Rightarrow> bool" where "ao_is_digit_char = is_digit"
definition ao_is_digit_wchar :: "wchar \<Rightarrow> bool" where "ao_is_digit_wchar = is_digit"

text \<open>The value is clamped at \<open>SIZE_MAX\<close>.\<close>

fun width_loop :: "size_t \<Rightarrow> 'c::len word list \<Rightarrow> size_t \<times> 'c word list" where
  "width_loop wd [] = (wd, [])"
| "width_loop wd (c # p) =
     (if is_digit c
      then width_loop (if wd > (SIZE_MAX - 9) div 10 then SIZE_MAX else wd * 10 + of_nat (unat c - 48)) p
      else (wd, c # p))"

definition parse_width :: "'c::len word list \<Rightarrow> size_t \<times> 'c word list" where
  "parse_width p = width_loop 0 p"

definition ao_parse_width_char :: "byte list \<Rightarrow> size_t \<times> byte list" where
  "ao_parse_width_char = parse_width"
definition ao_parse_width_wchar :: "wchar list \<Rightarrow> size_t \<times> wchar list" where
  "ao_parse_width_wchar = parse_width"

text \<open>
  An argument position \<open>n$\<close>: whether one was found, its value and the cursor after it. The arithmetic is
  that of \<open>unsigned int\<close>. For \<open>0$\<close> the cursor moves although the result is negative.
\<close>

fun position_loop :: "32 word \<Rightarrow> 'c::len word list \<Rightarrow> 32 word \<times> 'c word list" where
  "position_loop v [] = (v, [])"
| "position_loop v (c # p) =
     (if is_digit c then position_loop (v * 10 + of_nat (unat c - 48)) p else (v, c # p))"

definition parse_position :: "'c::len word list \<Rightarrow> bool \<times> 32 word \<times> 'c word list" where
  "parse_position cursor =
     (if \<not> is_digit (hd0 cursor) then (False, 0, cursor)
      else case position_loop 0 cursor of (v, p) \<Rightarrow>
        if hd0 p \<noteq> 36 then (False, 0, cursor) else (v \<noteq> 0, v, tl p))"

definition ao_parse_position_char :: "byte list \<Rightarrow> bool \<times> 32 word \<times> byte list" where
  "ao_parse_position_char = parse_position"
definition ao_parse_position_wchar :: "wchar list \<Rightarrow> bool \<times> 32 word \<times> wchar list" where
  "ao_parse_position_wchar = parse_position"

definition va_arg :: "ptr list \<Rightarrow> (ptr \<times> ptr list) outcome" where
  "va_arg ap = (case ap of [] \<Rightarrow> Undef | a # as \<Rightarrow> Done (a, as))"

fun skip_args :: "nat \<Rightarrow> ptr list \<Rightarrow> ptr list outcome" where
  "skip_args 0 ap = Done ap"
| "skip_args (Suc n) ap = obind (va_arg ap) (\<lambda>(_, ap). skip_args n ap)"

definition ao_arg_n :: "ptr list \<Rightarrow> 32 word \<Rightarrow> ptr outcome" where
  "ao_arg_n ap n = obind (skip_args (unat n - 1) ap) (\<lambda>ap. obind (va_arg ap) (\<lambda>(result, _). Done result))"

text \<open>The cursor after a scan set, whose opening bracket has been read.\<close>

definition skip_scanset :: "'c::len word list \<Rightarrow> 'c word list" where
  "skip_scanset cursor =
     (let p = (if hd0 cursor = 94 then tl cursor else cursor);
          p = (if hd0 p = 93 then tl p else p);
          p = dropWhile (\<lambda>c. c \<noteq> 0 \<and> c \<noteq> 93) p
      in if hd0 p = 93 then tl p else p)"

definition ao_skip_scanset_char :: "byte list \<Rightarrow> byte list" where
  "ao_skip_scanset_char = skip_scanset"
definition ao_skip_scanset_wchar :: "wchar list \<Rightarrow> wchar list" where
  "ao_skip_scanset_wchar = skip_scanset"

section \<open>Recording a conversion\<close>

definition ao_record_narrow_m_conversion ::
  "'a realloc_fn \<Rightarrow> ao_scanf_plan \<Rightarrow> ptr \<Rightarrow> 32 word \<Rightarrow> ao_size \<Rightarrow> byte \<Rightarrow> size_t \<Rightarrow> 'a libc_scheme
   \<Rightarrow> ((int \<times> ao_scanf_plan) \<times> 'a libc_scheme) outcome" where
  "ao_record_narrow_m_conversion realloc plan dest ordnl sz spec wd w =
     (if dest = NULL then Done ((0, plan), w)
      else let md = (if spec = 99
                     then if sz = AO_SIZE_L then AO_REHOME_WIDE_COUNT else AO_REHOME_CHAR_COUNT
                     else if sz = AO_SIZE_L then AO_REHOME_WIDE_STRING else AO_REHOME_CHAR_STRING)
      in ao_scanf_plan_push realloc plan \<lparr>slot = dest, ordinal = ordnl, mode = md, width = wd\<rparr> w)"

definition ao_record_wide_m_conversion ::
  "'a realloc_fn \<Rightarrow> ao_scanf_plan \<Rightarrow> ptr \<Rightarrow> 32 word \<Rightarrow> ao_size \<Rightarrow> wchar \<Rightarrow> size_t \<Rightarrow> 'a libc_scheme
   \<Rightarrow> ((int \<times> ao_scanf_plan) \<times> 'a libc_scheme) outcome" where
  "ao_record_wide_m_conversion realloc plan dest ordnl sz spec wd w =
     (if dest = NULL then Done ((0, plan), w)
      else let md = (if spec = 99
                     then if sz = AO_SIZE_L then AO_REHOME_WIDE_COUNT else AO_REHOME_UNSUPPORTED_WIDE_CHAR_COUNT
                     else if sz = AO_SIZE_L then AO_REHOME_WIDE_STRING else AO_REHOME_CHAR_STRING)
      in ao_scanf_plan_push realloc plan \<lparr>slot = dest, ordinal = ordnl, mode = md, width = wd\<rparr> w)"

section \<open>The format parsers\<close>

text \<open>Length modifiers.\<close>

definition length_modifier :: "'c::len word list \<Rightarrow> ao_size \<times> 'c word list" where
  "length_modifier p =
     (if hd0 p = 108
      then let p = tl p in if hd0 p \<noteq> 108 then (AO_SIZE_L, p) else (AO_SIZE_DEF, tl p)
      else if hd0 p = 104 \<or> hd0 p = 106 \<or> hd0 p = 122 \<or> hd0 p = 116 \<or> hd0 p = 76
      then let p = (if hd0 p = 104 \<and> hd0 (tl p) = 104 then tl p else p) in (AO_SIZE_DEF, tl p)
      else (AO_SIZE_DEF, p))"

text \<open>
  A directive up to its conversion character, from the character after \<open>%\<close>: suppression or the
  destination, the width, \<open>m\<close> and the length modifier.
\<close>

definition directive_dest ::
  "'c::len word list \<Rightarrow> ptr list \<Rightarrow> (bool \<times> ptr \<times> 'c word list \<times> ptr list) outcome" where
  "directive_dest p ap =
     (if hd0 p = 42 then Done (True, NULL, tl p, ap)
      else case parse_position p of (found, position, p) \<Rightarrow>
        if found then obind (ao_arg_n ap position) (\<lambda>dest. Done (False, dest, p, ap))
        else obind (va_arg ap) (\<lambda>(dest, ap). Done (False, dest, p, ap)))"

definition directive_flags :: "'c::len word list \<Rightarrow> size_t \<times> bool \<times> ao_size \<times> 'c word list" where
  "directive_flags p =
     (let (wd, p) = (if is_digit (hd0 p) then parse_width p else (0, p));
          (alloc, p) = (if hd0 p = 109 then (True, tl p) else (False, p));
          (sz, p) = length_modifier p
      in (wd, alloc, sz, p))"

text \<open>The conversion character, with \<open>C\<close> and \<open>S\<close> read as \<open>lc\<close> and \<open>ls\<close>.\<close>

definition directive_spec :: "'c::len word \<Rightarrow> ao_size \<Rightarrow> 'c word \<times> ao_size" where
  "directive_spec spec sz = (if spec AND 0x2f = 3 then (spec OR 32, AO_SIZE_L) else (spec, sz))"

type_synonym ('c, 'a) record_fn =
  "ao_scanf_plan \<Rightarrow> ptr \<Rightarrow> 32 word \<Rightarrow> ao_size \<Rightarrow> 'c \<Rightarrow> size_t \<Rightarrow> 'a libc_scheme
   \<Rightarrow> ((int \<times> ao_scanf_plan) \<times> 'a libc_scheme) outcome"

lemma length_tl_hd0: "hd0 p \<noteq> 0 \<Longrightarrow> length (tl p) < length p"
  by (cases p) auto

lemma length_width_loop: "length (snd (width_loop wd p)) \<le> length p"
  by (induction wd p rule: width_loop.induct) auto

lemma length_position_loop: "length (snd (position_loop v p)) \<le> length p"
  by (induction v p rule: position_loop.induct) auto

lemma length_parse_position: "length (snd (snd (parse_position p))) \<le> length p"
  using length_position_loop [of 0 p] by (auto simp: parse_position_def split: prod.splits)

lemma length_length_modifier: "length (snd (length_modifier p)) \<le> length p"
  by (auto simp: length_modifier_def Let_def)

lemma length_directive_flags: "length (snd (snd (snd (directive_flags p)))) \<le> length p"
proof -
  obtain wd p1 where 1: "(if is_digit (hd0 p) then parse_width p else (0, p)) = (wd, p1)" by (metis surj_pair)
  then have "length p1 \<le> length p"
    using length_width_loop [of 0 p] by (auto simp: parse_width_def split: if_splits)
  moreover obtain al p2 where 2: "(if hd0 p1 = 109 then (True, tl p1) else (False, p1)) = (al, p2)" by (metis surj_pair)
  moreover have "length p2 \<le> length p1" using 2 by (auto split: if_splits)
  ultimately show ?thesis
    using 1 length_length_modifier [of p2] by (auto simp: directive_flags_def split: prod.splits)
qed

lemma length_directive_dest: "directive_dest p ap = Done (sp, dest, q, ap') \<Longrightarrow> length q \<le> length p"
  using length_parse_position [of p]
  by (auto simp: directive_dest_def obind_eq_Done split: if_splits prod.splits)

lemma length_dropWhile_tl:
  "length (dropWhile P (tl q)) \<le> length q" "length (dropWhile P (tl (tl q))) \<le> length q"
  using length_dropWhile_le [of P "tl q"] length_dropWhile_le [of P "tl (tl q)"] by auto

lemma length_skip_scanset: "length (skip_scanset p) \<le> length p"
  using length_dropWhile_tl [of "\<lambda>c. c \<noteq> 0 \<and> c \<noteq> 93" p] length_dropWhile_le [of "\<lambda>c. c \<noteq> 0 \<and> c \<noteq> 93" p]
  by (auto simp: skip_scanset_def Let_def)

text \<open>A directive is shorter than the format it starts.\<close>

lemma directive_shorter:
  assumes "hd0 p \<noteq> 0" "directive_dest (tl p) ap = Done (sp, dest, q, ap')" "(wd, alloc, sz, r) = directive_flags q"
  shows "length (skip_scanset (tl r)) < length p" "length (tl r) < length p"
proof -
  have "length r \<le> length q" using length_directive_flags [of q] assms(3) by (metis snd_conv)
  also have "length q \<le> length (tl p)" using assms(2) by (rule length_directive_dest)
  also have "length (tl p) < length p" using assms(1) by (rule length_tl_hd0)
  finally show "length (tl r) < length p" by simp
  then show "length (skip_scanset (tl r)) < length p"
    using length_skip_scanset [of "tl r"] by linarith
qed

function parse_format ::
  "('c::len word, 'a) record_fn \<Rightarrow> 'c word list \<Rightarrow> 32 word \<Rightarrow> ptr list \<Rightarrow> ao_scanf_plan \<Rightarrow> 'a libc_scheme
   \<Rightarrow> ((int \<times> ao_scanf_plan) \<times> 'a libc_scheme) outcome" where
  "parse_format rec p ordnl ap plan w =
     (if hd0 p = 0 then Done ((0, plan), w)
      else if hd0 p \<noteq> 37 then parse_format rec (tl p) ordnl ap plan w
      else if hd0 (tl p) = 37 then parse_format rec (tl (tl p)) ordnl ap plan w
      else obind (directive_dest (tl p) ap) (\<lambda>(suppressed, dest, p, ap).
        case directive_flags p of (wd, alloc, sz, p) \<Rightarrow>
          if hd0 p = 0 then Done ((0, plan), w)
          else case directive_spec (hd0 p) sz of (spec, sz) \<Rightarrow>
            obind (if alloc \<and> \<not> suppressed \<and> (spec = 115 \<or> spec = 99 \<or> spec = 91)
                   then rec plan dest (ordnl + 1) sz spec (if spec = 99 \<and> wd = 0 then 1 else wd) w
                   else Done ((0, plan), w)) (\<lambda>((rc, plan), w).
              if rc \<noteq> 0 then Done ((-1, plan), w)
              else parse_format rec (if spec = 91 then skip_scanset (tl p) else tl p)
                     (if \<not> suppressed \<and> spec \<noteq> 110 then ordnl + 1 else ordnl) ap plan w)))"
  by pat_completeness auto
termination
proof (relation "measure (\<lambda>(_, p, _). length p)", goal_cases)
  case (2 rec p ordnl ap plan w)
  then show ?case using length_tl_hd0 [of p] by simp
next
  case (3 rec p ordnl ap plan w)
  then show ?case using length_tl_hd0 [of p] by simp
next
  case 4
  then show ?case by (auto simp del: length_tl intro: directive_shorter)
qed simp

declare parse_format.simps [simp del]

definition ao_parse_scanf_format ::
  "'a realloc_fn \<Rightarrow> byte list \<Rightarrow> ptr list \<Rightarrow> ao_scanf_plan \<Rightarrow> 'a libc_scheme
   \<Rightarrow> ((int \<times> ao_scanf_plan) \<times> 'a libc_scheme) outcome" where
  "ao_parse_scanf_format realloc format ap plan w =
     parse_format (ao_record_narrow_m_conversion realloc) format 0 ap plan w"

definition ao_parse_wscanf_format ::
  "'a realloc_fn \<Rightarrow> wchar list \<Rightarrow> ptr list \<Rightarrow> ao_scanf_plan \<Rightarrow> 'a libc_scheme
   \<Rightarrow> ((int \<times> ao_scanf_plan) \<times> 'a libc_scheme) outcome" where
  "ao_parse_wscanf_format realloc format ap plan w =
     parse_format (ao_record_wide_m_conversion realloc) format 0 ap plan w"

end
