(* ===== verification/Scanf_Plan.thy ===== *)
theory Scanf_Plan
  imports Scanf_Format Line_Overrides
begin

text \<open>
  Lemmas on the format parsers: the width parser never wraps, the plan array is grown safely, and the
  parsers compute exactly the records of a reference definition that has no heap.
\<close>

section \<open>Field widths\<close>

text \<open>The decimal value of the leading digits, after a prefix of value \<open>v\<close>.\<close>

fun digits_value :: "nat \<Rightarrow> 'c::len word list \<Rightarrow> nat" where
  "digits_value v [] = v"
| "digits_value v (c # p) = (if is_digit c then digits_value (v * 10 + (unat c - 48)) p else v)"

lemma width_loop_rest: "snd (width_loop wd p) = dropWhile is_digit p"
  by (induction wd p rule: width_loop.induct) auto

lemma unat_width_limit: "unat ((SIZE_MAX - 9) div 10) = 1844674407370955160"
proof -
  have "unat (SIZE_MAX - 9) = 2 ^ 64 - 10"
    by (subst unat_sub_no_wrap) (simp_all add: unat_SIZE_MAX word_le_nat_alt)
  then show ?thesis by (simp add: unat_div)
qed

lemma is_digit_value: "is_digit (c :: 'c::len word) \<Longrightarrow> 6 \<le> LENGTH('c) \<Longrightarrow> unat c - 48 \<le> 9"
proof -
  assume d: "is_digit c" and l: "6 \<le> LENGTH('c)"
  have "(57 :: nat) < 2 ^ 6" by simp
  also have "(2 :: nat) ^ 6 \<le> 2 ^ LENGTH('c)" using l by (rule power_increasing) simp
  finally have "unat (57 :: 'c word) = 57" by (simp add: unat_of_nat take_bit_nat_eq_self)
  with d show ?thesis by (auto simp: is_digit_def word_le_nat_alt)
qed

definition width_exact :: "nat \<Rightarrow> size_t \<Rightarrow> bool" where
  "width_exact v wd \<longleftrightarrow>
     unat wd = (if v \<le> 18446744073709551609 then v else 2 ^ 64 - 1)"

lemma width_exact_step:
  assumes "width_exact v wd" "d \<le> 9"
  shows "width_exact (v * 10 + d) (if wd > (SIZE_MAX - 9) div 10 then SIZE_MAX else wd * 10 + of_nat d)"
proof (cases "wd > (SIZE_MAX - 9) div 10")
  case True
  then have "unat wd > 1844674407370955160" by (simp add: word_less_nat_alt unat_width_limit)
  then have "v > 1844674407370955160" using assms(1) by (auto simp: width_exact_def split: if_splits)
  with True show ?thesis by (simp add: width_exact_def unat_SIZE_MAX)
next
  case False
  then have le: "unat wd \<le> 1844674407370955160" by (simp add: word_less_nat_alt unat_width_limit)
  then have v: "v = unat wd" using assms(1) by (auto simp: width_exact_def split: if_splits)
  have m: "unat (wd * 10) = unat wd * 10"
    using le by (simp add: unat_word_ariths)
  have "unat (of_nat d :: size_t) = d" using assms(2) by (intro unat_of_nat_lt) simp
  then have "unat (wd * 10 + of_nat d) = unat wd * 10 + d"
    using le m assms(2) by (subst unat_add_no_wrap) simp_all
  with False v le assms(2) show ?thesis by (simp add: width_exact_def)
qed

lemma width_loop_exact:
  assumes "width_exact v wd" "6 \<le> LENGTH('c)"
  shows "width_exact (digits_value v p) (fst (width_loop wd (p :: 'c::len word list)))"
  using assms
proof (induction wd p arbitrary: v rule: width_loop.induct)
  case (2 wd c p)
  show ?case
  proof (cases "is_digit c")
    case True
    from width_exact_step [OF "2.prems"(1) is_digit_value [OF True "2.prems"(2)]] show ?thesis
      using "2.IH" [OF True] "2.prems"(2) True by simp
  next
    case False
    with "2.prems" show ?thesis by simp
  qed
qed simp

lemma parse_width_exact:
  assumes "6 \<le> LENGTH('c)"
  shows "unat (fst (parse_width (p :: 'c::len word list)))
      = (if digits_value 0 p \<le> 18446744073709551609 then digits_value 0 p else 2 ^ 64 - 1)"
    and "snd (parse_width p) = dropWhile is_digit p"
  using width_loop_exact [OF _ assms, of 0 0 p]
  by (simp_all add: parse_width_def width_loop_rest width_exact_def)

section \<open>The plan array\<close>

definition plan_ok :: "('a libc_scheme \<Rightarrow> ptr \<Rightarrow> bool) \<Rightarrow> ao_scanf_plan \<Rightarrow> 'a libc_scheme \<Rightarrow> bool" where
  "plan_ok owned plan w \<longleftrightarrow>
     unat (plan_count plan) = length (items plan) \<and> plan_count plan \<le> capacity plan
     \<and> (if records plan = NULL then capacity plan = 0
        else owned w (records plan) \<and> unat (capacity plan) * 24 \<le> SSIZE_MAX
          \<and> (\<exists>cs. blocks w (records plan) = Some cs \<and> length cs = unat (capacity plan) * 24))"

lemma plan_ok_empty: "plan_ok owned empty_plan w"
  by (simp add: plan_ok_def empty_plan_def)

context c_allocator
begin

lemma plan_room_law:
  assumes inv: "inv w" and ok: "plan_ok owned plan w"
  shows "wp (records plan = NULL \<and> room w = 0)
    (if plan_count plan = capacity plan
     then let new_capacity = (if capacity plan = 0 then 8 else capacity plan * 2)
          in obind (realloc (records plan) (new_capacity * sizeof_ao_scanf_record) w) (\<lambda>(p, w).
               if p = NULL then Done ((-1, plan), w)
               else Done ((0 :: int, plan\<lparr>records := p, capacity := new_capacity\<rparr>), w))
     else Done ((0, plan), w))
    (\<lambda>((rc, plan'), w'). inv w' \<and> replaced owned (records plan) w (records plan') w' \<and>
       (if rc = 0 then plan_ok owned plan' w' \<and> records plan' \<noteq> NULL \<and> items plan' = items plan
            \<and> plan_count plan' = plan_count plan \<and> plan_count plan < capacity plan'
        else plan' = plan \<and> blocks w' = blocks w \<and> owned w' = owned w \<and> errno w' = ENOMEM))"
proof (cases "plan_count plan = capacity plan")
  case False
  with ok have "plan_count plan < capacity plan" "records plan \<noteq> NULL" by (auto simp: plan_ok_def)
  with False ok inv show ?thesis by simp
next
  case True
  define c where "c = (if capacity plan = 0 then 8 else capacity plan * 2)"
  have cap: "unat (capacity plan) * 24 \<le> SSIZE_MAX" using ok by (auto simp: plan_ok_def split: if_splits)
  then have cn: "unat (capacity plan) \<le> 384307168202282325" by simp
  have c: "unat c = (if capacity plan = 0 then 8 else unat (capacity plan) * 2)"
    using cn by (simp add: c_def unat_word_ariths)
  have c24: "unat (c * sizeof_ao_scanf_record) = unat c * 24"
    using cn c by (auto simp: unat_word_ariths sizeof_ao_scanf_record_def split: if_splits)
  have lt: "unat (capacity plan) < unat c" using c by (auto simp: unat_gt_0)
  then have nz: "c * sizeof_ao_scanf_record \<noteq> 0" using c24 by auto
  have rec: "records plan \<noteq> NULL \<Longrightarrow> owned w (records plan) \<and> blocks w (records plan) \<noteq> None"
    using ok by (auto simp: plan_ok_def)
  show ?thesis
    unfolding if_P [OF True] Let_def c_def [symmetric]
  proof (rule wp_bindI [OF realloc_buffer_law [OF inv nz rec]], assumption, goal_cases)
    case (2 x)
    obtain p u where x: "x = (p, u)" by (cases x)
    show ?case
    proof (cases "p = NULL")
      case True
      with 2 x show ?thesis by (auto intro: replaced_unchanged)
    next
      case False
      with 2 x c24 have u: "inv u" "replaced owned (records plan) w p u" "owned u p" "unat c * 24 \<le> SSIZE_MAX"
          "\<exists>cs. blocks u p = Some cs \<and> length cs = unat c * 24" by auto
      have "plan_count plan < c" using lt True by (simp add: word_less_nat_alt)
      with u False x ok show ?thesis by (auto simp: plan_ok_def)
    qed
  qed simp
qed

lemma plan_push_law:
  assumes inv: "inv w" and ok: "plan_ok owned plan w"
  shows "wp (records plan = NULL \<and> room w = 0) (ao_scanf_plan_push realloc plan r w)
    (\<lambda>((rc, plan'), w'). inv w' \<and> replaced owned (records plan) w (records plan') w' \<and> plan_ok owned plan' w' \<and>
       (if rc = 0 then items plan' = items plan @ [r] \<and> records plan' \<noteq> NULL
        else items plan' = items plan \<and> errno w' = ENOMEM))"
  unfolding ao_scanf_plan_push_def
proof (rule wp_bindI [OF plan_room_law [OF inv ok]], assumption, goal_cases)
  case (1 x)
  obtain rc pl u where x: "x = ((rc, pl), u)" by (metis surj_pair)
  show ?case
  proof (cases "rc = 0")
    case False
    with 1 x ok show ?thesis by (auto simp: plan_ok_def)
  next
    case True
    with 1 x have pl: "inv u" "replaced owned (records plan) w (records pl) u" "plan_ok owned pl u"
        "records pl \<noteq> NULL" "items pl = items plan" "plan_count pl = plan_count plan" "plan_count plan < capacity pl"
      by auto
    then obtain cs where cs: "blocks u (records pl) = Some cs" "length cs = unat (capacity pl) * 24"
        "unat (plan_count plan) = length (items plan)"
      by (auto simp: plan_ok_def)
    have lt: "unat (plan_count plan) < unat (capacity pl)" using pl(7) by (simp add: word_less_nat_alt)
    then have n: "unat (plan_count plan + 1) = unat (plan_count plan) + 1"
      using unsigned_less [where 'a = nat, of "capacity pl"] by (subst unat_add_no_wrap) simp_all
    have st: "store_record pl r u = Done (pl\<lparr>items := items plan @ [r], plan_count := plan_count plan + 1\<rparr>, u)"
      using cs lt pl by (simp add: store_record_def sizeof_ao_scanf_record_def)
    have "plan_ok owned (pl\<lparr>items := items plan @ [r], plan_count := plan_count plan + 1\<rparr>) u"
      using pl(3) cs(3) n lt pl(4) by (simp add: plan_ok_def word_le_nat_alt)
    with x True st pl show ?thesis by simp
  qed
qed

lemma plan_reset_law:
  assumes inv: "inv w" and ok: "plan_ok owned plan w"
  shows "wp False (ao_scanf_plan_reset free plan w) (\<lambda>(plan', w'). inv w' \<and> plan' = empty_plan
    \<and> blocks w' = (blocks w)(records plan := None) \<and> errno w' = errno w
    \<and> owned w' = (if records plan = NULL then owned w else (owned w)(records plan := False)))"
proof (cases "records plan = NULL")
  case True
  have "blocks w NULL = None" using NULL_law [OF inv] .
  with True inv show ?thesis
    by (simp add: ao_scanf_plan_reset_def free_NULL_law empty_plan_def fun_upd_idem)
next
  case False
  with ok obtain cs where "blocks w (records plan) = Some cs" "owned w (records plan)" by (auto simp: plan_ok_def)
  from free_law [OF inv this(2) False this(1)] False show ?thesis
    unfolding ao_scanf_plan_reset_def by (elim wp_bindI) (auto simp: empty_plan_def)
qed

end

section \<open>The records of a format\<close>

text \<open>
  The reference: the records a format and its arguments ask for, with no heap and no failure. \<open>md\<close> gives
  the mode of a conversion.
\<close>

definition narrow_mode :: "ao_size \<Rightarrow> byte \<Rightarrow> ao_rehome_mode" where
  "narrow_mode sz spec =
     (if spec = 99 then if sz = AO_SIZE_L then AO_REHOME_WIDE_COUNT else AO_REHOME_CHAR_COUNT
      else if sz = AO_SIZE_L then AO_REHOME_WIDE_STRING else AO_REHOME_CHAR_STRING)"

definition wide_mode :: "ao_size \<Rightarrow> wchar \<Rightarrow> ao_rehome_mode" where
  "wide_mode sz spec =
     (if spec = 99 then if sz = AO_SIZE_L then AO_REHOME_WIDE_COUNT else AO_REHOME_UNSUPPORTED_WIDE_CHAR_COUNT
      else if sz = AO_SIZE_L then AO_REHOME_WIDE_STRING else AO_REHOME_CHAR_STRING)"

definition conversion_record ::
  "(ao_size \<Rightarrow> 'c::len word \<Rightarrow> ao_rehome_mode) \<Rightarrow> bool \<Rightarrow> ptr \<Rightarrow> 32 word \<Rightarrow> bool \<Rightarrow> ao_size \<Rightarrow> 'c word \<Rightarrow> size_t
   \<Rightarrow> ao_scanf_record list" where
  "conversion_record md suppressed dest ordnl alloc sz spec wd =
     (if alloc \<and> \<not> suppressed \<and> (spec = 115 \<or> spec = 99 \<or> spec = 91) \<and> dest \<noteq> NULL
      then [\<lparr>slot = dest, ordinal = ordnl, mode = md sz spec, width = (if spec = 99 \<and> wd = 0 then 1 else wd)\<rparr>]
      else [])"

function format_records ::
  "(ao_size \<Rightarrow> 'c::len word \<Rightarrow> ao_rehome_mode) \<Rightarrow> 'c word list \<Rightarrow> 32 word \<Rightarrow> ptr list
   \<Rightarrow> ao_scanf_record list outcome" where
  "format_records md p ordnl ap =
     (if hd0 p = 0 then Done []
      else if hd0 p \<noteq> 37 then format_records md (tl p) ordnl ap
      else if hd0 (tl p) = 37 then format_records md (tl (tl p)) ordnl ap
      else obind (directive_dest (tl p) ap) (\<lambda>(suppressed, dest, p, ap).
        case directive_flags p of (wd, alloc, sz, p) \<Rightarrow>
          if hd0 p = 0 then Done []
          else case directive_spec (hd0 p) sz of (spec, sz) \<Rightarrow>
            obind (format_records md (if spec = 91 then skip_scanset (tl p) else tl p)
                     (if \<not> suppressed \<and> spec \<noteq> 110 then ordnl + 1 else ordnl) ap) (\<lambda>rs.
              Done (conversion_record md suppressed dest (ordnl + 1) alloc sz spec wd @ rs))))"
  by pat_completeness auto
termination
proof (relation "measure (\<lambda>(_, p, _). length p)", goal_cases)
  case (2 md p ordnl ap)
  then show ?case using length_tl_hd0 [of p] by simp
next
  case (3 md p ordnl ap)
  then show ?case using length_tl_hd0 [of p] by simp
next
  case 4
  then show ?case by (auto simp del: length_tl intro: directive_shorter)
qed simp

declare format_records.simps [simp del]

text \<open>Both recording functions push the record of the conversion, or do nothing for a null destination.\<close>

definition records_conversions ::
  "('c::len word, 'a) record_fn \<Rightarrow> 'a realloc_fn \<Rightarrow> (ao_size \<Rightarrow> 'c word \<Rightarrow> ao_rehome_mode) \<Rightarrow> bool" where
  "records_conversions rec realloc md \<longleftrightarrow>
     (\<forall>plan dest ordnl sz spec wd w. rec plan dest ordnl sz spec wd w =
        (if dest = NULL then Done ((0, plan), w)
         else ao_scanf_plan_push realloc plan
                \<lparr>slot = dest, ordinal = ordnl, mode = md sz spec, width = wd\<rparr> w))"

lemma narrow_records: "records_conversions (ao_record_narrow_m_conversion realloc) realloc narrow_mode"
  by (simp add: records_conversions_def ao_record_narrow_m_conversion_def narrow_mode_def Let_def)

lemma wide_records: "records_conversions (ao_record_wide_m_conversion realloc) realloc wide_mode"
  by (simp add: records_conversions_def ao_record_wide_m_conversion_def wide_mode_def Let_def)

context c_allocator
begin

lemma record_conversion_law:
  assumes inv: "inv w" and ok: "plan_ok owned plan w" and rec: "records_conversions rec realloc md"
  shows "wp (records plan = NULL \<and> room w = 0)
    (if alloc \<and> \<not> suppressed \<and> (spec = 115 \<or> spec = 99 \<or> spec = 91)
     then rec plan dest ordnl sz spec (if spec = 99 \<and> wd = 0 then 1 else wd) w else Done ((0, plan), w))
    (\<lambda>((rc, plan'), w'). inv w' \<and> plan_ok owned plan' w' \<and> replaced owned (records plan) w (records plan') w'
       \<and> (if rc = 0 then (records plan' = NULL \<longrightarrow> records plan = NULL \<and> room w' = room w)
            \<and> items plan' = items plan @ conversion_record md suppressed dest ordnl alloc sz spec wd
          else errno w' = ENOMEM))"
proof (cases "conversion_record md suppressed dest ordnl alloc sz spec wd = []")
  case True
  with rec inv ok show ?thesis
    by (auto simp: conversion_record_def records_conversions_def split: if_splits)
next
  case False
  then have c: "alloc" "\<not> suppressed" "spec = 115 \<or> spec = 99 \<or> spec = 91" "dest \<noteq> NULL"
    by (auto simp: conversion_record_def split: if_splits)
  let ?r = "\<lparr>slot = dest, ordinal = ordnl, mode = md sz spec, width = (if spec = 99 \<and> wd = 0 then 1 else wd)\<rparr>"
  have "rec plan dest ordnl sz spec (if spec = 99 \<and> wd = 0 then 1 else wd) w = ao_scanf_plan_push realloc plan ?r w"
    using rec c(4) by (simp add: records_conversions_def)
  moreover have "conversion_record md suppressed dest ordnl alloc sz spec wd = [?r]"
    using c by (simp add: conversion_record_def)
  ultimately show ?thesis
    using plan_push_law [OF inv ok, of ?r] c
    by (auto elim!: wp_conseq split: if_splits)
qed

lemma parse_format_law:
  assumes "inv w" "plan_ok owned plan w" "records_conversions rec realloc md" "format_records md p ordnl ap = Done rs"
  shows "wp (records plan = NULL \<and> room w = 0) (parse_format rec p ordnl ap plan w)
    (\<lambda>((rc, plan'), w'). inv w' \<and> plan_ok owned plan' w' \<and> replaced owned (records plan) w (records plan') w'
       \<and> (rc = 0 \<and> items plan' = items plan @ rs \<or> rc = -1 \<and> errno w' = ENOMEM))"
  using assms
proof (induction md p ordnl ap arbitrary: plan w rs rule: format_records.induct)
  case (1 md p ordnl ap)
  note res = "1.prems"(4) [unfolded format_records.simps [of md p]]
  note parse = parse_format.simps [of rec p]
  show ?case
  proof (cases "hd0 p = 0 \<or> hd0 p \<noteq> 37 \<or> hd0 (tl p) = 37")
    case True
    then show ?thesis
      using "1.IH"(1) [OF _ _ "1.prems"(1,2,3)] "1.IH"(2) [OF _ _ _ "1.prems"(1,2,3)] "1.prems"(1,2) res
      by (auto simp: parse split: if_splits)
  next
    case False
    then have g: "hd0 p \<noteq> 0" "\<not> hd0 p \<noteq> 37" "hd0 (tl p) \<noteq> 37" by auto
    have res': "obind (directive_dest (tl p) ap) (\<lambda>(suppressed, dest, p, ap).
        case directive_flags p of (wd, alloc, sz, p) \<Rightarrow>
          if hd0 p = 0 then Done []
          else case directive_spec (hd0 p) sz of (spec, sz) \<Rightarrow>
            obind (format_records md (if spec = 91 then skip_scanset (tl p) else tl p)
                     (if \<not> suppressed \<and> spec \<noteq> 110 then ordnl + 1 else ordnl) ap) (\<lambda>rs.
              Done (conversion_record md suppressed dest (ordnl + 1) alloc sz spec wd @ rs))) = Done rs"
      using res g by simp
    then obtain sp dest q ap' where dd: "directive_dest (tl p) ap = Done (sp, dest, q, ap')"
      by (auto simp: obind_eq_Done)
    obtain wd alloc sz r where df: "directive_flags q = (wd, alloc, sz, r)" by (metis surj_pair)
    show ?thesis
    proof (cases "hd0 r = 0")
      case True
      with g dd df res' "1.prems"(1,2) show ?thesis by (simp add: parse)
    next
      case ne: False
      obtain spec sz' where ds: "directive_spec (hd0 r) sz = (spec, sz')" by (metis surj_pair)
      let ?p = "if spec = 91 then skip_scanset (tl r) else tl r"
      let ?o = "if \<not> sp \<and> spec \<noteq> 110 then ordnl + 1 else ordnl"
      let ?c = "conversion_record md sp dest (ordnl + 1) alloc sz' spec wd"
      from res' dd df ne ds obtain rs' where rs: "format_records md ?p ?o ap' = Done rs'" "rs = ?c @ rs'"
        by (auto simp: obind_eq_Done)
      have IH: "wp (records pl = NULL \<and> room u = 0) (parse_format rec ?p ?o ap' pl u)
          (\<lambda>((rc, plan'), w'). inv w' \<and> plan_ok owned plan' w' \<and> replaced owned (records pl) u (records plan') w'
             \<and> (rc = 0 \<and> items plan' = items pl @ rs' \<or> rc = -1 \<and> errno w' = ENOMEM))"
        if "inv u" "plan_ok owned pl u" for pl u
        using "1.IH"(3) [OF g dd refl refl refl df [symmetric] refl refl ne ds [symmetric] that "1.prems"(3) rs(1)]
        by simp
      have eq: "parse_format rec p ordnl ap plan w =
          obind (if alloc \<and> \<not> sp \<and> (spec = 115 \<or> spec = 99 \<or> spec = 91)
                 then rec plan dest (ordnl + 1) sz' spec (if spec = 99 \<and> wd = 0 then 1 else wd) w
                 else Done ((0, plan), w)) (\<lambda>((rc, plan), w).
            if rc \<noteq> 0 then Done ((-1, plan), w) else parse_format rec ?p ?o ap' plan w)"
        using g dd df ne ds by (simp add: parse)
      show ?thesis
        unfolding eq
      proof (rule wp_bindI [OF record_conversion_law [OF "1.prems"(1,2,3)]], assumption, goal_cases)
        case (1 x)
        obtain rc pl u where x: "x = ((rc, pl), u)" by (metis surj_pair)
        show ?case
        proof (cases "rc = 0")
          case False
          with 1 x show ?thesis by auto
        next
          case True
          with 1 x have pl: "inv u" "plan_ok owned pl u" "replaced owned (records plan) w (records pl) u"
              "records pl = NULL \<Longrightarrow> records plan = NULL \<and> room u = room w" "items pl = items plan @ ?c"
            by auto
          show ?thesis
            unfolding x prod.case True simp_thms if_False
            by (rule wp_conseq [OF IH [OF pl(1,2)]])
              (use pl rs(2) in \<open>auto intro: replaced_trans [OF pl(3)]\<close>)
        qed
      qed
    qed
  qed
qed

end

section \<open>The order of the records\<close>

text \<open>
  The ordinals grow strictly along the records: the conversion characters that allocate are not \<open>n\<close>, so each
  record counts. A format of fewer than \<open>2 ^ 31\<close> characters cannot wrap them.
\<close>

lemma format_records_ordinals:
  assumes ne: "(115 :: 'c::len word) \<noteq> 110" "(99 :: 'c word) \<noteq> 110" "(91 :: 'c word) \<noteq> 110"
    and "format_records md (p :: 'c word list) ordnl ap = Done rs" "unat ordnl + length p < 2 ^ 31"
  shows "sorted_wrt (<) (map (\<lambda>r. unat (ordinal r)) rs)
    \<and> (\<forall>r \<in> set rs. unat ordnl < unat (ordinal r) \<and> unat (ordinal r) \<le> unat ordnl + length p)"
  using assms(4,5)
proof (induction md p ordnl ap arbitrary: rs rule: format_records.induct)
  case (1 md p ordnl ap)
  note res = "1.prems"(1) [unfolded format_records.simps [of md p]]
  show ?case
  proof (cases "hd0 p = 0 \<or> hd0 p \<noteq> 37 \<or> hd0 (tl p) = 37")
    case True
    then show ?thesis
      using "1.IH"(1) [of rs] "1.IH"(2) [of rs] "1.prems"(2) res by (fastforce split: if_splits)
  next
    case False
    then have g: "hd0 p \<noteq> 0" "\<not> hd0 p \<noteq> 37" "hd0 (tl p) \<noteq> 37" by auto
    then obtain sp dest q ap' where d: "directive_dest (tl p) ap = Done (sp, dest, q, ap')"
      using res by (auto simp: obind_eq_Done)
    obtain wd alloc sz r where f: "directive_flags q = (wd, alloc, sz, r)" by (metis surj_pair)
    obtain spec sz' where s: "directive_spec (hd0 r) sz = (spec, sz')" by (cases "directive_spec (hd0 r) sz")
    let ?p = "if spec = 91 then skip_scanset (tl r) else tl r"
    let ?o = "if \<not> sp \<and> spec \<noteq> 110 then ordnl + 1 else ordnl"
    show ?thesis
    proof (cases "hd0 r = 0")
      case True
      with res g d f show ?thesis by simp
    next
      case False
      then obtain rs' where rs': "format_records md ?p ?o ap' = Done rs'"
          "rs = conversion_record md sp dest (ordnl + 1) alloc sz' spec wd @ rs'"
        using res g d f s by (auto simp: obind_eq_Done)
      have len: "length ?p < length p" using directive_shorter [OF g(1) d f [symmetric]] by simp
      have o1: "unat (ordnl + 1) = unat ordnl + 1"
        using "1.prems"(2) by (simp add: unat_word_ariths)
      then have o: "unat ?o \<le> unat ordnl + 1" "unat ordnl \<le> unat ?o" by simp_all
      have IH: "sorted_wrt (<) (map (\<lambda>r. unat (ordinal r)) rs')
          \<and> (\<forall>r \<in> set rs'. unat ?o < unat (ordinal r) \<and> unat (ordinal r) \<le> unat ?o + length ?p)"
        using len o "1.prems"(2)
        by (intro "1.IH"(3) [OF g d refl refl refl f [symmetric] refl refl False s [symmetric] rs'(1)]) simp
      show ?thesis
      proof (cases "conversion_record md sp dest (ordnl + 1) alloc sz' spec wd = []")
        case True
        with IH rs'(2) o len show ?thesis by fastforce
      next
        case rec: False
        then have "\<not> sp" "spec \<noteq> 110" using ne by (auto simp: conversion_record_def split: if_splits)
        with rec IH rs'(2) o1 len show ?thesis by (fastforce simp: conversion_record_def split: if_splits)
      qed
    qed
  qed
qed

end
