(* ===== verification/Scanf_Overrides.thy ===== *)
theory Scanf_Overrides
  imports Scanf_Plan
begin

text \<open>
  \<open>src/scanf_overrides.c\<close>, second half: after libc's scanner returned, the results of \<open>%m\<close> conversions are moved
  into blocks of the preloaded allocator; the wrappers and the 24 entry points.

  The pointer variables of the caller are a map from their addresses to their values. libc's
  scanners, the allocator the library is linked to and the bridge functions another library may
  export are arguments: \<open>dlsym\<close> answers with the fields of \<open>scanf_symbols\<close>.
\<close>

type_synonym slots = "ptr \<Rightarrow> ptr option"

type_synonym ('f, 'a) scan_fn =
  "ptr \<Rightarrow> 'f \<Rightarrow> ptr list \<Rightarrow> slots \<Rightarrow> 'a libc_scheme \<Rightarrow> (int \<times> slots \<times> 'a libc_scheme) outcome"

record 'a allocator_fns =
  al_malloc :: "'a malloc_fn"
  al_realloc :: "'a realloc_fn"
  al_free :: "'a free_fn"

record 'a scanf_symbols =
  sym_vfscanf :: "(byte list, 'a) scan_fn option"
  sym_isoc99_vfscanf :: "(byte list, 'a) scan_fn option"
  sym_vsscanf :: "(byte list, 'a) scan_fn option"
  sym_isoc99_vsscanf :: "(byte list, 'a) scan_fn option"
  sym_vfwscanf :: "(wchar list, 'a) scan_fn option"
  sym_isoc99_vfwscanf :: "(wchar list, 'a) scan_fn option"
  sym_vswscanf :: "(wchar list, 'a) scan_fn option"
  sym_isoc99_vswscanf :: "(wchar list, 'a) scan_fn option"
  sym_bridge_owns :: "(ptr \<Rightarrow> 'a libc_scheme \<Rightarrow> (bool \<times> 'a libc_scheme) outcome) option"
  sym_bridge_libc_free :: "'a free_fn option"
  sym_bridge_libc_realloc :: "'a realloc_fn option"
  sym_stdin :: ptr

record 'a scanf_globals =
  g_ao_scanf_once :: bool
  g_real_vfscanf :: "(byte list, 'a) scan_fn option"
  g_real_isoc99_vfscanf :: "(byte list, 'a) scan_fn option"
  g_real_vsscanf :: "(byte list, 'a) scan_fn option"
  g_real_isoc99_vsscanf :: "(byte list, 'a) scan_fn option"
  g_real_vfwscanf :: "(wchar list, 'a) scan_fn option"
  g_real_isoc99_vfwscanf :: "(wchar list, 'a) scan_fn option"
  g_real_vswscanf :: "(wchar list, 'a) scan_fn option"
  g_real_isoc99_vswscanf :: "(wchar list, 'a) scan_fn option"
  g_bridge_owns :: "(ptr \<Rightarrow> 'a libc_scheme \<Rightarrow> (bool \<times> 'a libc_scheme) outcome) option"
  g_bridge_libc_free :: "'a free_fn option"
  g_bridge_libc_realloc :: "'a realloc_fn option"
  g_bridge_ready :: bool

definition initial_globals :: "'a scanf_globals" where
  "initial_globals = \<lparr>g_ao_scanf_once = False, g_real_vfscanf = None, g_real_isoc99_vfscanf = None,
     g_real_vsscanf = None, g_real_isoc99_vsscanf = None, g_real_vfwscanf = None,
     g_real_isoc99_vfwscanf = None, g_real_vswscanf = None, g_real_isoc99_vswscanf = None,
     g_bridge_owns = None, g_bridge_libc_free = None, g_bridge_libc_realloc = None,
     g_bridge_ready = False\<rparr>"

definition or_else :: "'b option \<Rightarrow> 'b option \<Rightarrow> 'b option" where
  "or_else a b = (if a = None then b else a)"

definition ao_resolve_scanf_symbols :: "'a scanf_symbols \<Rightarrow> 'a scanf_globals \<Rightarrow> 'a scanf_globals" where
  "ao_resolve_scanf_symbols dl g =
     g\<lparr>g_real_vfscanf := sym_vfscanf dl,
       g_real_isoc99_vfscanf := or_else (sym_isoc99_vfscanf dl) (sym_vfscanf dl),
       g_real_vsscanf := sym_vsscanf dl,
       g_real_isoc99_vsscanf := or_else (sym_isoc99_vsscanf dl) (sym_vsscanf dl),
       g_real_vfwscanf := sym_vfwscanf dl,
       g_real_isoc99_vfwscanf := or_else (sym_isoc99_vfwscanf dl) (sym_vfwscanf dl),
       g_real_vswscanf := sym_vswscanf dl,
       g_real_isoc99_vswscanf := or_else (sym_isoc99_vswscanf dl) (sym_vswscanf dl),
       g_bridge_owns := sym_bridge_owns dl,
       g_bridge_libc_free := sym_bridge_libc_free dl,
       g_bridge_libc_realloc := sym_bridge_libc_realloc dl,
       g_bridge_ready := (sym_bridge_owns dl \<noteq> None \<and> sym_bridge_libc_free dl \<noteq> None
                          \<and> sym_bridge_libc_realloc dl \<noteq> None)\<rparr>"

definition ao_ensure_scanf_symbols :: "'a scanf_symbols \<Rightarrow> 'a scanf_globals \<Rightarrow> 'a scanf_globals" where
  "ao_ensure_scanf_symbols dl g =
     (if g_ao_scanf_once g then g else (ao_resolve_scanf_symbols dl g)\<lparr>g_ao_scanf_once := True\<rparr>)"

section \<open>Moving results into the preloaded allocator\<close>

definition ao_load_pointer_slot :: "ptr \<Rightarrow> slots \<Rightarrow> ptr outcome" where
  "ao_load_pointer_slot s vars = (case vars s of None \<Rightarrow> Undef | Some v \<Rightarrow> Done v)"

definition ao_store_pointer_slot :: "ptr \<Rightarrow> ptr \<Rightarrow> slots \<Rightarrow> slots outcome" where
  "ao_store_pointer_slot s v vars = (case vars s of None \<Rightarrow> Undef | Some _ \<Rightarrow> Done (vars(s \<mapsto> v)))"

text \<open>\<open>memcpy\<close> between the starts of two heap objects.\<close>

definition memcpy :: "ptr \<Rightarrow> ptr \<Rightarrow> nat \<Rightarrow> 'a libc_scheme \<Rightarrow> 'a libc_scheme outcome" where
  "memcpy dest src n w =
     obind (object src w) (\<lambda>cells. obind (read_cells cells 0 n) (\<lambda>new. write_cells dest 0 new w))"

definition ao_clone_char_string ::
  "'a malloc_fn \<Rightarrow> ptr \<Rightarrow> 'a libc_scheme \<Rightarrow> (ptr \<times> 'a libc_scheme) outcome" where
  "ao_clone_char_string malloc source w =
     obind (obind (object source w) strlen) (\<lambda>n.
     obind (malloc (of_nat n + 1) w) (\<lambda>(copy, w).
       if copy = NULL then Done (NULL, w)
       else obind (memcpy copy source (n + 1) w) (\<lambda>w. Done (copy, w))))"

definition ao_clone_wide_string ::
  "'a malloc_fn \<Rightarrow> ptr \<Rightarrow> 'a libc_scheme \<Rightarrow> (ptr \<times> 'a libc_scheme) outcome" where
  "ao_clone_wide_string malloc source w =
     obind (obind (object source w) wcslen) (\<lambda>n.
     obind (malloc ((of_nat n + 1) * of_nat sizeof_wchar_t) w) (\<lambda>(copy, w).
       if copy = NULL then Done (NULL, w)
       else obind (memcpy copy source ((n + 1) * sizeof_wchar_t) w) (\<lambda>w. Done (copy, w))))"

definition ao_clone_bytes ::
  "'a malloc_fn \<Rightarrow> ptr \<Rightarrow> size_t \<Rightarrow> 'a libc_scheme \<Rightarrow> (ptr \<times> 'a libc_scheme) outcome" where
  "ao_clone_bytes malloc source len w =
     obind (malloc len w) (\<lambda>(copy, w).
       if copy = NULL then Done (NULL, w)
       else if len \<noteq> 0 then obind (memcpy copy source (unat len) w) (\<lambda>w. Done (copy, w))
       else Done (copy, w))"

definition call_owns ::
  "'a scanf_globals \<Rightarrow> ptr \<Rightarrow> 'a libc_scheme \<Rightarrow> (bool \<times> 'a libc_scheme) outcome" where
  "call_owns g p w = (case g_bridge_owns g of None \<Rightarrow> Undef | Some f \<Rightarrow> f p w)"

definition call_libc_free :: "'a scanf_globals \<Rightarrow> ptr \<Rightarrow> 'a libc_scheme \<Rightarrow> 'a libc_scheme outcome" where
  "call_libc_free g p w = (case g_bridge_libc_free g of None \<Rightarrow> Undef | Some f \<Rightarrow> f p w)"

text \<open>The switch over the modes; \<open>None\<close> is the early return of the unsupported mode.\<close>

definition clone_by_mode ::
  "'a malloc_fn \<Rightarrow> ao_scanf_record \<Rightarrow> ptr \<Rightarrow> 'a libc_scheme \<Rightarrow> (ptr option \<times> 'a libc_scheme) outcome" where
  "clone_by_mode malloc r original w =
     (case mode r of
        AO_REHOME_CHAR_STRING \<Rightarrow>
          obind (ao_clone_char_string malloc original w) (\<lambda>(p, w). Done (Some p, w))
      | AO_REHOME_WIDE_STRING \<Rightarrow>
          obind (ao_clone_wide_string malloc original w) (\<lambda>(p, w). Done (Some p, w))
      | AO_REHOME_CHAR_COUNT \<Rightarrow>
          obind (ao_clone_bytes malloc original (width r) w) (\<lambda>(p, w). Done (Some p, w))
      | AO_REHOME_WIDE_COUNT \<Rightarrow>
          obind (ao_clone_bytes malloc original (width r * of_nat sizeof_wchar_t) w) (\<lambda>(p, w). Done (Some p, w))
      | AO_REHOME_UNSUPPORTED_WIDE_CHAR_COUNT \<Rightarrow> Done (None, w))"

definition ao_rehome_scanf_record ::
  "'a malloc_fn \<Rightarrow> 'a scanf_globals \<Rightarrow> ao_scanf_record \<Rightarrow> slots \<Rightarrow> 'a libc_scheme
   \<Rightarrow> (slots \<times> 'a libc_scheme) outcome" where
  "ao_rehome_scanf_record malloc g r vars w =
     obind (ao_load_pointer_slot (slot r) vars) (\<lambda>original.
       if original = NULL \<or> \<not> g_bridge_ready g then Done (vars, w)
       else obind (call_owns g original w) (\<lambda>(own, w).
         if own then Done (vars, w)
         else obind (clone_by_mode malloc r original w) (\<lambda>(replacement, w).
           case replacement of
             None \<Rightarrow> Done (vars, w)
           | Some p \<Rightarrow>
               if p = NULL then Done (vars, w)
               else obind (ao_store_pointer_slot (slot r) p vars) (\<lambda>vars.
                    obind (call_libc_free g original w) (\<lambda>w.
                      Done (vars, w))))))"

fun rehome_loop ::
  "'a malloc_fn \<Rightarrow> 'a scanf_globals \<Rightarrow> int \<Rightarrow> ao_scanf_record list \<Rightarrow> slots \<Rightarrow> 'a libc_scheme
   \<Rightarrow> (slots \<times> 'a libc_scheme) outcome" where
  "rehome_loop malloc g matches [] vars w = Done (vars, w)"
| "rehome_loop malloc g matches (r # rs) vars w =
     (if sint (ordinal r) > matches then Done (vars, w)
      else obind (ao_rehome_scanf_record malloc g r vars w) (\<lambda>(vars, w).
             rehome_loop malloc g matches rs vars w))"

definition ao_rehome_scanf_plan ::
  "'a malloc_fn \<Rightarrow> 'a scanf_globals \<Rightarrow> ao_scanf_plan \<Rightarrow> int \<Rightarrow> slots \<Rightarrow> 'a libc_scheme
   \<Rightarrow> (slots \<times> 'a libc_scheme) outcome" where
  "ao_rehome_scanf_plan malloc g plan matches vars w =
     rehome_loop malloc g matches (take (unat (plan_count plan)) (items plan)) vars w"

section \<open>The wrappers\<close>

text \<open>The four wrappers of the source differ in the type of the format and of the first argument only.\<close>

type_synonym 'a scan_result = "((int \<times> 'a scanf_globals \<times> slots) \<times> 'a libc_scheme) outcome"

definition wrap_scanf ::
  "('f \<Rightarrow> ptr list \<Rightarrow> ao_scanf_plan \<Rightarrow> 'a libc_scheme \<Rightarrow> ((int \<times> ao_scanf_plan) \<times> 'a libc_scheme) outcome)
   \<Rightarrow> 'a allocator_fns \<Rightarrow> 'a scanf_symbols \<Rightarrow> ('f, 'a) scan_fn option \<Rightarrow> ptr \<Rightarrow> 'f \<Rightarrow> ptr list
   \<Rightarrow> 'a scanf_globals \<Rightarrow> slots \<Rightarrow> 'a libc_scheme \<Rightarrow> 'a scan_result" where
  "wrap_scanf parse al dl real_fn input format ap g vars w =
     (let g = ao_ensure_scanf_symbols dl g
      in case real_fn of
           None \<Rightarrow> Done ((EOF, g, vars), w\<lparr>errno := ENOSYS\<rparr>)
         | Some real \<Rightarrow>
             obind (parse format ap empty_plan w) (\<lambda>((rc, plan), w).
             obind (real input format ap vars w) (\<lambda>(ret, vars, w).
             obind (if rc = 0 \<and> g_bridge_ready g \<and> ret > 0
                    then ao_rehome_scanf_plan (al_malloc al) g plan ret vars w
                    else Done (vars, w)) (\<lambda>(vars, w).
             obind (ao_scanf_plan_reset (al_free al) plan w) (\<lambda>(_, w).
               Done ((ret, g, vars), w))))))"

definition ao_wrap_vfscanf_common ::
  "'a allocator_fns \<Rightarrow> 'a scanf_symbols \<Rightarrow> (byte list, 'a) scan_fn option \<Rightarrow> ptr \<Rightarrow> byte list \<Rightarrow> ptr list
   \<Rightarrow> 'a scanf_globals \<Rightarrow> slots \<Rightarrow> 'a libc_scheme \<Rightarrow> 'a scan_result" where
  "ao_wrap_vfscanf_common al = wrap_scanf (ao_parse_scanf_format (al_realloc al)) al"

definition ao_wrap_vsscanf_common ::
  "'a allocator_fns \<Rightarrow> 'a scanf_symbols \<Rightarrow> (byte list, 'a) scan_fn option \<Rightarrow> ptr \<Rightarrow> byte list \<Rightarrow> ptr list
   \<Rightarrow> 'a scanf_globals \<Rightarrow> slots \<Rightarrow> 'a libc_scheme \<Rightarrow> 'a scan_result" where
  "ao_wrap_vsscanf_common al = wrap_scanf (ao_parse_scanf_format (al_realloc al)) al"

definition ao_wrap_vfwscanf_common ::
  "'a allocator_fns \<Rightarrow> 'a scanf_symbols \<Rightarrow> (wchar list, 'a) scan_fn option \<Rightarrow> ptr \<Rightarrow> wchar list \<Rightarrow> ptr list
   \<Rightarrow> 'a scanf_globals \<Rightarrow> slots \<Rightarrow> 'a libc_scheme \<Rightarrow> 'a scan_result" where
  "ao_wrap_vfwscanf_common al = wrap_scanf (ao_parse_wscanf_format (al_realloc al)) al"

definition ao_wrap_vswscanf_common ::
  "'a allocator_fns \<Rightarrow> 'a scanf_symbols \<Rightarrow> (wchar list, 'a) scan_fn option \<Rightarrow> ptr \<Rightarrow> wchar list \<Rightarrow> ptr list
   \<Rightarrow> 'a scanf_globals \<Rightarrow> slots \<Rightarrow> 'a libc_scheme \<Rightarrow> 'a scan_result" where
  "ao_wrap_vswscanf_common al = wrap_scanf (ao_parse_wscanf_format (al_realloc al)) al"

section \<open>Entry points\<close>

text \<open>
  Each passes the current value of its \<open>g_real_\<close> variable, read before the wrapper resolves the symbols.
  The functions with a variable argument list and their \<open>v\<close> forms get the same list of arguments.
\<close>

definition ao_plain_vfscanf ::
  "'a allocator_fns \<Rightarrow> 'a scanf_symbols \<Rightarrow> ptr \<Rightarrow> byte list \<Rightarrow> ptr list \<Rightarrow> 'a scanf_globals \<Rightarrow> slots \<Rightarrow> 'a libc_scheme
   \<Rightarrow> 'a scan_result" where
  "ao_plain_vfscanf al dl input format ap g vars w =
     ao_wrap_vfscanf_common al dl (g_real_vfscanf g) input format ap g vars w"

definition isoc99_vfscanf ::
  "'a allocator_fns \<Rightarrow> 'a scanf_symbols \<Rightarrow> ptr \<Rightarrow> byte list \<Rightarrow> ptr list \<Rightarrow> 'a scanf_globals \<Rightarrow> slots \<Rightarrow> 'a libc_scheme
   \<Rightarrow> 'a scan_result" where
  "isoc99_vfscanf al dl input format ap g vars w =
     ao_wrap_vfscanf_common al dl (g_real_isoc99_vfscanf g) input format ap g vars w"

definition ao_plain_vscanf ::
  "'a allocator_fns \<Rightarrow> 'a scanf_symbols \<Rightarrow> byte list \<Rightarrow> ptr list \<Rightarrow> 'a scanf_globals \<Rightarrow> slots \<Rightarrow> 'a libc_scheme
   \<Rightarrow> 'a scan_result" where
  "ao_plain_vscanf al dl format ap g vars w =
     ao_wrap_vfscanf_common al dl (g_real_vfscanf g) (sym_stdin dl) format ap g vars w"

definition isoc99_vscanf ::
  "'a allocator_fns \<Rightarrow> 'a scanf_symbols \<Rightarrow> byte list \<Rightarrow> ptr list \<Rightarrow> 'a scanf_globals \<Rightarrow> slots \<Rightarrow> 'a libc_scheme
   \<Rightarrow> 'a scan_result" where
  "isoc99_vscanf al dl format ap g vars w =
     ao_wrap_vfscanf_common al dl (g_real_isoc99_vfscanf g) (sym_stdin dl) format ap g vars w"

definition ao_plain_fscanf ::
  "'a allocator_fns \<Rightarrow> 'a scanf_symbols \<Rightarrow> ptr \<Rightarrow> byte list \<Rightarrow> ptr list \<Rightarrow> 'a scanf_globals \<Rightarrow> slots \<Rightarrow> 'a libc_scheme
   \<Rightarrow> 'a scan_result" where
  "ao_plain_fscanf al dl input format ap g vars w =
     ao_wrap_vfscanf_common al dl (g_real_vfscanf g) input format ap g vars w"

definition isoc99_fscanf ::
  "'a allocator_fns \<Rightarrow> 'a scanf_symbols \<Rightarrow> ptr \<Rightarrow> byte list \<Rightarrow> ptr list \<Rightarrow> 'a scanf_globals \<Rightarrow> slots \<Rightarrow> 'a libc_scheme
   \<Rightarrow> 'a scan_result" where
  "isoc99_fscanf al dl input format ap g vars w =
     ao_wrap_vfscanf_common al dl (g_real_isoc99_vfscanf g) input format ap g vars w"

definition ao_plain_scanf ::
  "'a allocator_fns \<Rightarrow> 'a scanf_symbols \<Rightarrow> byte list \<Rightarrow> ptr list \<Rightarrow> 'a scanf_globals \<Rightarrow> slots \<Rightarrow> 'a libc_scheme
   \<Rightarrow> 'a scan_result" where
  "ao_plain_scanf al dl format ap g vars w =
     ao_wrap_vfscanf_common al dl (g_real_vfscanf g) (sym_stdin dl) format ap g vars w"

definition isoc99_scanf ::
  "'a allocator_fns \<Rightarrow> 'a scanf_symbols \<Rightarrow> byte list \<Rightarrow> ptr list \<Rightarrow> 'a scanf_globals \<Rightarrow> slots \<Rightarrow> 'a libc_scheme
   \<Rightarrow> 'a scan_result" where
  "isoc99_scanf al dl format ap g vars w =
     ao_wrap_vfscanf_common al dl (g_real_isoc99_vfscanf g) (sym_stdin dl) format ap g vars w"

definition ao_plain_vsscanf ::
  "'a allocator_fns \<Rightarrow> 'a scanf_symbols \<Rightarrow> ptr \<Rightarrow> byte list \<Rightarrow> ptr list \<Rightarrow> 'a scanf_globals \<Rightarrow> slots \<Rightarrow> 'a libc_scheme
   \<Rightarrow> 'a scan_result" where
  "ao_plain_vsscanf al dl input format ap g vars w =
     ao_wrap_vsscanf_common al dl (g_real_vsscanf g) input format ap g vars w"

definition isoc99_vsscanf ::
  "'a allocator_fns \<Rightarrow> 'a scanf_symbols \<Rightarrow> ptr \<Rightarrow> byte list \<Rightarrow> ptr list \<Rightarrow> 'a scanf_globals \<Rightarrow> slots \<Rightarrow> 'a libc_scheme
   \<Rightarrow> 'a scan_result" where
  "isoc99_vsscanf al dl input format ap g vars w =
     ao_wrap_vsscanf_common al dl (g_real_isoc99_vsscanf g) input format ap g vars w"

definition ao_plain_sscanf ::
  "'a allocator_fns \<Rightarrow> 'a scanf_symbols \<Rightarrow> ptr \<Rightarrow> byte list \<Rightarrow> ptr list \<Rightarrow> 'a scanf_globals \<Rightarrow> slots \<Rightarrow> 'a libc_scheme
   \<Rightarrow> 'a scan_result" where
  "ao_plain_sscanf al dl input format ap g vars w =
     ao_wrap_vsscanf_common al dl (g_real_vsscanf g) input format ap g vars w"

definition isoc99_sscanf ::
  "'a allocator_fns \<Rightarrow> 'a scanf_symbols \<Rightarrow> ptr \<Rightarrow> byte list \<Rightarrow> ptr list \<Rightarrow> 'a scanf_globals \<Rightarrow> slots \<Rightarrow> 'a libc_scheme
   \<Rightarrow> 'a scan_result" where
  "isoc99_sscanf al dl input format ap g vars w =
     ao_wrap_vsscanf_common al dl (g_real_isoc99_vsscanf g) input format ap g vars w"

definition ao_plain_vfwscanf ::
  "'a allocator_fns \<Rightarrow> 'a scanf_symbols \<Rightarrow> ptr \<Rightarrow> wchar list \<Rightarrow> ptr list \<Rightarrow> 'a scanf_globals \<Rightarrow> slots \<Rightarrow> 'a libc_scheme
   \<Rightarrow> 'a scan_result" where
  "ao_plain_vfwscanf al dl input format ap g vars w =
     ao_wrap_vfwscanf_common al dl (g_real_vfwscanf g) input format ap g vars w"

definition isoc99_vfwscanf ::
  "'a allocator_fns \<Rightarrow> 'a scanf_symbols \<Rightarrow> ptr \<Rightarrow> wchar list \<Rightarrow> ptr list \<Rightarrow> 'a scanf_globals \<Rightarrow> slots \<Rightarrow> 'a libc_scheme
   \<Rightarrow> 'a scan_result" where
  "isoc99_vfwscanf al dl input format ap g vars w =
     ao_wrap_vfwscanf_common al dl (g_real_isoc99_vfwscanf g) input format ap g vars w"

definition ao_plain_vwscanf ::
  "'a allocator_fns \<Rightarrow> 'a scanf_symbols \<Rightarrow> wchar list \<Rightarrow> ptr list \<Rightarrow> 'a scanf_globals \<Rightarrow> slots \<Rightarrow> 'a libc_scheme
   \<Rightarrow> 'a scan_result" where
  "ao_plain_vwscanf al dl format ap g vars w =
     ao_wrap_vfwscanf_common al dl (g_real_vfwscanf g) (sym_stdin dl) format ap g vars w"

definition isoc99_vwscanf ::
  "'a allocator_fns \<Rightarrow> 'a scanf_symbols \<Rightarrow> wchar list \<Rightarrow> ptr list \<Rightarrow> 'a scanf_globals \<Rightarrow> slots \<Rightarrow> 'a libc_scheme
   \<Rightarrow> 'a scan_result" where
  "isoc99_vwscanf al dl format ap g vars w =
     ao_wrap_vfwscanf_common al dl (g_real_isoc99_vfwscanf g) (sym_stdin dl) format ap g vars w"

definition ao_plain_fwscanf ::
  "'a allocator_fns \<Rightarrow> 'a scanf_symbols \<Rightarrow> ptr \<Rightarrow> wchar list \<Rightarrow> ptr list \<Rightarrow> 'a scanf_globals \<Rightarrow> slots \<Rightarrow> 'a libc_scheme
   \<Rightarrow> 'a scan_result" where
  "ao_plain_fwscanf al dl input format ap g vars w =
     ao_wrap_vfwscanf_common al dl (g_real_vfwscanf g) input format ap g vars w"

definition isoc99_fwscanf ::
  "'a allocator_fns \<Rightarrow> 'a scanf_symbols \<Rightarrow> ptr \<Rightarrow> wchar list \<Rightarrow> ptr list \<Rightarrow> 'a scanf_globals \<Rightarrow> slots \<Rightarrow> 'a libc_scheme
   \<Rightarrow> 'a scan_result" where
  "isoc99_fwscanf al dl input format ap g vars w =
     ao_wrap_vfwscanf_common al dl (g_real_isoc99_vfwscanf g) input format ap g vars w"

definition ao_plain_wscanf ::
  "'a allocator_fns \<Rightarrow> 'a scanf_symbols \<Rightarrow> wchar list \<Rightarrow> ptr list \<Rightarrow> 'a scanf_globals \<Rightarrow> slots \<Rightarrow> 'a libc_scheme
   \<Rightarrow> 'a scan_result" where
  "ao_plain_wscanf al dl format ap g vars w =
     ao_wrap_vfwscanf_common al dl (g_real_vfwscanf g) (sym_stdin dl) format ap g vars w"

definition isoc99_wscanf ::
  "'a allocator_fns \<Rightarrow> 'a scanf_symbols \<Rightarrow> wchar list \<Rightarrow> ptr list \<Rightarrow> 'a scanf_globals \<Rightarrow> slots \<Rightarrow> 'a libc_scheme
   \<Rightarrow> 'a scan_result" where
  "isoc99_wscanf al dl format ap g vars w =
     ao_wrap_vfwscanf_common al dl (g_real_isoc99_vfwscanf g) (sym_stdin dl) format ap g vars w"

definition ao_plain_vswscanf ::
  "'a allocator_fns \<Rightarrow> 'a scanf_symbols \<Rightarrow> ptr \<Rightarrow> wchar list \<Rightarrow> ptr list \<Rightarrow> 'a scanf_globals \<Rightarrow> slots \<Rightarrow> 'a libc_scheme
   \<Rightarrow> 'a scan_result" where
  "ao_plain_vswscanf al dl input format ap g vars w =
     ao_wrap_vswscanf_common al dl (g_real_vswscanf g) input format ap g vars w"

definition isoc99_vswscanf ::
  "'a allocator_fns \<Rightarrow> 'a scanf_symbols \<Rightarrow> ptr \<Rightarrow> wchar list \<Rightarrow> ptr list \<Rightarrow> 'a scanf_globals \<Rightarrow> slots \<Rightarrow> 'a libc_scheme
   \<Rightarrow> 'a scan_result" where
  "isoc99_vswscanf al dl input format ap g vars w =
     ao_wrap_vswscanf_common al dl (g_real_isoc99_vswscanf g) input format ap g vars w"

definition ao_plain_swscanf ::
  "'a allocator_fns \<Rightarrow> 'a scanf_symbols \<Rightarrow> ptr \<Rightarrow> wchar list \<Rightarrow> ptr list \<Rightarrow> 'a scanf_globals \<Rightarrow> slots \<Rightarrow> 'a libc_scheme
   \<Rightarrow> 'a scan_result" where
  "ao_plain_swscanf al dl input format ap g vars w =
     ao_wrap_vswscanf_common al dl (g_real_vswscanf g) input format ap g vars w"

definition isoc99_swscanf ::
  "'a allocator_fns \<Rightarrow> 'a scanf_symbols \<Rightarrow> ptr \<Rightarrow> wchar list \<Rightarrow> ptr list \<Rightarrow> 'a scanf_globals \<Rightarrow> slots \<Rightarrow> 'a libc_scheme
   \<Rightarrow> 'a scan_result" where
  "isoc99_swscanf al dl input format ap g vars w =
     ao_wrap_vswscanf_common al dl (g_real_isoc99_vswscanf g) input format ap g vars w"

end
