(* ===== verification/Scanf_Rehome.thy ===== *)
theory Scanf_Rehome
  imports Scanf_Overrides
begin

text \<open>
  What moving the results does: the locale \<open>scan_bridge\<close> states what is relied on of the allocator bridge, and a
  record whose slot points to a libc-owned object ends with an owned copy of it; it is left in place exactly
  where its mode cannot be copied or the \<open>malloc\<close> of the copy returned null.
\<close>

section \<open>What a record copies\<close>

fun done_value :: "'b outcome \<Rightarrow> 'b option" where
  "done_value (Done x) = Some x"
| "done_value _ = None"

text \<open>The cells of the copy of an object with cells \<open>cs\<close>, \<open>None\<close> where the object is too short for the mode.\<close>

definition clone_size :: "ao_scanf_record \<Rightarrow> cell list \<Rightarrow> nat option" where
  "clone_size r cs =
     (case mode r of
        AO_REHOME_CHAR_STRING \<Rightarrow> map_option (\<lambda>n. n + 1) (done_value (strlen cs))
      | AO_REHOME_WIDE_STRING \<Rightarrow> map_option (\<lambda>n. (n + 1) * sizeof_wchar_t) (done_value (wcslen cs))
      | AO_REHOME_CHAR_COUNT \<Rightarrow> if unat (width r) \<le> length cs then Some (unat (width r)) else None
      | AO_REHOME_WIDE_COUNT \<Rightarrow>
          if unat (width r) * sizeof_wchar_t \<le> length cs then Some (unat (width r) * sizeof_wchar_t) else None
      | AO_REHOME_UNSUPPORTED_WIDE_CHAR_COUNT \<Rightarrow> None)"

lemma strlen_bound: "strlen cs = Done n \<Longrightarrow> n < length cs"
  using strlen_Done_cstring cstring_length by fastforce

lemma wcslen_bound: "wcslen cs = Done n \<Longrightarrow> (n + 1) * 4 \<le> length cs"
  by (induction cs arbitrary: n rule: wcslen.induct) (auto simp: obind_eq_Done split: if_splits)

lemma clone_size_le: "clone_size r cs = Some n \<Longrightarrow> n \<le> length cs"
proof -
  assume c: "clone_size r cs = Some n"
  have "done_value m = Some x \<Longrightarrow> m = Done x" for m :: "nat outcome" and x by (cases m) auto
  then show ?thesis
    using c strlen_bound [of cs] wcslen_bound [of cs]
    by (fastforce simp: clone_size_def sizeof_wchar_t_def split: ao_rehome_mode.splits if_splits)
qed

text \<open>A copy of the given cells in the block \<open>malloc\<close> returned, or null because \<open>malloc\<close> returned null.\<close>

definition cloned ::
  "'a malloc_fn \<Rightarrow> ('a libc_scheme \<Rightarrow> ptr \<Rightarrow> bool) \<Rightarrow> cell list \<Rightarrow> 'a libc_scheme \<Rightarrow> ptr \<Rightarrow> 'a libc_scheme \<Rightarrow> bool" where
  "cloned malloc owned cells w p w' \<longleftrightarrow> duplicated owned cells w p w'
     \<and> (\<exists>m u. unat m = length cells \<and> malloc m w = Done (p, u) \<and> (p = NULL \<longrightarrow> u = w'))"

context c_allocator
begin

lemma memcpy_law:
  assumes inv: "inv w" and p: "blocks w p = Some old" and s: "blocks w src = Some cs"
    and n: "n \<le> length cs" "length old = n" "p \<noteq> src"
  shows "wp E (memcpy p src n w) (\<lambda>w'. inv w' \<and> owned w' = owned w \<and> room w' = room w
    \<and> blocks w' = (blocks w)(p \<mapsto> take n cs) \<and> errno w' = errno w)"
proof -
  have "wp E (write_cells p 0 (take n cs) w) (\<lambda>w'. inv w' \<and> owned w' = owned w \<and> room w' = room w
    \<and> blocks w' = (blocks w)(p \<mapsto> overwrite 0 (take n cs) old) \<and> errno w' = errno w)"
    using inv p n by (intro write_law) simp_all
  then show ?thesis
    using s n by (simp add: memcpy_def object_def read_cells_def overwrite_full)
qed

text \<open>Allocate, give up on \<open>NULL\<close>, copy the start of another object.\<close>

lemma clone_law:
  assumes inv: "inv w" and s: "blocks w src = Some cs" and n: "n \<le> length cs" "unat m = n"
  shows "wp (room w = 0)
    (obind (malloc m w) (\<lambda>(copy, w).
       if copy = NULL then Done (NULL, w) else obind (memcpy copy src n w) (\<lambda>w. Done (copy, w))))
    (\<lambda>(p, w'). inv w' \<and> room w \<le> Suc (room w') \<and> cloned malloc owned (take n cs) w p w')"
proof (rule wp_bindI [OF wp_value [OF malloc_law [OF inv]]], assumption, goal_cases)
  case (1 x)
  obtain p u where x: "x = (p, u)" by (cases x)
  show ?case
  proof (cases "p = NULL")
    case True
    with 1 x n show ?thesis by (auto simp: malloc_result_def duplicated_def cloned_def)
  next
    case False
    with 1 x n have u: "inv u" "blocks w p = None" "blocks u = (blocks w)(p \<mapsto> replicate n None)"
        "errno u = errno w" "owned u = (owned w)(p := True)" "room w \<le> Suc (room u)"
      by (auto simp: malloc_result_def)
    have "wp (room w = 0) (memcpy p src n u) (\<lambda>w'. inv w' \<and> owned w' = owned u \<and> room w' = room u
      \<and> blocks w' = (blocks u)(p \<mapsto> take n cs) \<and> errno w' = errno u)"
      using u s n by (intro memcpy_law) auto
    moreover have "unat m = length (take n cs)" "malloc m w = Done (p, u)" using 1 x n by auto
    ultimately show ?thesis
      unfolding x prod.case if_not_P [OF False]
      by (elim wp_bindI) (use u False in \<open>auto simp: duplicated_def cloned_def\<close>)
  qed
qed

text \<open>The three cloning functions.\<close>

lemma clone_char_string_law:
  assumes inv: "inv w" and s: "blocks w src = Some cs" "length cs < 2 ^ 64" and k: "strlen cs = Done k"
  shows "wp (room w = 0) (ao_clone_char_string malloc src w)
    (\<lambda>(p, w'). inv w' \<and> room w \<le> Suc (room w') \<and> cloned malloc owned (take (k + 1) cs) w p w')"
proof -
  have "k + 1 \<le> length cs" using strlen_bound [OF k] by simp
  moreover have "unat (of_nat k + 1 :: size_t) = k + 1"
    using strlen_bound [OF k] s(2) by (intro unat_Suc_of_nat) simp
  ultimately show ?thesis
    unfolding ao_clone_char_string_def object_def s(1) option.case obind.simps k
    by (rule clone_law [OF inv s(1)])
qed

lemma clone_wide_string_law:
  assumes inv: "inv w" and s: "blocks w src = Some cs" "length cs < 2 ^ 64" and k: "wcslen cs = Done k"
  shows "wp (room w = 0) (ao_clone_wide_string malloc src w)
    (\<lambda>(p, w'). inv w' \<and> room w \<le> Suc (room w')
      \<and> cloned malloc owned (take ((k + 1) * sizeof_wchar_t) cs) w p w')"
proof -
  have le: "(k + 1) * sizeof_wchar_t \<le> length cs"
    using wcslen_bound [OF k] by (simp add: sizeof_wchar_t_def)
  have "((of_nat k + 1) * of_nat sizeof_wchar_t :: size_t) = of_nat ((k + 1) * sizeof_wchar_t)"
    by (simp add: distrib_right)
  then have "unat ((of_nat k + 1) * of_nat sizeof_wchar_t :: size_t) = (k + 1) * sizeof_wchar_t"
    using le s(2) unat_of_nat_lt [of "(k + 1) * sizeof_wchar_t"] by simp
  with le show ?thesis
    unfolding ao_clone_wide_string_def object_def s(1) option.case obind.simps k
    by (rule clone_law [OF inv s(1)])
qed

lemma clone_bytes_law:
  assumes inv: "inv w" and s: "blocks w src = Some cs" and n: "unat len \<le> length cs"
  shows "wp (room w = 0) (ao_clone_bytes malloc src len w)
    (\<lambda>(p, w'). inv w' \<and> room w \<le> Suc (room w') \<and> cloned malloc owned (take (unat len) cs) w p w')"
proof (cases "len = 0")
  case True
  then show ?thesis
    using wp_value [OF malloc_law [OF inv, of len]] unfolding ao_clone_bytes_def
    by (elim wp_bindI) (auto simp: malloc_result_def duplicated_def cloned_def intro!: exI [of _ "0 :: size_t"] split: if_splits)
next
  case False
  from clone_law [OF inv s n refl] show ?thesis
    unfolding ao_clone_bytes_def if_P [OF False] .
qed

lemma clone_by_mode_law:
  assumes inv: "inv w" and s: "blocks w src = Some cs" "length cs < 2 ^ 64" and n: "clone_size r cs = Some n"
  shows "wp (room w = 0) (clone_by_mode malloc r src w)
    (\<lambda>(q, w'). inv w' \<and> room w \<le> Suc (room w') \<and> q \<noteq> None \<and> cloned malloc owned (take n cs) w (the q) w')"
proof (cases "mode r")
  case AO_REHOME_CHAR_STRING
  then obtain k where k: "strlen cs = Done k" "n = k + 1"
    using n by (cases "strlen cs") (auto simp: clone_size_def)
  from clone_char_string_law [OF inv s k(1)] AO_REHOME_CHAR_STRING k(2) show ?thesis
    unfolding clone_by_mode_def by (auto elim!: wp_bindI)
next
  case AO_REHOME_WIDE_STRING
  then obtain k where k: "wcslen cs = Done k" "n = (k + 1) * sizeof_wchar_t"
    using n by (cases "wcslen cs") (auto simp: clone_size_def)
  from clone_wide_string_law [OF inv s k(1)] AO_REHOME_WIDE_STRING k(2) show ?thesis
    unfolding clone_by_mode_def by (auto elim!: wp_bindI)
next
  case AO_REHOME_CHAR_COUNT
  with n have "n = unat (width r)" "unat (width r) \<le> length cs" by (auto simp: clone_size_def split: if_splits)
  with clone_bytes_law [OF inv s(1), of "width r"] AO_REHOME_CHAR_COUNT show ?thesis
    unfolding clone_by_mode_def by (auto elim!: wp_bindI)
next
  case AO_REHOME_WIDE_COUNT
  with n have k: "n = unat (width r) * sizeof_wchar_t" "n \<le> length cs"
    by (auto simp: clone_size_def split: if_splits)
  have "width r * of_nat sizeof_wchar_t = of_nat n" by (simp add: k(1))
  then have "unat (width r * of_nat sizeof_wchar_t) = n" using k(2) s(2) unat_of_nat_lt [of n] by simp
  with clone_bytes_law [OF inv s(1), of "width r * of_nat sizeof_wchar_t"] k(2) AO_REHOME_WIDE_COUNT show ?thesis
    unfolding clone_by_mode_def by (auto elim!: wp_bindI)
next
  case AO_REHOME_UNSUPPORTED_WIDE_CHAR_COUNT
  with n show ?thesis by (simp add: clone_size_def)
qed

end

section \<open>Results ready to be moved\<close>

text \<open>The slot of a record holds null, or a live object; one that is to be copied is long enough for it.\<close>

definition result_of :: "slots \<Rightarrow> ao_scanf_record \<Rightarrow> ptr" where
  "result_of vars r = the (vars (slot r))"

definition record_ready ::
  "('a libc_scheme \<Rightarrow> ptr \<Rightarrow> bool) \<Rightarrow> slots \<Rightarrow> 'a libc_scheme \<Rightarrow> ao_scanf_record \<Rightarrow> bool" where
  "record_ready owned vars w r \<longleftrightarrow> vars (slot r) \<noteq> None \<and>
     (result_of vars r \<noteq> NULL \<longrightarrow> (\<exists>cs. blocks w (result_of vars r) = Some cs \<and> length cs < 2 ^ 64 \<and>
        (owned w (result_of vars r) \<or> mode r = AO_REHOME_UNSUPPORTED_WIDE_CHAR_COUNT \<or> clone_size r cs \<noteq> None)))"

text \<open>The records have different slots, and no two slots hold the same object.\<close>

definition records_ready ::
  "('a libc_scheme \<Rightarrow> ptr \<Rightarrow> bool) \<Rightarrow> slots \<Rightarrow> 'a libc_scheme \<Rightarrow> ao_scanf_record list \<Rightarrow> bool" where
  "records_ready owned vars w rs \<longleftrightarrow> distinct (map slot rs) \<and>
     (\<forall>r \<in> set rs. record_ready owned vars w r) \<and>
     (\<forall>r \<in> set rs. \<forall>r' \<in> set rs. r \<noteq> r' \<longrightarrow> result_of vars r \<noteq> NULL \<longrightarrow> result_of vars r \<noteq> result_of vars r')"

text \<open>
  Null and what the allocator owns already stay. A libc-owned result is moved: the slot holds an owned copy, and at the
  old address there is nothing or a newer block of the allocator. Or it is left in place, exactly where the
  mode cannot be copied or \<open>malloc\<close> returned null for the copy, in the state in which the loop came to the record.
\<close>

inductive reaches ::
  "'a malloc_fn \<Rightarrow> 'a scanf_globals \<Rightarrow> ao_scanf_record list \<Rightarrow> slots \<Rightarrow> 'a libc_scheme \<Rightarrow> ao_scanf_record
   \<Rightarrow> 'a libc_scheme \<Rightarrow> bool" for malloc g where
  reaches_here: "reaches malloc g (r # rs) vars w r w"
| reaches_later: "ao_rehome_scanf_record malloc g r vars w = Done (vars1, w1) \<Longrightarrow> reaches malloc g rs vars1 w1 r' x \<Longrightarrow>
    reaches malloc g (r # rs) vars w r' x"

definition clone_failed :: "'a malloc_fn \<Rightarrow> ptr \<Rightarrow> ao_scanf_record \<Rightarrow> 'a libc_scheme \<Rightarrow> bool" where
  "clone_failed malloc p r w \<longleftrightarrow>
     (\<exists>cs n m w'. blocks w p = Some cs \<and> clone_size r cs = Some n \<and> unat m = n \<and> malloc m w = Done (NULL, w'))"

definition stayed ::
  "('a libc_scheme \<Rightarrow> ptr \<Rightarrow> bool) \<Rightarrow> slots \<Rightarrow> 'a libc_scheme \<Rightarrow> slots \<Rightarrow> 'a libc_scheme \<Rightarrow> ao_scanf_record \<Rightarrow> bool" where
  "stayed owned vars w vars' w' r \<longleftrightarrow> vars' (slot r) = vars (slot r) \<and> (result_of vars r \<noteq> NULL \<longrightarrow>
     blocks w' (result_of vars r) = blocks w (result_of vars r) \<and> owned w' (result_of vars r) = owned w (result_of vars r))"

definition moved ::
  "('a libc_scheme \<Rightarrow> ptr \<Rightarrow> bool) \<Rightarrow> slots \<Rightarrow> 'a libc_scheme \<Rightarrow> slots \<Rightarrow> 'a libc_scheme \<Rightarrow> ao_scanf_record \<Rightarrow> bool" where
  "moved owned vars w vars' w' r \<longleftrightarrow>
     (\<exists>p cs n. vars' (slot r) = Some p \<and> owned w' p \<and> (blocks w p = None \<or> \<not> owned w p)
        \<and> blocks w (result_of vars r) = Some cs \<and> clone_size r cs = Some n \<and> blocks w' p = Some (take n cs)
        \<and> (blocks w' (result_of vars r) = None \<or> owned w' (result_of vars r)))"

definition rehomed ::
  "'a malloc_fn \<Rightarrow> 'a scanf_globals \<Rightarrow> ao_scanf_record list \<Rightarrow> ('a libc_scheme \<Rightarrow> ptr \<Rightarrow> bool)
   \<Rightarrow> slots \<Rightarrow> 'a libc_scheme \<Rightarrow> slots \<Rightarrow> 'a libc_scheme \<Rightarrow> ao_scanf_record \<Rightarrow> bool" where
  "rehomed malloc g rs owned vars w vars' w' r \<longleftrightarrow>
     (if result_of vars r = NULL \<or> owned w (result_of vars r) \<or> mode r = AO_REHOME_UNSUPPORTED_WIDE_CHAR_COUNT
         \<or> (\<exists>x. reaches malloc g rs vars w r x \<and> clone_failed malloc (result_of vars r) r x)
      then stayed owned vars w vars' w' r
      else moved owned vars w vars' w' r)"

text \<open>What one record may do: nothing, or replace the object.\<close>

definition rehome_step ::
  "'a malloc_fn \<Rightarrow> ('a libc_scheme \<Rightarrow> ptr \<Rightarrow> bool) \<Rightarrow> slots \<Rightarrow> 'a libc_scheme \<Rightarrow> slots \<Rightarrow> 'a libc_scheme
   \<Rightarrow> ao_scanf_record \<Rightarrow> bool" where
  "rehome_step malloc owned vars w vars' w' r \<longleftrightarrow>
     vars' = vars \<and> blocks w' = blocks w \<and> owned w' = owned w
       \<and> (result_of vars r = NULL \<or> owned w (result_of vars r)
          \<or> mode r = AO_REHOME_UNSUPPORTED_WIDE_CHAR_COUNT \<or> clone_failed malloc (result_of vars r) r w)
     \<or> (\<exists>p cs n. p \<noteq> NULL \<and> blocks w p = None \<and> vars' = vars(slot r \<mapsto> p) \<and> result_of vars r \<noteq> NULL
          \<and> \<not> owned w (result_of vars r) \<and> blocks w (result_of vars r) = Some cs \<and> clone_size r cs = Some n
          \<and> \<not> clone_failed malloc (result_of vars r) r w \<and> blocks w' = (blocks w)(p \<mapsto> take n cs, result_of vars r := None)
          \<and> owned w' = (owned w)(p := True))"

text \<open>What the loop over the records \<open>rs\<close> may do.\<close>

definition rehomed_all ::
  "'a malloc_fn \<Rightarrow> 'a scanf_globals \<Rightarrow> ('a libc_scheme \<Rightarrow> ptr \<Rightarrow> bool) \<Rightarrow> slots \<Rightarrow> 'a libc_scheme \<Rightarrow> slots \<Rightarrow> 'a libc_scheme
   \<Rightarrow> ao_scanf_record list \<Rightarrow> bool" where
  "rehomed_all malloc g owned vars w vars' w' rs \<longleftrightarrow>
     (\<forall>r \<in> set rs. rehomed malloc g rs owned vars w vars' w' r)
     \<and> (\<forall>s. s \<notin> slot ` set rs \<longrightarrow> vars' s = vars s)
     \<and> (\<forall>q. blocks w q \<noteq> None \<longrightarrow> q \<notin> result_of vars ` set rs \<longrightarrow> blocks w' q = blocks w q \<and> owned w' q = owned w q)
     \<and> (\<forall>q. blocks w' q \<noteq> None \<longrightarrow> owned w' q \<or> blocks w q \<noteq> None \<and> \<not> owned w q)
     \<and> (\<forall>q. owned w' q \<longrightarrow> owned w q \<or> (\<exists>r \<in> set rs. vars' (slot r) = Some q))"

lemma rehome_step_cases:
  assumes "rehome_step malloc owned vars w vars' w' r"
  obtains (kept) "vars' = vars" "blocks w' = blocks w" "owned w' = owned w"
      "result_of vars r = NULL \<or> owned w (result_of vars r)
       \<or> mode r = AO_REHOME_UNSUPPORTED_WIDE_CHAR_COUNT \<or> clone_failed malloc (result_of vars r) r w"
    | (moved) p cs n where "p \<noteq> NULL" "blocks w p = None" "vars' = vars(slot r \<mapsto> p)" "result_of vars r \<noteq> NULL"
      "\<not> owned w (result_of vars r)"
      "blocks w (result_of vars r) = Some cs" "clone_size r cs = Some n" "\<not> clone_failed malloc (result_of vars r) r w"
      "blocks w' = (blocks w)(p \<mapsto> take n cs, result_of vars r := None)"
      "owned w' = (owned w)(p := True)"
  using assms unfolding rehome_step_def by blast

text \<open>The loop comes to a record in one state.\<close>

lemma reaches_in: "reaches malloc g rs vars w r x \<Longrightarrow> r \<in> set rs"
  by (induction rule: reaches.induct) simp_all

inductive_cases reaches_ConsE: "reaches malloc g (r # rs) vars w r' x"

lemma reaches_head: "r \<notin> set rs \<Longrightarrow> reaches malloc g (r # rs) vars w r x \<longleftrightarrow> x = w"
  by (auto elim!: reaches_ConsE dest: reaches_in intro: reaches_here)

lemma reaches_tail:
  "r' \<noteq> r \<Longrightarrow> ao_rehome_scanf_record malloc g r vars w = Done (vars1, w1) \<Longrightarrow>
   reaches malloc g (r # rs) vars w r' x \<longleftrightarrow> reaches malloc g rs vars1 w1 r' x"
  by (auto elim!: reaches_ConsE intro: reaches_later)

lemma rehome_step_others:
  assumes st: "rehome_step malloc owned vars w vars1 w1 r" and rr: "records_ready owned vars w (r # rs)" and r': "r' \<in> set rs"
  shows "vars1 (slot r') = vars (slot r') \<and> result_of vars1 r' = result_of vars r' \<and>
    (result_of vars r' \<noteq> NULL \<longrightarrow> blocks w1 (result_of vars r') = blocks w (result_of vars r')
       \<and> owned w1 (result_of vars r') = owned w (result_of vars r'))"
proof -
  from rr have "slot r \<notin> slot ` set rs" by (simp add: records_ready_def)
  with r' have ne: "slot r' \<noteq> slot r" by (metis imageI)
  have live: "result_of vars r' \<noteq> NULL \<Longrightarrow> blocks w (result_of vars r') \<noteq> None"
    using rr r' by (auto simp: records_ready_def record_ready_def)
  have diff: "result_of vars r' \<noteq> NULL \<Longrightarrow> result_of vars r' \<noteq> result_of vars r"
    using rr r' ne by (metis list.set_intros records_ready_def)
  from st show ?thesis
  proof (cases rule: rehome_step_cases)
    case kept
    then show ?thesis by simp
  next
    case (moved p cs n)
    then have "vars1 (slot r') = vars (slot r')" "result_of vars1 r' = result_of vars r'"
      using ne by (simp_all add: result_of_def)
    moreover have "result_of vars r' \<noteq> NULL \<Longrightarrow> result_of vars r' \<noteq> p" using live moved by auto
    ultimately show ?thesis using diff moved by simp
  qed
qed

lemma rehome_step_ready:
  assumes st: "rehome_step malloc owned vars w vars1 w1 r" and rr: "records_ready owned vars w (r # rs)"
  shows "records_ready owned vars1 w1 rs"
proof -
  note o = rehome_step_others [OF st rr]
  have "distinct (map slot rs)" using rr by (simp add: records_ready_def)
  moreover have "record_ready owned vars1 w1 r'" if "r' \<in> set rs" for r'
    using rr that o [OF that] by (auto simp: records_ready_def record_ready_def)
  moreover have "result_of vars1 a \<noteq> result_of vars1 b"
    if "a \<in> set rs" "b \<in> set rs" "a \<noteq> b" "result_of vars1 a \<noteq> NULL" for a b
    using rr that o [OF that(1)] o [OF that(2)] by (auto simp: records_ready_def)
  ultimately show ?thesis by (auto simp: records_ready_def)
qed

lemma rehomed_all_Cons:
  assumes st: "rehome_step malloc owned vars w vars1 w1 r" and rr: "records_ready owned vars w (r # rs)"
    and run: "ao_rehome_scanf_record malloc g r vars w = Done (vars1, w1)"
    and all: "rehomed_all malloc g owned vars1 w1 vars' w' ts" and sub: "set ts \<subseteq> set rs"
  shows "rehomed_all malloc g owned vars w vars' w' (r # ts)"
proof -
  note o = rehome_step_others [OF st rr]
  have o': "r' \<in> set ts \<Longrightarrow> vars1 (slot r') = vars (slot r') \<and> result_of vars1 r' = result_of vars r'" for r'
    using o sub by blast
  then have img: "result_of vars1 ` set ts = result_of vars ` set ts" by (simp cong: image_cong)
  have live: "r' \<in> set ts \<Longrightarrow> result_of vars r' \<noteq> NULL \<Longrightarrow> blocks w (result_of vars r') \<noteq> None" for r'
    using rr sub by (auto simp: records_ready_def record_ready_def)
  have nslot: "slot r \<notin> slot ` set ts" using rr sub by (auto simp: records_ready_def)
  have nres: "result_of vars r \<noteq> NULL \<Longrightarrow> result_of vars r \<notin> result_of vars ` set ts"
    using rr sub by (fastforce simp: records_ready_def)
  have tail: "rehomed malloc g (r # ts) owned vars w vars' w' r'" if r': "r' \<in> set ts" for r'
  proof -
    have re: "rehomed malloc g ts owned vars1 w1 vars' w' r'" using all r' by (simp add: rehomed_all_def)
    have "r' \<in> set rs" using r' sub by blast
    note o1 = o [OF this]
    have was: "blocks w p = None \<or> \<not> owned w p" if "blocks w1 p = None \<or> \<not> owned w1 p" for p
      using st that by (cases rule: rehome_step_cases) (auto split: if_splits)
    show ?thesis
    proof (cases "result_of vars r' = NULL")
      case True
      with re o1 show ?thesis by (simp add: rehomed_def stayed_def)
    next
      case False
      with o1 have e: "vars1 (slot r') = vars (slot r')" "result_of vars1 r' = result_of vars r'"
          "blocks w1 (result_of vars r') = blocks w (result_of vars r')" "owned w1 (result_of vars r') = owned w (result_of vars r')"
        by simp_all
      have "stayed owned vars1 w1 vars' w' r' = stayed owned vars w vars' w' r'" by (simp only: stayed_def e)
      moreover have "moved owned vars1 w1 vars' w' r' \<Longrightarrow> moved owned vars w vars' w' r'"
        unfolding moved_def e using was by blast
      moreover have "r' \<noteq> r" using nslot r' by auto
      ultimately show ?thesis
        using re unfolding rehomed_def e by (auto simp: reaches_tail [OF _ run] split: if_splits)
    qed
  qed
  have vr: "vars' (slot r) = vars1 (slot r)" using all nslot by (simp add: rehomed_all_def)
  have keep: "blocks w1 q \<noteq> None \<Longrightarrow> q \<notin> result_of vars ` set ts \<Longrightarrow> blocks w' q = blocks w1 q \<and> owned w' q = owned w1 q" for q
    using all by (simp add: rehomed_all_def img)
  have new: "blocks w' q \<noteq> None \<Longrightarrow> owned w' q \<or> blocks w1 q \<noteq> None \<and> \<not> owned w1 q" for q
    using all by (simp add: rehomed_all_def)
  have head: "rehomed malloc g (r # ts) owned vars w vars' w' r"
    using st
  proof (cases rule: rehome_step_cases)
    case kept
    have "result_of vars r \<noteq> NULL \<Longrightarrow> blocks w1 (result_of vars r) \<noteq> None"
      using rr kept by (auto simp: records_ready_def record_ready_def)
    then have "stayed owned vars w vars' w' r"
      using nres keep [of "result_of vars r"] vr kept by (auto simp: stayed_def)
    with kept(4) reaches_here [of malloc g r ts vars w] show ?thesis unfolding rehomed_def by metis
  next
    case (moved p cs n)
    have "p \<notin> result_of vars ` set ts" using live moved by fastforce
    moreover have p: "p \<noteq> result_of vars r" using moved by auto
    ultimately have "blocks w' p = Some (take n cs)" "owned w' p" using keep [of p] moved by auto
    moreover have "blocks w1 (result_of vars r) = None" using moved by simp
    then have "blocks w' (result_of vars r) = None \<or> owned w' (result_of vars r)"
      using new [of "result_of vars r"] by blast
    moreover have "mode r \<noteq> AO_REHOME_UNSUPPORTED_WIDE_CHAR_COUNT" using moved by (auto simp: clone_size_def)
    moreover have "r \<notin> set ts" using nslot by auto
    ultimately show ?thesis using moved vr unfolding rehomed_def moved_def by (auto simp: reaches_head)
  qed
  have frame: "blocks w' q = blocks w q \<and> owned w' q = owned w q"
    if "blocks w q \<noteq> None" "q \<notin> result_of vars ` set (r # ts)" for q
    using st that keep [of q] by (cases rule: rehome_step_cases) auto
  have fresh: "owned w' q \<or> blocks w q \<noteq> None \<and> \<not> owned w q" if "blocks w' q \<noteq> None" for q
    using st new [OF that] by (cases rule: rehome_step_cases) (auto split: if_splits)
  have own: "owned w q \<or> (\<exists>r \<in> set (r # ts). vars' (slot r) = Some q)" if "owned w' q" for q
  proof -
    have "owned w1 q \<or> (\<exists>r \<in> set ts. vars' (slot r) = Some q)" using all that by (simp add: rehomed_all_def)
    with st vr show ?thesis by (cases rule: rehome_step_cases) (auto split: if_splits)
  qed
  have "vars' s = vars s" if "s \<notin> slot ` set (r # ts)" for s
    using st all that by (cases rule: rehome_step_cases) (auto simp: rehomed_all_def)
  then show ?thesis
    using head tail frame fresh own unfolding rehomed_all_def by simp
qed

text \<open>The number of results that the loop may still move.\<close>

definition pending :: "('a libc_scheme \<Rightarrow> ptr \<Rightarrow> bool) \<Rightarrow> slots \<Rightarrow> 'a libc_scheme \<Rightarrow> ao_scanf_record list \<Rightarrow> nat" where
  "pending owned vars w rs = length (filter (\<lambda>r. \<not> owned w (result_of vars r)) rs)"

lemma rehome_step_pending:
  assumes st: "rehome_step malloc owned vars w vars1 w1 r" and rr: "records_ready owned vars w (r # rs)"
    and null: "\<not> owned w NULL" "\<not> owned w1 NULL"
  shows "pending owned vars1 w1 rs = pending owned vars w rs"
proof -
  have "owned w1 (result_of vars1 r') = owned w (result_of vars r')" if "r' \<in> set rs" for r'
    using rehome_step_others [OF st rr that] null by (cases "result_of vars r' = NULL") simp_all
  then show ?thesis by (simp add: pending_def cong: filter_cong)
qed

section \<open>The allocator bridge\<close>

text \<open>
  What the rehoming code relies on: the bridge tells whether the allocator owns a live object, and frees
  a libc-owned object behind the allocator's back.
\<close>

locale scan_bridge = c_allocator malloc realloc free inv owned room
  for malloc :: "size_t \<Rightarrow> 'a libc_scheme \<Rightarrow> (ptr \<times> 'a libc_scheme) outcome"
    and realloc :: "ptr \<Rightarrow> size_t \<Rightarrow> 'a libc_scheme \<Rightarrow> (ptr \<times> 'a libc_scheme) outcome"
    and free :: "ptr \<Rightarrow> 'a libc_scheme \<Rightarrow> 'a libc_scheme outcome"
    and inv :: "'a libc_scheme \<Rightarrow> bool"
    and owned :: "'a libc_scheme \<Rightarrow> ptr \<Rightarrow> bool"
    and room :: "'a libc_scheme \<Rightarrow> nat" +
  fixes owns :: "ptr \<Rightarrow> 'a libc_scheme \<Rightarrow> (bool \<times> 'a libc_scheme) outcome"
    and libc_free :: "ptr \<Rightarrow> 'a libc_scheme \<Rightarrow> 'a libc_scheme outcome"
  assumes owns_law: "inv w \<Longrightarrow> blocks w p \<noteq> None \<Longrightarrow> owns p w = Done (owned w p, w)"
    and libc_free_law: "inv w \<Longrightarrow> blocks w p \<noteq> None \<Longrightarrow> \<not> owned w p \<Longrightarrow>
      wp False (libc_free p w) (\<lambda>w'. inv w' \<and> blocks w' = (blocks w)(p := None)
        \<and> owned w' = owned w \<and> room w' = room w \<and> errno w' = errno w)"
begin

text \<open>A libc-owned result whose mode can be copied.\<close>

lemma rehome_record_law:
  assumes inv: "inv w" and g: "g_bridge_ready g" "g_bridge_owns g = Some owns" "g_bridge_libc_free g = Some libc_free"
    and v: "vars (slot r) = Some orig" "orig \<noteq> NULL" "\<not> owned w orig"
    and s: "blocks w orig = Some cs" "length cs < 2 ^ 64" "clone_size r cs = Some n"
  shows "wp (room w = 0) (ao_rehome_scanf_record malloc g r vars w) (\<lambda>(vars', w'). inv w' \<and> room w \<le> Suc (room w') \<and>
    (vars' = vars \<and> blocks w' = blocks w \<and> owned w' = owned w \<and> clone_failed malloc orig r w
     \<or> (\<exists>p. p \<noteq> NULL \<and> blocks w p = None \<and> vars' = vars(slot r \<mapsto> p)
          \<and> blocks w' = (blocks w)(p \<mapsto> take n cs, orig := None) \<and> owned w' = (owned w)(p := True)
          \<and> \<not> clone_failed malloc orig r w)))"
proof -
  have eq: "ao_rehome_scanf_record malloc g r vars w =
      obind (clone_by_mode malloc r orig w) (\<lambda>(replacement, w).
           case replacement of
             None \<Rightarrow> Done (vars, w)
           | Some p \<Rightarrow> if p = NULL then Done (vars, w)
               else obind (libc_free orig w) (\<lambda>w. Done (vars(slot r \<mapsto> p), w)))"
  proof -
    have "ao_load_pointer_slot (slot r) vars = Done orig" "call_owns g orig w = Done (False, w)"
      using owns_law [OF inv, of orig] v s(1) g by (simp_all add: ao_load_pointer_slot_def call_owns_def)
    moreover have "ao_store_pointer_slot (slot r) p vars = Done (vars(slot r \<mapsto> p))" for p
      using v(1) by (simp add: ao_store_pointer_slot_def)
    moreover have "call_libc_free g orig = libc_free orig"
      using g(3) by (simp add: call_libc_free_def fun_eq_iff)
    moreover have "\<not> (orig = NULL \<or> \<not> g_bridge_ready g)" using v(2) g(1) by simp
    ultimately show ?thesis
      unfolding ao_rehome_scanf_record_def by (simp only: obind.simps prod.case if_False simp_thms)
  qed
  show ?thesis
    unfolding eq
  proof (rule wp_bindI [OF clone_by_mode_law [OF inv s]], assumption, goal_cases)
    case (1 x)
    then obtain p u where x: "x = (Some p, u)" and u: "inv u" "room w \<le> Suc (room u)" "cloned malloc owned (take n cs) w p u"
      by (cases x) auto
    show ?case
    proof (cases "p = NULL")
      case True
      have "length (take n cs) = n" using clone_size_le [OF s(3)] by simp
      with True u(3) have "\<exists>m. unat m = n \<and> malloc m w = Done (NULL, u)" by (simp add: cloned_def)
      with s have "clone_failed malloc orig r w" unfolding clone_failed_def by blast
      with True x u show ?thesis by (simp add: cloned_def duplicated_def)
    next
      case False
      with u have d: "blocks w p = None" "blocks u = (blocks w)(p \<mapsto> take n cs)" "owned u = (owned w)(p := True)"
        by (auto simp: cloned_def duplicated_def)
      then have "p \<noteq> orig" using s(1) by auto
      then have "wp False (libc_free orig u) (\<lambda>w'. inv w' \<and> blocks w' = (blocks u)(orig := None)
          \<and> owned w' = owned u \<and> room w' = room u \<and> errno w' = errno u)"
        using u d v(3) s(1) by (intro libc_free_law) auto
      moreover have "\<not> clone_failed malloc orig r w"
      proof
        assume "clone_failed malloc orig r w"
        with s obtain m w2 where "unat m = n" "malloc m w = Done (NULL, w2)" by (auto simp: clone_failed_def)
        moreover obtain m' w3 where "unat m' = n" "malloc m' w = Done (p, w3)"
          using u(3) clone_size_le [OF s(3)] by (auto simp: cloned_def)
        ultimately show False using False word_unat_eq_iff [of m m'] by simp
      qed
      ultimately show ?thesis
        unfolding x using False
        by (auto elim!: wp_bindI) (use u d in auto)
    qed
  qed
qed

text \<open>One record, whatever its slot holds; what the allocator owns takes the early return.\<close>

lemma rehome_any_law:
  assumes inv: "inv w" and g: "g_bridge_ready g" "g_bridge_owns g = Some owns" "g_bridge_libc_free g = Some libc_free"
    and r: "record_ready owned vars w r"
  shows "wp (room w = 0 \<and> \<not> owned w (result_of vars r)) (ao_rehome_scanf_record malloc g r vars w)
    (\<lambda>(vars', w'). inv w' \<and> room w \<le> room w' + of_bool (\<not> owned w (result_of vars r)) \<and> rehome_step malloc owned vars w vars' w' r)"
proof (cases "result_of vars r = NULL \<or> owned w (result_of vars r) \<or> mode r = AO_REHOME_UNSUPPORTED_WIDE_CHAR_COUNT")
  case True
  have ld: "ao_load_pointer_slot (slot r) vars = Done (result_of vars r)"
    using r by (auto simp: record_ready_def ao_load_pointer_slot_def result_of_def)
  show ?thesis
  proof (cases "result_of vars r = NULL")
    case True
    with inv ld show ?thesis by (simp add: ao_rehome_scanf_record_def rehome_step_def)
  next
    case False
    then have "blocks w (result_of vars r) \<noteq> None" using r by (auto simp: record_ready_def)
    then have "call_owns g (result_of vars r) w = Done (owned w (result_of vars r), w)"
      using owns_law [OF inv] g by (simp add: call_owns_def)
    with True False inv ld g(1) show ?thesis
      by (auto simp: ao_rehome_scanf_record_def clone_by_mode_def rehome_step_def)
  qed
next
  case False
  with r obtain cs n where cs: "vars (slot r) = Some (result_of vars r)" "blocks w (result_of vars r) = Some cs"
      "length cs < 2 ^ 64" "clone_size r cs = Some n"
    by (auto simp: record_ready_def result_of_def)
  from False have f: "result_of vars r \<noteq> NULL" "\<not> owned w (result_of vars r)" by simp_all
  from rehome_record_law [of w g vars r "result_of vars r" cs n] inv g cs f show ?thesis
    by (auto elim!: wp_conseq simp: rehome_step_def)
qed

lemma rehome_loop_law:
  assumes "inv w" and g: "g_bridge_ready g" "g_bridge_owns g = Some owns" "g_bridge_libc_free g = Some libc_free"
    and "records_ready owned vars w rs"
  shows "wp (room w < pending owned vars w rs) (rehome_loop malloc g matches rs vars w) (\<lambda>(vars', w'). inv w'
    \<and> rehomed_all malloc g owned vars w vars' w' (takeWhile (\<lambda>r. sint (ordinal r) \<le> matches) rs))"
  using assms(1,5)
proof (induction rs arbitrary: vars w)
  case Nil
  then show ?case by (simp add: rehomed_all_def)
next
  case (Cons r rs)
  have null: "inv v \<Longrightarrow> \<not> owned v NULL" for v using owned_live_law NULL_law by blast
  show ?case
  proof (cases "sint (ordinal r) \<le> matches")
    case False
    with Cons.prems show ?thesis by (simp add: rehomed_all_def)
  next
    case True
    have "record_ready owned vars w r" using Cons.prems(2) by (simp add: records_ready_def)
    from wp_value [OF rehome_any_law [OF Cons.prems(1) g this]]
    have "wp (room w < pending owned vars w (r # rs)) (obind (ao_rehome_scanf_record malloc g r vars w)
        (\<lambda>(vars, w). rehome_loop malloc g matches rs vars w)) (\<lambda>(vars', w'). inv w'
      \<and> rehomed_all malloc g owned vars w vars' w' (r # takeWhile (\<lambda>r. sint (ordinal r) \<le> matches) rs))"
    proof (rule wp_bindI, simp add: pending_def, goal_cases)
      case (1 x)
      then obtain vars1 w1 where x: "x = (vars1, w1)" and
        s: "inv w1" "room w \<le> room w1 + of_bool (\<not> owned w (result_of vars r))" "rehome_step malloc owned vars w vars1 w1 r"
          "ao_rehome_scanf_record malloc g r vars w = Done (vars1, w1)" by (cases x) auto
      have p: "pending owned vars w (r # rs) = pending owned vars1 w1 rs + of_bool (\<not> owned w (result_of vars r))"
        using rehome_step_pending [OF s(3) Cons.prems(2) null null] Cons.prems(1) s(1) by (simp add: pending_def)
      from Cons.IH [OF s(1) rehome_step_ready [OF s(3) Cons.prems(2)]] show ?case
        unfolding x prod.case
        by (rule wp_conseq) (use s(2) p set_takeWhileD in
          \<open>fastforce intro: rehomed_all_Cons [OF s(3) Cons.prems(2) s(4)]\<close>)+
    qed
    with True show ?thesis by (simp del: split_paired_All)
  qed
qed

end

end
