(* ===== verification/Scanf_Wrappers.thy ===== *)
theory Scanf_Wrappers
  imports Scanf_Rehome
begin

text \<open>
  The wrappers from end to end: read the format, let libc scan, move the assigned results, release the plan.
  \<open>scanner_contract\<close> states what is relied on of libc's scanner.
\<close>

section \<open>libc's scanner\<close>

text \<open>The records whose conversion is among the first \<open>ret\<close> that assigned.\<close>

definition assigned :: "int \<Rightarrow> ao_scanf_record list \<Rightarrow> ao_scanf_record list" where
  "assigned ret = takeWhile (\<lambda>r. sint (ordinal r) \<le> ret)"

text \<open>
  The scanner leaves every live object alone and stores into the slots of the assigned records null or new objects, each a
  string or array the record describes. They may come from the system allocator or from the preloaded one, to
  which libc's own calls of \<open>malloc\<close> may be bound; the allocator gives out nothing else. Where the scanner calls the preloaded allocator it may
  end the process for want of room.
\<close>

definition scanner_contract ::
  "('a libc_scheme \<Rightarrow> bool) \<Rightarrow> ('a libc_scheme \<Rightarrow> ptr \<Rightarrow> bool) \<Rightarrow> ('a libc_scheme \<Rightarrow> nat)
   \<Rightarrow> (slots \<Rightarrow> 'a libc_scheme \<Rightarrow> (int \<times> slots \<times> 'a libc_scheme) outcome) \<Rightarrow> slots \<Rightarrow> ao_scanf_record list \<Rightarrow> bool" where
  "scanner_contract good owned room scan vars rs \<longleftrightarrow>
     (\<forall>u. good u \<longrightarrow> wp (room u < length rs) (scan vars u) (\<lambda>(ret, v, w). good w
        \<and> (\<forall>q. blocks u q \<noteq> None \<longrightarrow> blocks w q = blocks u q \<and> owned w q = owned u q)
        \<and> (\<forall>q. owned w q \<longrightarrow> owned u q \<or> ret > 0 \<and> (\<exists>r \<in> set (assigned ret rs). v (slot r) = Some q))
        \<and> (ret > 0 \<longrightarrow> records_ready owned v w (assigned ret rs)
             \<and> (\<forall>r \<in> set (assigned ret rs). blocks u (result_of v r) = None)
             \<and> room u \<le> room w + length (filter (\<lambda>r. owned w (result_of v r)) (assigned ret rs)))))"

text \<open>
  What a wrapper promises. The caller's objects are untouched; the value is that of libc's scanner, run after the format was
  read; where the plan was built, each assigned result is moved or stays as \<open>rehomed\<close> says, and no other slot changes;
  where the parser returned -1, for lack of memory, everything the scanner made stays. The plan is released:
  an object that lives afterwards was the caller's, is in an assigned slot, or is one of the scanner's own that is no result; and a block
  the allocator gave out is in an assigned slot.
\<close>

definition wrapped ::
  "'a malloc_fn \<Rightarrow> 'a scanf_globals \<Rightarrow> ('a libc_scheme \<Rightarrow> ptr \<Rightarrow> bool)
   \<Rightarrow> ('a libc_scheme \<Rightarrow> ((int \<times> ao_scanf_plan) \<times> 'a libc_scheme) outcome)
   \<Rightarrow> (slots \<Rightarrow> 'a libc_scheme \<Rightarrow> (int \<times> slots \<times> 'a libc_scheme) outcome)
   \<Rightarrow> ao_scanf_record list \<Rightarrow> slots \<Rightarrow> 'a libc_scheme \<Rightarrow> int \<Rightarrow> slots \<Rightarrow> 'a libc_scheme \<Rightarrow> bool" where
  "wrapped malloc g owned parse scan rs vars w ret vars' w' \<longleftrightarrow> grows owned w w' \<and>
     (\<exists>rc plan u v w1. parse w = Done ((rc, plan), u) \<and> (rc = 0 \<or> rc = -1 \<and> errno u = ENOMEM)
        \<and> scan vars u = Done (ret, v, w1)
        \<and> (if rc = 0 \<and> ret > 0
           then (\<forall>r \<in> set (assigned ret rs). rehomed malloc g (assigned ret rs) owned v w1 vars' w' r)
             \<and> (\<forall>s. s \<notin> slot ` set (assigned ret rs) \<longrightarrow> vars' s = v s)
           else vars' = v \<and> (\<forall>q. blocks u q = None \<longrightarrow> blocks w' q = blocks w1 q \<and> owned w' q = owned w1 q))
        \<and> (\<forall>q. blocks w' q \<noteq> None \<longrightarrow> blocks w q \<noteq> None \<or> ret > 0 \<and> (\<exists>r \<in> set (assigned ret rs). vars' (slot r) = Some q)
             \<or> blocks u q = None \<and> blocks w1 q \<noteq> None \<and> (ret > 0 \<longrightarrow> q \<notin> result_of v ` set (assigned ret rs)))
        \<and> (\<forall>q. owned w' q \<longrightarrow> owned w q \<or> ret > 0 \<and> (\<exists>r \<in> set (assigned ret rs). vars' (slot r) = Some q)))"

lemma rehome_loop_assigned:
  "rehome_loop malloc g ret (assigned ret rs) vars w = rehome_loop malloc g ret rs vars w"
proof (induction rs arbitrary: vars w)
  case (Cons r rs)
  have "assigned ret (r # rs) = (if sint (ordinal r) \<le> ret then r # assigned ret rs else [])"
    by (simp add: assigned_def)
  moreover have "rehome_loop malloc g ret (assigned ret rs) = rehome_loop malloc g ret rs"
    by (intro ext) (rule Cons.IH)
  ultimately show ?case by simp
qed (simp add: assigned_def)

lemma assigned_assigned: "takeWhile (\<lambda>r. sint (ordinal r) \<le> ret) (assigned ret rs) = assigned ret rs"
  unfolding assigned_def takeWhile_eq_all_conv using set_takeWhileD by fast

lemma length_assigned: "length (assigned ret rs) \<le> length rs"
  by (simp add: assigned_def length_takeWhile_le)

text \<open>The records come in the order of their ordinals, so the early \<open>break\<close> of the loop skips nothing it should move.\<close>

lemma assigned_filter:
  assumes "sorted_wrt (<) (map (\<lambda>r. unat (ordinal r)) rs)" "\<And>r. r \<in> set rs \<Longrightarrow> unat (ordinal r) < 2 ^ 31"
  shows "assigned ret rs = filter (\<lambda>r. sint (ordinal r) \<le> ret) rs"
  using assms
proof (induction rs)
  case (Cons r rs)
  have s: "sint (ordinal x) = int (unat (ordinal x))" if "x \<in> set (r # rs)" for x
  proof -
    have "int (unat (ordinal x)) < int (2 ^ 31)" using Cons.prems(2) [OF that] by (simp only: of_nat_less_iff)
    moreover have "- (2 ^ 31) \<le> int (unat (ordinal x))" by (rule order_trans [of _ 0]) simp_all
    ultimately show ?thesis unfolding sint_uint uint_nat by (intro signed_take_bit_int_eq_self) simp_all
  qed
  have lt: "sint (ordinal r) < sint (ordinal x)" if "x \<in> set rs" for x
  proof -
    have "unat (ordinal r) < unat (ordinal x)" using Cons.prems(1) that by simp
    moreover have "x \<in> set (r # rs)" "r \<in> set (r # rs)" using that by simp_all
    ultimately show ?thesis by (simp only: s of_nat_less_iff)
  qed
  have IH: "takeWhile (\<lambda>r. sint (ordinal r) \<le> ret) rs = filter (\<lambda>r. sint (ordinal r) \<le> ret) rs"
    using Cons.IH Cons.prems unfolding assigned_def by simp
  show ?case
  proof (cases "sint (ordinal r) \<le> ret")
    case True
    then show ?thesis unfolding assigned_def by (simp add: IH)
  next
    case False
    then have "filter (\<lambda>r. sint (ordinal r) \<le> ret) rs = []" using lt unfolding filter_empty_conv by force
    with False show ?thesis unfolding assigned_def by simp
  qed
qed (simp add: assigned_def)

text \<open>Dropping a block that is no result and was owned before keeps what was moved.\<close>

lemma rehomed_drop:
  assumes "rehomed malloc g rs owned v w v' w2 r" "blocks w' = (blocks w2)(b := None)"
    "\<And>q. q \<noteq> b \<Longrightarrow> owned w' q = owned w2 q" "owned w b" "blocks w b \<noteq> None" "result_of v r \<noteq> b"
  shows "rehomed malloc g rs owned v w v' w' r"
proof -
  have "owned w2 p \<Longrightarrow> blocks w p = None \<or> \<not> owned w p \<Longrightarrow> owned w' p \<and> blocks w' p = blocks w2 p" for p
    using assms by auto
  moreover have e: "blocks w' (result_of v r) = blocks w2 (result_of v r)" "owned w' (result_of v r) = owned w2 (result_of v r)"
    using assms by simp_all
  ultimately have "moved owned v w v' w2 r \<Longrightarrow> moved owned v w v' w' r" unfolding moved_def e by metis
  moreover have "stayed owned v w v' w' r = stayed owned v w v' w2 r" by (simp only: stayed_def e)
  ultimately show ?thesis using assms(1) unfolding rehomed_def by (auto split: if_splits)
qed

section \<open>A wrapper\<close>

text \<open>The plan's block \<open>b\<close> is the only difference to the state \<open>w\<close>.\<close>

definition only_plan :: "('a libc_scheme \<Rightarrow> ptr \<Rightarrow> bool) \<Rightarrow> ptr \<Rightarrow> 'a libc_scheme \<Rightarrow> 'a libc_scheme \<Rightarrow> bool" where
  "only_plan owned b w u \<longleftrightarrow>
     (\<forall>q. blocks w q \<noteq> None \<longrightarrow> q \<noteq> b \<and> blocks u q = blocks w q \<and> owned u q = owned w q)
     \<and> (\<forall>q. blocks u q \<noteq> None \<longrightarrow> q = b \<or> blocks w q \<noteq> None)"

text \<open>The last step, releasing the plan's block \<open>b\<close>, gives what the wrapper promises.\<close>

lemma wrapped_finish:
  assumes parse: "parse w = Done ((rc, plan), u)" "rc = 0 \<or> rc = -1 \<and> errno u = ENOMEM"
    and u: "only_plan owned b w u" "b \<noteq> NULL \<Longrightarrow> owned u b \<and> blocks u b \<noteq> None"
    and inw: "\<And>q. owned w q \<Longrightarrow> blocks w q \<noteq> None"
    and live: "\<And>q. owned u q \<Longrightarrow> blocks u q \<noteq> None" "\<And>q. owned w1 q \<Longrightarrow> q \<noteq> NULL" "blocks u NULL = None" "blocks w2 NULL = None"
    and w1: "scan vars u = Done (ret, v, w1)" "\<And>q. blocks u q \<noteq> None \<Longrightarrow> blocks w1 q = blocks u q \<and> owned w1 q = owned u q"
      "\<And>q. owned w1 q \<Longrightarrow> owned u q \<or> ret > 0 \<and> (\<exists>r \<in> set (assigned ret rs). v (slot r) = Some q)"
    and res: "ret > 0 \<Longrightarrow> records_ready owned v w1 (assigned ret rs)"
      "\<And>r. ret > 0 \<Longrightarrow> r \<in> set (assigned ret rs) \<Longrightarrow> blocks u (result_of v r) = None"
    and w2: "if rc = 0 \<and> ret > 0 then rehomed_all malloc g owned v w1 v' w2 (assigned ret rs) else v' = v \<and> w2 = w1"
    and w': "blocks w' = (blocks w2)(b := None)" "owned w' = (if b = NULL then owned w2 else (owned w2)(b := False))"
  shows "wrapped malloc g owned parse scan rs vars w ret v' w'"
proof -
  let ?rs = "assigned ret rs" and ?moves = "rc = 0 \<and> ret > 0"
  have all: "?moves \<Longrightarrow> rehomed_all malloc g owned v w1 v' w2 ?rs" and kept: "\<not> ?moves \<Longrightarrow> v' = v \<and> w2 = w1" using w2 by auto
  have 2: "blocks w2 q = blocks w1 q \<and> owned w2 q = owned w1 q" if "blocks u q \<noteq> None" for q
  proof (cases ?moves)
    case True
    have "blocks w1 q \<noteq> None" "q \<notin> result_of v ` set ?rs" using that w1(2) [of q] res(2) True by auto
    with all [OF True] show ?thesis by (simp add: rehomed_all_def)
  qed (use kept in simp)
  have keep: "blocks w' q = blocks w q \<and> owned w' q = owned w q" if "blocks w q \<noteq> None" for q
    using that u(1) 2 [of q] w' w1(2) [of q] by (auto simp: only_plan_def)
  have re: "rehomed malloc g ?rs owned v w1 v' w' r" if m: "?moves" "r \<in> set ?rs" for r
  proof -
    have r2: "rehomed malloc g ?rs owned v w1 v' w2 r" using all [OF m(1)] m(2) by (simp add: rehomed_all_def)
    show ?thesis
    proof (cases "b = NULL")
      case True
      then have "blocks w' = blocks w2" "owned w' = owned w2" using w' live(4) by auto
      with r2 show ?thesis by (simp only: rehomed_def moved_def stayed_def)
    next
      case False
      then have b: "owned w1 b" "blocks w1 b \<noteq> None" using u(2) w1(2) [of b] by auto
      have "result_of v r \<noteq> b" using res(2) [OF _ m(2)] u(2) False m(1) by auto
      with b False w' show ?thesis by (intro rehomed_drop [OF r2 w'(1)]) auto
    qed
  qed
  have slot2: "v' (slot r) = Some (result_of v r)" if r: "r \<in> set ?rs" "ret > 0"
      and s: "?moves \<Longrightarrow> result_of v r \<noteq> NULL \<and> (owned w1 (result_of v r) \<or> blocks w2 (result_of v r) \<noteq> None \<and> \<not> owned w2 (result_of v r))" for r
  proof -
    have some: "v (slot r) = Some (result_of v r)"
      using res(1) r by (auto simp: records_ready_def record_ready_def result_of_def)
    show ?thesis
    proof (cases ?moves)
      case True
      have "rehomed malloc g ?rs owned v w1 v' w2 r" using all [OF True] r(1) by (simp add: rehomed_all_def)
      with s [OF True] have "stayed owned v w1 v' w2 r" by (auto simp: rehomed_def moved_def split: if_splits)
      with some show ?thesis by (simp add: stayed_def)
    qed (use some kept in simp)
  qed
  have own1: "owned w q \<or> q = b \<and> b \<noteq> NULL \<or> ret > 0 \<and> (\<exists>r \<in> set ?rs. v' (slot r) = Some q)" if o: "owned w1 q" for q
    using w1(3) [OF o]
  proof
    assume "owned u q"
    moreover from this have "blocks u q \<noteq> None" by (rule live(1))
    ultimately show ?thesis using u(1) live(3) by (auto simp: only_plan_def)
  next
    assume "ret > 0 \<and> (\<exists>r \<in> set ?rs. v (slot r) = Some q)"
    then obtain r where r: "r \<in> set ?rs" "ret > 0" "result_of v r = q" by (auto simp: result_of_def)
    then have "v' (slot r) = Some q" using slot2 [OF r(1,2)] o live(2) by simp
    with r show ?thesis by blast
  qed
  have own2: "owned w q \<or> q = b \<and> b \<noteq> NULL \<or> ret > 0 \<and> (\<exists>r \<in> set ?rs. v' (slot r) = Some q)" if o: "owned w2 q" for q
  proof (cases ?moves)
    case True
    with all have "owned w1 q \<or> (\<exists>r \<in> set ?rs. v' (slot r) = Some q)" using o by (simp add: rehomed_all_def)
    with own1 True show ?thesis by blast
  qed (use kept own1 o in simp)
  have own: "owned w q \<or> ret > 0 \<and> (\<exists>r \<in> set ?rs. v' (slot r) = Some q)" if "owned w' q" for q
    using own2 [of q] that w'(2) by (auto split: if_splits)
  have leak: "blocks w q \<noteq> None \<or> ret > 0 \<and> (\<exists>r \<in> set ?rs. v' (slot r) = Some q)
      \<or> blocks u q = None \<and> blocks w1 q \<noteq> None \<and> (ret > 0 \<longrightarrow> q \<notin> result_of v ` set ?rs)" if q': "blocks w' q \<noteq> None" for q
  proof (cases "blocks u q = None")
    case True
    have q: "q \<noteq> b" "blocks w2 q \<noteq> None" "q \<noteq> NULL" using q' w'(1) live(4) by (auto split: if_splits)
    have slot: ?thesis if "ret > 0" "q \<in> result_of v ` set ?rs" "?moves \<Longrightarrow> \<not> owned w2 q"
    proof -
      from that(2) obtain r where r: "r \<in> set ?rs" "q = result_of v r" by blast
      with slot2 [OF r(1) that(1)] that(3) q have "v' (slot r) = Some q" by simp
      with r(1) that(1) show ?thesis by blast
    qed
    show ?thesis
    proof (cases "?moves \<and> owned w2 q")
      case True
      then show ?thesis using own2 [of q] inw q(1) by blast
    next
      case False
      have "blocks w1 q \<noteq> None"
        using False q(2) all kept by (cases ?moves) (auto simp: rehomed_all_def)
      with slot False True show ?thesis by blast
    qed
  next
    case False
    with q' u(1) w'(1) show ?thesis by (auto simp: only_plan_def split: if_splits)
  qed
  have rest: "\<not> ?moves \<Longrightarrow> blocks u q = None \<Longrightarrow> blocks w' q = blocks w1 q \<and> owned w' q = owned w1 q" for q
    using kept w' u(2) live(4) by (cases "q = b") auto
  have slots: "?moves \<Longrightarrow> s \<notin> slot ` set ?rs \<Longrightarrow> v' s = v s" for s using all by (simp add: rehomed_all_def)
  show ?thesis
    unfolding wrapped_def grows_def using parse w1(1) keep re own leak rest slots kept
    by (intro conjI exI [of _ rc] exI [of _ plan] exI [of _ u] exI [of _ v] exI [of _ w1]) (auto split: if_splits)
qed


context scan_bridge
begin

lemma only_plan_replaced:
  assumes inv: "inv w" "inv u" and rep: "replaced owned NULL w b u"
  shows "only_plan owned b w u"
proof -
  have NULL: "blocks w NULL = None" "blocks u NULL = None" using inv NULL_law by auto
  have at: "blocks u q = ((blocks w)(NULL := None, b := blocks u b)) q" for q
    using rep unfolding replaced_def by metis
  have "q \<noteq> b \<and> blocks u q = blocks w q \<and> owned u q = owned w q" if "blocks w q \<noteq> None" for q
  proof -
    have "q \<noteq> NULL" "q \<noteq> b" using that NULL rep by (auto simp: replaced_def)
    with at [of q] rep that show ?thesis by (simp add: replaced_def)
  qed
  moreover have "q = b \<or> blocks w q \<noteq> None" if "blocks u q \<noteq> None" for q
    using at [of q] that by (auto split: if_splits)
  ultimately show ?thesis unfolding only_plan_def by blast
qed

text \<open>Reading the format takes one place of the allocator, each result another.\<close>

lemma only_plan_room:
  assumes "inv w" "inv u" "only_plan owned b w u"
  shows "room w \<le> Suc (room u)"
proof (rule room_law [OF assms(1,2), of b])
  show "owned u q \<Longrightarrow> q = b \<or> owned w q" for q
    using assms(3) owned_live_law [OF assms(2)] unfolding only_plan_def by metis
qed

lemma pending_filter:
  "pending owned v w rs + length (filter (\<lambda>r. owned w (result_of v r)) rs) = length rs"
  using sum_length_filter_compl [of "\<lambda>r. owned w (result_of v r)" rs] by (simp add: pending_def)

text \<open>Releasing the plan after the results were moved (or not).\<close>

lemma wrap_scanf_law:
  assumes inv: "inv w"
    and g: "g' = ao_ensure_scanf_symbols dl g" "g_bridge_ready g'" "g_bridge_owns g' = Some owns" "g_bridge_libc_free g' = Some libc_free"
    and al: "al_malloc al = malloc" "al_free al = free"
    and parse: "wp (room w = 0) (parse format ap empty_plan w) (\<lambda>((rc, plan), u). inv u \<and> plan_ok owned plan u
      \<and> replaced owned NULL w (records plan) u \<and> (rc = 0 \<and> items plan = rs \<or> rc = -1 \<and> errno u = ENOMEM))"
    and scan: "scanner_contract inv owned room (real input format ap) vars rs"
  shows "wp (room w \<le> length rs) (wrap_scanf parse al dl (Some real) input format ap g vars w)
    (\<lambda>((ret, h, vars'), w'). inv w' \<and> h = g'
      \<and> wrapped malloc g' owned (parse format ap empty_plan) (real input format ap) rs vars w ret vars' w')"
  unfolding wrap_scanf_def Let_def option.case g(1) [symmetric]
proof (rule wp_bindI [OF wp_value [OF parse]], simp, goal_cases)
  case (1 x)
  obtain rc plan u where x: "x = ((rc, plan), u)" by (metis surj_pair)
  with 1 have u: "inv u" "plan_ok owned plan u" "rc = 0 \<and> items plan = rs \<or> rc = -1 \<and> errno u = ENOMEM"
      "only_plan owned (records plan) w u" "parse format ap empty_plan w = Done ((rc, plan), u)"
    using only_plan_replaced [OF inv] by auto
  have room: "room w \<le> Suc (room u)" by (rule only_plan_room [OF inv u(1,4)])
  have null: "inv v \<Longrightarrow> \<not> owned v NULL" for v using owned_live_law NULL_law by blast
  show ?case
    unfolding x prod.case
  proof (rule wp_bindI [OF wp_value [OF scan [unfolded scanner_contract_def, rule_format, OF u(1)]]], use room in simp, goal_cases)
    case (1 y)
    obtain ret v w1 where y: "y = (ret, v, w1)" by (metis surj_pair)
    with 1 have scan1: "real input format ap vars u = Done (ret, v, w1)"
      and w1: "inv w1" "\<And>q. blocks u q \<noteq> None \<Longrightarrow> blocks w1 q = blocks u q \<and> owned w1 q = owned u q"
      "\<And>q. owned w1 q \<Longrightarrow> owned u q \<or> ret > 0 \<and> (\<exists>r \<in> set (assigned ret rs). v (slot r) = Some q)"
      "ret > 0 \<Longrightarrow> records_ready owned v w1 (assigned ret rs)"
      "\<And>r. ret > 0 \<Longrightarrow> r \<in> set (assigned ret rs) \<Longrightarrow> blocks u (result_of v r) = None"
      "ret > 0 \<Longrightarrow> room u \<le> room w1 + length (filter (\<lambda>r. owned w1 (result_of v r)) (assigned ret rs))"
      by auto
    have plan1: "plan_ok owned plan w1" using u(2) w1(2) by (auto simp: plan_ok_def)
    let ?moves = "rc = 0 \<and> ret > 0"
    have rehome: "wp (room w \<le> length rs)
        (if rc = 0 \<and> g_bridge_ready g' \<and> ret > 0 then ao_rehome_scanf_plan (al_malloc al) g' plan ret v w1 else Done (v, w1))
        (\<lambda>(v', w2). inv w2 \<and> (if ?moves then rehomed_all malloc g' owned v w1 v' w2 (assigned ret rs) else v' = v \<and> w2 = w1))"
    proof (cases ?moves)
      case True
      then have rp: "ret > 0" "items plan = rs" "rc = 0" using u(3) by auto
      moreover have "take (unat (plan_count plan)) (items plan) = items plan" using u(2) by (simp add: plan_ok_def)
      moreover have "room w1 < pending owned v w1 (assigned ret rs) \<Longrightarrow> room w \<le> length rs"
        using room w1(6) [OF rp(1)] pending_filter [of v w1 "assigned ret rs"] length_assigned [of ret rs] by linarith
      ultimately show ?thesis
        using rehome_loop_law [OF w1(1) g(2-4) w1(4), of ret] g(2)
        unfolding al assigned_assigned rehome_loop_assigned ao_rehome_scanf_plan_def
        by (auto elim!: wp_conseq)
    qed (use w1(1) in auto)
    show ?case
      unfolding y prod.case
    proof (rule wp_bindI [OF rehome], assumption, goal_cases)
      case (1 z)
      obtain v' w2 where z: "z = (v', w2)" by (cases z)
      with 1 have w2: "inv w2" "if ?moves then rehomed_all malloc g' owned v w1 v' w2 (assigned ret rs) else v' = v \<and> w2 = w1"
        by auto
      have b: "records plan \<noteq> NULL \<Longrightarrow> owned u (records plan) \<and> blocks u (records plan) \<noteq> None"
        using u(2) by (auto simp: plan_ok_def)
      have fin: "wrapped malloc g' owned (parse format ap empty_plan) (real input format ap) rs vars w ret v' w'"
        if w': "blocks w' = (blocks w2)(records plan := None)"
          "owned w' = (if records plan = NULL then owned w2 else (owned w2)(records plan := False))" for w'
      proof (rule wrapped_finish [where b = "records plan" and owned = owned and u = u and ?w1.0 = w1 and ?w2.0 = w2 and v = v])
        show "owned w1 q \<Longrightarrow> q \<noteq> NULL" for q using null [OF w1(1)] by blast
        show "0 < ret \<Longrightarrow> records_ready owned v w1 (assigned ret rs)" by (rule w1(4))
      qed (use u(3,4,5) b scan1 NULL_law u(1) w2 w' owned_live_law inv w1(2,3,5) in auto)
      have "plan_ok owned plan w2"
      proof (cases "records plan = NULL")
        case True
        with u(2) show ?thesis by (auto simp: plan_ok_def)
      next
        case False
        then have "blocks w1 (records plan) \<noteq> None" "?moves \<Longrightarrow> records plan \<notin> result_of v ` set (assigned ret rs)"
          using b w1(2,5) by (auto simp: image_iff)
        with w2(2) have "blocks w2 (records plan) = blocks w1 (records plan) \<and> owned w2 (records plan) = owned w1 (records plan)"
          by (auto simp: rehomed_all_def split: if_splits)
        with plan1 show ?thesis by (auto simp: plan_ok_def)
      qed
      from plan_reset_law [OF w2(1) this] show ?case
        unfolding z prod.case al by (rule wp_bindI) (use fin in auto)
    qed
  qed
qed

text \<open>The wrappers for byte and for wide formats.\<close>

lemma wrap_narrow_law:
  assumes inv: "inv w"
    and g: "g' = ao_ensure_scanf_symbols dl g" "g_bridge_ready g'" "g_bridge_owns g' = Some owns" "g_bridge_libc_free g' = Some libc_free"
    and al: "al = \<lparr>al_malloc = malloc, al_realloc = realloc, al_free = free\<rparr>"
    and rs: "format_records narrow_mode format 0 ap = Done rs"
    and scan: "scanner_contract inv owned room (real input format ap) vars rs"
  shows "wp (room w \<le> length rs) (wrap_scanf (ao_parse_scanf_format (al_realloc al)) al dl (Some real) input format ap g vars w)
    (\<lambda>((ret, h, vars'), w'). inv w' \<and> h = g'
      \<and> wrapped malloc g' owned (ao_parse_scanf_format realloc format ap empty_plan) (real input format ap) rs vars w ret vars' w')"
  using parse_format_law [OF inv plan_ok_empty narrow_records rs]
    wrap_scanf_law [where al = al and real = real and parse = "ao_parse_scanf_format realloc", OF inv g]
  by (simp add: scan al ao_parse_scanf_format_def empty_plan_def)

lemma wrap_wide_law:
  assumes inv: "inv w"
    and g: "g' = ao_ensure_scanf_symbols dl g" "g_bridge_ready g'" "g_bridge_owns g' = Some owns" "g_bridge_libc_free g' = Some libc_free"
    and al: "al = \<lparr>al_malloc = malloc, al_realloc = realloc, al_free = free\<rparr>"
    and rs: "format_records wide_mode format 0 ap = Done rs"
    and scan: "scanner_contract inv owned room (real input format ap) vars rs"
  shows "wp (room w \<le> length rs) (wrap_scanf (ao_parse_wscanf_format (al_realloc al)) al dl (Some real) input format ap g vars w)
    (\<lambda>((ret, h, vars'), w'). inv w' \<and> h = g'
      \<and> wrapped malloc g' owned (ao_parse_wscanf_format realloc format ap empty_plan) (real input format ap) rs vars w ret vars' w')"
  using parse_format_law [OF inv plan_ok_empty wide_records rs]
    wrap_scanf_law [where al = al and real = real and parse = "ao_parse_wscanf_format realloc", OF inv g]
  by (simp add: scan al ao_parse_wscanf_format_def empty_plan_def)

end

end
