(* ===== verification/Path_Overrides.thy ===== *)
theory Path_Overrides
  imports String_Overrides
begin

text \<open>
  \<open>src/helpers.c\<close> and \<open>src/path_overrides.c\<close> but for \<open>realpath\<close>: the string helpers, \<open>getcwd\<close>,
  \<open>get_current_dir_name\<close> and \<open>tempnam\<close>.

  The kernel is a parameter: the current directory is \<open>Inl\<close> an error or \<open>Inr\<close> its path, \<open>readlink\<close> of a path the same
  with the target of the link; the answer to a \<open>readlink\<close> may also depend on how many calls went before, so
  that the file system may change between two calls. Local arrays are lists of cells that start
  indeterminate. Sizes and indices are bounded by these arrays; where the source subtracts sizes,
  \<open>size_sub\<close> wraps as \<open>size_t\<close> does.
\<close>

type_synonym sys_path = "errno + byte list"
type_synonym file_system = "nat \<Rightarrow> byte list \<Rightarrow> sys_path"

definition PATH_MAX :: nat where [layout]: "PATH_MAX = 4096"
definition MAXTRIES :: nat where "MAXTRIES = 100"

definition size_sub :: "nat \<Rightarrow> nat \<Rightarrow> nat" where
  "size_sub a b = (if b \<le> a then a - b else a + 2 ^ 64 - b)"

lemma size_sub_le [simp]: "b \<le> a \<Longrightarrow> size_sub a b = a - b"
  by (simp add: size_sub_def)

section \<open>Local arrays\<close>

definition read_at :: "cell list \<Rightarrow> nat \<Rightarrow> byte outcome" where
  "read_at cs i = (if i < length cs then case cs ! i of None \<Rightarrow> Undef | Some b \<Rightarrow> Done b else Undef)"

definition put_cells :: "cell list \<Rightarrow> nat \<Rightarrow> cell list \<Rightarrow> cell list outcome" where
  "put_cells cs off new = (if off + length new \<le> length cs then Done (overwrite off new cs) else Undef)"

text \<open>The C string at the start of an array, for the functions of the kernel.\<close>

definition c_string :: "cell list \<Rightarrow> byte list outcome" where
  "c_string cs = obind (strlen cs) (\<lambda>n. Done (map the (take n cs)))"

lemma read_at_Done: "i < length cs \<Longrightarrow> cs ! i = Some b \<Longrightarrow> read_at cs i = Done b"
  by (simp add: read_at_def)

lemma read_at_eq_Done: "read_at cs i = Done b \<longleftrightarrow> i < length cs \<and> cs ! i = Some b"
  by (auto simp: read_at_def split: option.splits)

lemma put_cells_eq_Done: "put_cells cs off new = Done cs' \<longleftrightarrow> off + length new \<le> length cs \<and> cs' = overwrite off new cs"
  by (auto simp: put_cells_def)

lemma c_string_cstring: "cstring s cs \<Longrightarrow> c_string cs = Done s"
proof -
  assume s: "cstring s cs"
  then have "take (length s) cs = map Some s"
    using cstring_length [OF s] by (simp add: cstring_def take_Suc_conv_app_nth)
  with strlen_cstring [OF s] show ?thesis by (simp add: c_string_def comp_def)
qed

section \<open>Helpers\<close>

text \<open>The offset of the first \<open>c\<close> or terminator.\<close>

fun ao_strchrnul :: "cell list \<Rightarrow> byte \<Rightarrow> nat outcome" where
  "ao_strchrnul [] c = Undef"
| "ao_strchrnul (None # cs) c = Undef"
| "ao_strchrnul (Some b # cs) c =
     (if b \<noteq> 0 \<and> b \<noteq> c then obind (ao_strchrnul cs c) (\<lambda>n. Done (Suc n)) else Done 0)"

fun ao_slash_len :: "cell list \<Rightarrow> nat outcome" where
  "ao_slash_len [] = Undef"
| "ao_slash_len (None # cs) = Undef"
| "ao_slash_len (Some b # cs) = (if b = 47 then obind (ao_slash_len cs) (\<lambda>n. Done (Suc n)) else Done 0)"

definition alphabet :: "byte list" where
  "alphabet = map of_nat ([65..<91] @ [97..<123] @ [48..<58])"

text \<open>The six characters, from a value mixed of the time and the thread identifier.\<close>

fun randname_loop :: "nat \<Rightarrow> nat \<Rightarrow> 64 word \<Rightarrow> byte list" where
  "randname_loop 0 i v = []"
| "randname_loop (Suc k) i v =
     alphabet ! unat (v mod 62)
     # randname_loop k (Suc i) (drop_bit 5 v XOR push_bit 11 v XOR of_nat (i * 97 + 13))"

definition ao_randname :: "64 word \<Rightarrow> 64 word \<Rightarrow> 64 word \<Rightarrow> cell list \<Rightarrow> nat \<Rightarrow> cell list outcome" where
  "ao_randname sec nsec tid buf off =
     put_cells buf off (map Some (randname_loop 6 0 (sec XOR nsec XOR (tid * 65537))))"

section \<open>The current directory\<close>

text \<open>The system call stores the path and its terminator when they fit and returns their length.\<close>

definition ERANGE :: errno where "ERANGE = EOTHER 34"

definition sys_getcwd :: "sys_path \<Rightarrow> nat \<Rightarrow> errno + byte list" where
  "sys_getcwd cwd n =
     (case cwd of Inl e \<Rightarrow> Inl e | Inr d \<Rightarrow> if length d + 1 \<le> n then Inr (d @ [0]) else Inl ERANGE)"

text \<open>What a function that fills a caller's buffer or allocates one returns.\<close>

datatype path_result = Failed | In_buffer | Allocated ptr

definition fresh_path :: "ptr \<Rightarrow> path_result" where
  "fresh_path p = (if p = NULL then Failed else Allocated p)"

text \<open>The part that \<open>getcwd\<close> does on its buffer, the caller's or its own: the outcome and the buffer.\<close>

definition getcwd_into :: "sys_path \<Rightarrow> cell list \<Rightarrow> nat \<Rightarrow> errno \<Rightarrow> (bool \<times> cell list \<times> errno) outcome" where
  "getcwd_into cwd buf n e =
     (case sys_getcwd cwd n of
        Inl err \<Rightarrow> Done (False, buf, err)
      | Inr bs \<Rightarrow>
          obind (put_cells buf 0 (map Some bs)) (\<lambda>buf.
          obind (if length bs = 0 then Done True else obind (read_at buf 0) (\<lambda>b. Done (b \<noteq> 47))) (\<lambda>bad.
            if bad then Done (False, buf, ENOENT) else Done (True, buf, e))))"

definition getcwd ::
  "'a malloc_fn \<Rightarrow> sys_path \<Rightarrow> cell list option \<Rightarrow> size_t \<Rightarrow> 'a libc_scheme
   \<Rightarrow> ((path_result \<times> cell list option) \<times> 'a libc_scheme) outcome" where
  "getcwd malloc cwd buf sz w =
     (case buf of
        None \<Rightarrow>
          obind (getcwd_into cwd (replicate PATH_MAX None) PATH_MAX (errno w)) (\<lambda>(good, stack_buf, e).
            if \<not> good then Done ((Failed, None), w\<lparr>errno := e\<rparr>)
            else obind (strdup malloc stack_buf w) (\<lambda>(p, w). Done ((fresh_path p, None), w)))
      | Some cells \<Rightarrow>
          if sz = 0 then Done ((Failed, Some cells), w\<lparr>errno := EINVAL\<rparr>)
          else obind (getcwd_into cwd cells (unat sz) (errno w)) (\<lambda>(good, cells, e).
            if \<not> good then Done ((Failed, Some cells), w\<lparr>errno := e\<rparr>)
            else Done ((In_buffer, Some cells), w)))"

text \<open>\<open>pwd\<close> is the value of the environment variable, \<open>stat\<close> gives device and inode of a path.\<close>

definition get_current_dir_name ::
  "'a malloc_fn \<Rightarrow> sys_path \<Rightarrow> byte list option \<Rightarrow> (byte list \<Rightarrow> (nat \<times> nat) option) \<Rightarrow> 'a libc_scheme
   \<Rightarrow> (path_result \<times> 'a libc_scheme) outcome" where
  "get_current_dir_name malloc cwd pwd stat w =
     (if pwd \<noteq> None \<and> the pwd \<noteq> [] \<and> stat (the pwd) \<noteq> None \<and> stat [46] \<noteq> None \<and> stat (the pwd) = stat [46]
      then obind (strdup malloc (map Some (the pwd @ [0])) w) (\<lambda>(p, w). Done (fresh_path p, w))
      else obind (getcwd malloc cwd None 0 w) (\<lambda>((r, _), w). Done (r, w)))"

section \<open>Temporary names\<close>

text \<open>
  One try per element of the list of times and thread identifiers; \<open>k\<close> counts the calls of \<open>readlink\<close>. Its
  result is wanted for the error only.
\<close>

fun tempnam_loop ::
  "'a malloc_fn \<Rightarrow> file_system \<Rightarrow> (nat \<Rightarrow> 64 word \<times> 64 word \<times> 64 word) \<Rightarrow> nat \<Rightarrow> nat \<Rightarrow> cell list \<Rightarrow> nat
   \<Rightarrow> 'a libc_scheme \<Rightarrow> (path_result \<times> 'a libc_scheme) outcome" where
  "tempnam_loop malloc fs clock 0 k path total_len w = Done (Failed, w)"
| "tempnam_loop malloc fs clock (Suc tries) k path total_len w =
     (case clock k of (sec, nsec, tid) \<Rightarrow>
        obind (ao_randname sec nsec tid path (size_sub total_len 6)) (\<lambda>path.
        obind (c_string path) (\<lambda>name.
          case fs k name of
            Inr _ \<Rightarrow> tempnam_loop malloc fs clock tries (Suc k) path total_len w
          | Inl e \<Rightarrow>
              let w = w\<lparr>errno := e\<rparr>
              in if e = ENOENT then obind (strdup malloc path w) (\<lambda>(p, w). Done (fresh_path p, w))
                 else tempnam_loop malloc fs clock tries (Suc k) path total_len w)))"

definition P_tmpdir :: "byte list" where "P_tmpdir = [47, 116, 109, 112]"

definition tempnam ::
  "'a malloc_fn \<Rightarrow> file_system \<Rightarrow> (nat \<Rightarrow> 64 word \<times> 64 word \<times> 64 word) \<Rightarrow> byte list option \<Rightarrow> byte list option
   \<Rightarrow> 'a libc_scheme \<Rightarrow> (path_result \<times> 'a libc_scheme) outcome" where
  "tempnam malloc fs clock dir pfx w =
     (let dir = (case dir of None \<Rightarrow> P_tmpdir | Some d \<Rightarrow> d);
          pfx = (case pfx of None \<Rightarrow> [116, 101, 109, 112] | Some x \<Rightarrow> x);
          dir_len = length dir; pfx_len = length pfx;
          total_len = dir_len + 1 + pfx_len + 1 + 6
      in if total_len \<ge> PATH_MAX then Done (Failed, w\<lparr>errno := ENAMETOOLONG\<rparr>)
         else obind (put_cells (replicate PATH_MAX None) 0 (map Some dir)) (\<lambda>path.
              obind (put_cells path dir_len [Some 47]) (\<lambda>path.
              obind (put_cells path (dir_len + 1) (map Some pfx)) (\<lambda>path.
              obind (put_cells path (dir_len + 1 + pfx_len) [Some 95]) (\<lambda>path.
              obind (put_cells path total_len [Some 0]) (\<lambda>path.
                tempnam_loop malloc fs clock MAXTRIES 0 path total_len w))))))"

section \<open>What the functions promise\<close>

lemma length_alphabet: "length alphabet = 62"
  by (simp add: alphabet_def)

lemma zero_not_alphabet: "0 \<notin> set alphabet"
proof -
  have "(of_nat n :: byte) \<noteq> 0" if "0 < n" "n < 256" for n
    using that by (metis less_not_refl take_bit_nat_eq_self_iff unat_0 unat_byte_of_nat mod_less)
  then show ?thesis by (auto simp: alphabet_def)
qed

lemma length_randname_loop: "length (randname_loop k i v) = k"
  by (induction k arbitrary: i v) simp_all

lemma set_randname_loop: "set (randname_loop k i v) \<subseteq> set alphabet"
proof (induction k arbitrary: i v)
  case (Suc k)
  have "unat (v mod 62) < 62" using word_mod_less_divisor [of 62 v] by (simp add: word_less_nat_alt)
  then have "alphabet ! unat (v mod 62) \<in> set alphabet" by (simp add: length_alphabet)
  with Suc show ?case by simp
qed simp

text \<open>The result of \<open>getcwd\<close> without a buffer.\<close>

definition getcwd_spec ::
  "('a libc_scheme \<Rightarrow> ptr \<Rightarrow> bool) \<Rightarrow> sys_path \<Rightarrow> 'a libc_scheme \<Rightarrow> path_result \<Rightarrow> 'a libc_scheme \<Rightarrow> bool" where
  "getcwd_spec owned cwd w r w' \<longleftrightarrow>
     (case cwd of
        Inl e \<Rightarrow> r = Failed \<and> blocks w' = blocks w \<and> owned w' = owned w \<and> errno w' = e
      | Inr d \<Rightarrow>
          if length d \<ge> PATH_MAX then r = Failed \<and> blocks w' = blocks w \<and> owned w' = owned w \<and> errno w' = ERANGE
          else if d = [] \<or> hd d \<noteq> 47 then r = Failed \<and> blocks w' = blocks w \<and> owned w' = owned w \<and> errno w' = ENOENT
          else \<exists>p. r = fresh_path p \<and> duplicated owned (map Some (d @ [0])) w p w')"

text \<open>A temporary name: directory, prefix and six characters of the alphabet.\<close>

definition temp_name :: "byte list \<Rightarrow> byte list \<Rightarrow> byte list \<Rightarrow> byte list" where
  "temp_name dir pfx six = dir @ [47] @ pfx @ [95] @ six"

definition tempnam_spec ::
  "('a libc_scheme \<Rightarrow> ptr \<Rightarrow> bool) \<Rightarrow> file_system \<Rightarrow> (byte list \<Rightarrow> byte list) \<Rightarrow> 'a libc_scheme \<Rightarrow> path_result
   \<Rightarrow> 'a libc_scheme \<Rightarrow> bool" where
  "tempnam_spec owned fs name w r w' \<longleftrightarrow>
     r = Failed \<and> blocks w' = blocks w \<and> owned w' = owned w
     \<or> (\<exists>p six k u. r = Allocated p \<and> p \<noteq> NULL \<and> length six = 6 \<and> set six \<subseteq> set alphabet \<and> k < MAXTRIES
          \<and> fs k (name six) = Inl ENOENT \<and> blocks u = blocks w \<and> owned u = owned w
          \<and> duplicated owned (map Some (name six @ [0])) u p w')"

text \<open>The array of \<open>tempnam\<close> before the last six characters are chosen.\<close>

definition name_array :: "byte list \<Rightarrow> cell list \<Rightarrow> bool" where
  "name_array prefix path \<longleftrightarrow> length path = PATH_MAX \<and> 0 \<notin> set prefix \<and> length prefix + 6 < PATH_MAX
     \<and> take (length prefix) path = map Some prefix \<and> path ! (length prefix + 6) = Some 0"

lemma name_array_put:
  assumes ok: "name_array prefix path" and six: "length six = 6" "0 \<notin> set six"
  shows "put_cells path (length prefix) (map Some six) = Done (overwrite (length prefix) (map Some six) path)"
    and "cstring (prefix @ six) (overwrite (length prefix) (map Some six) path)"
    and "name_array prefix (overwrite (length prefix) (map Some six) path)"
proof -
  let ?path = "overwrite (length prefix) (map Some six) path"
  have l: "length prefix + 6 < 4096" "length path = 4096" using ok by (simp_all add: name_array_def PATH_MAX_def)
  then show "put_cells path (length prefix) (map Some six) = Done ?path" using six by (simp add: put_cells_def)
  have t: "take (length prefix + 6) ?path = map Some (prefix @ six)"
    using take_overwrite_end [of "length prefix" path "map Some six"] l ok six by (simp add: name_array_def)
  have z: "?path ! (length prefix + 6) = Some 0"
    using l six ok by (simp add: nth_overwrite name_array_def)
  have "take (Suc (length prefix + 6)) ?path = map Some (prefix @ six) @ [Some 0]"
  proof -
    have "length prefix + 6 < length ?path" using l six by simp
    then show ?thesis by (simp only: take_Suc_conv_app_nth t z)
  qed
  then show "cstring (prefix @ six) ?path" using ok six by (simp add: cstring_def name_array_def)
  show "name_array prefix ?path"
    using ok z l six by (simp add: name_array_def take_overwrite_below)
qed

context c_allocator
begin

lemma getcwd_law:
  assumes inv: "inv w" and nz: "\<And>d. cwd = Inr d \<Longrightarrow> 0 \<notin> set d"
  shows "wp (room w = 0) (getcwd malloc cwd None sz w) (\<lambda>((r, _), w'). inv w' \<and> getcwd_spec owned cwd w r w')"
proof -
  have fail: "inv (w\<lparr>errno := e\<rparr>) \<and> owned (w\<lparr>errno := e\<rparr>) = owned w" for e using inv by (simp add: errno_laws)
  show ?thesis
  proof (cases cwd)
    case (Inl e)
    with fail show ?thesis by (simp add: getcwd_def getcwd_into_def sys_getcwd_def getcwd_spec_def)
  next
    case (Inr d)
    show ?thesis
    proof (cases "length d + 1 \<le> PATH_MAX")
      case False
      with Inr fail show ?thesis by (simp add: getcwd_def getcwd_into_def sys_getcwd_def getcwd_spec_def)
    next
      case True
      let ?buf = "overwrite 0 (map Some (d @ [0])) (replicate PATH_MAX None)"
      have put: "put_cells (replicate PATH_MAX None) 0 (map Some (d @ [0])) = Done ?buf" using True by (simp add: put_cells_def)
      have cs: "cstring d ?buf" using nz [OF Inr] True by (simp add: cstring_def overwrite_def)
      have rd: "read_at ?buf 0 = Done ((d @ [0]) ! 0)"
        using True by (intro read_at_Done) (simp_all add: nth_overwrite nth_append del: map_append)
      have h: "(d @ [0]) ! 0 = 47 \<longleftrightarrow> d \<noteq> [] \<and> hd d = 47" by (cases d) auto
      have eq: "getcwd_into cwd (replicate PATH_MAX None) PATH_MAX (errno w) =
          Done (if d \<noteq> [] \<and> hd d = 47 then (True, ?buf, errno w) else (False, ?buf, ENOENT))"
        using Inr True put rd h by (auto simp: getcwd_into_def sys_getcwd_def simp del: map_append)
      show ?thesis
      proof (cases "d \<noteq> [] \<and> hd d = 47")
        case False
        with eq Inr True fail show ?thesis by (simp add: getcwd_def getcwd_spec_def)
      next
        case abs: True
        have "length ?buf < 2 ^ 64" using True by (simp add: PATH_MAX_def)
        from strdup_law [OF inv cs this] show ?thesis
          unfolding getcwd_def option.case eq if_P [OF abs] obind.simps prod.case
          using Inr True abs by (auto simp: getcwd_spec_def elim!: wp_bindI)
      qed
    qed
  qed
qed

lemma tempnam_loop_law:
  assumes "inv w" "name_array prefix path" "k + tries \<le> MAXTRIES"
  shows "wp (room w = 0) (tempnam_loop malloc fs clock tries k path (length prefix + 6) w)
    (\<lambda>(r, w'). inv w' \<and> tempnam_spec owned fs (\<lambda>six. prefix @ six) w r w')"
  using assms
proof (induction tries arbitrary: k path w)
  case 0
  then show ?case by (simp add: tempnam_spec_def)
next
  case (Suc tries)
  obtain sec nsec tid where c: "clock k = (sec, nsec, tid)" by (cases "clock k")
  let ?six = "randname_loop 6 0 (sec XOR nsec XOR (tid * 65537))"
  let ?path = "overwrite (length prefix) (map Some ?six) path"
  have six: "length ?six = 6" "set ?six \<subseteq> set alphabet" "0 \<notin> set ?six"
    using length_randname_loop set_randname_loop zero_not_alphabet by blast+
  note put = name_array_put [OF Suc.prems(2) six(1,3)]
  have IH: "wp (room w = 0) (tempnam_loop malloc fs clock tries (Suc k) ?path (length prefix + 6) (w\<lparr>errno := e\<rparr>))
      (\<lambda>(r, w'). inv w' \<and> tempnam_spec owned fs (\<lambda>six. prefix @ six) w r w')" for e
    using Suc.IH [of "w\<lparr>errno := e\<rparr>" ?path "Suc k"] Suc.prems(1,3) put(3) by (simp add: errno_laws tempnam_spec_def)
  have same: "wp (room w = 0) (tempnam_loop malloc fs clock tries (Suc k) ?path (length prefix + 6) w)
      (\<lambda>(r, w'). inv w' \<and> tempnam_spec owned fs (\<lambda>six. prefix @ six) w r w')"
    using Suc.IH [of w ?path "Suc k"] Suc.prems(1,3) put(3) by simp
  have eq: "tempnam_loop malloc fs clock (Suc tries) k path (length prefix + 6) w =
      (case fs k (prefix @ ?six) of
         Inr _ \<Rightarrow> tempnam_loop malloc fs clock tries (Suc k) ?path (length prefix + 6) w
       | Inl e \<Rightarrow>
           let w = w\<lparr>errno := e\<rparr>
           in if e = ENOENT then obind (strdup malloc ?path w) (\<lambda>(p, w). Done (fresh_path p, w))
              else tempnam_loop malloc fs clock tries (Suc k) ?path (length prefix + 6) w)"
    using c put(1) c_string_cstring [OF put(2)] by (simp add: ao_randname_def)
  show ?case
  proof (cases "fs k (prefix @ ?six)")
    case (Inr x)
    with same show ?thesis unfolding eq by simp
  next
    case (Inl e)
    show ?thesis
    proof (cases "e = ENOENT")
      case False
      with Inl IH show ?thesis unfolding eq by (simp add: Let_def)
    next
      case True
      have "length ?path < 2 ^ 64" using put(3) by (simp add: name_array_def PATH_MAX_def)
      moreover have "inv (w\<lparr>errno := e\<rparr>)" using Suc.prems(1) by (simp add: errno_laws)
      ultimately have "wp (room (w\<lparr>errno := e\<rparr>) = 0) (strdup malloc ?path (w\<lparr>errno := e\<rparr>))
          (\<lambda>(p, w'). inv w' \<and> duplicated owned (map Some ((prefix @ ?six) @ [0])) (w\<lparr>errno := e\<rparr>) p w')"
        using put(2) by (intro strdup_law)
      then have "wp (room w = 0) (obind (strdup malloc ?path (w\<lparr>errno := e\<rparr>)) (\<lambda>(p, w). Done (fresh_path p, w)))
          (\<lambda>(r, w'). inv w' \<and> tempnam_spec owned fs (\<lambda>six. prefix @ six) w r w')"
      proof (rule wp_bindI, simp add: errno_laws, goal_cases)
        case (1 x)
        then obtain p w' where x: "x = (p, w')" "inv w'"
            "duplicated owned (map Some ((prefix @ ?six) @ [0])) (w\<lparr>errno := e\<rparr>) p w'"
          by (cases x) auto
        show ?case
        proof (cases "p = NULL")
          case True
          with x show ?thesis by (simp add: tempnam_spec_def fresh_path_def duplicated_def errno_laws)
        next
          case False
          have "k < MAXTRIES" using Suc.prems(3) by simp
          moreover have "fs k (prefix @ ?six) = Inl ENOENT" using Inl True by simp
          moreover have "blocks (w\<lparr>errno := e\<rparr>) = blocks w" "owned (w\<lparr>errno := e\<rparr>) = owned w" by (simp_all add: errno_laws)
          ultimately have "tempnam_spec owned fs (\<lambda>six. prefix @ six) w (Allocated p) w'"
            using x(3) False six(1,2) unfolding tempnam_spec_def by blast
          with x False show ?thesis by (simp add: fresh_path_def)
        qed
      qed
      with Inl True show ?thesis unfolding eq by (simp add: Let_def)
    qed
  qed
qed

lemma tempnam_law:
  assumes inv: "inv w" and dir: "d = (case dir of None \<Rightarrow> P_tmpdir | Some d \<Rightarrow> d)" "0 \<notin> set d"
    and pfx: "x = (case pfx of None \<Rightarrow> [116, 101, 109, 112] | Some x \<Rightarrow> x)" "0 \<notin> set x"
  shows "wp (room w = 0) (tempnam malloc fs clock dir pfx w)
    (\<lambda>(r, w'). inv w' \<and> tempnam_spec owned fs (temp_name d x) w r w')"
proof (cases "length d + 1 + length x + 1 + 6 \<ge> PATH_MAX")
  case True
  with inv show ?thesis
    unfolding tempnam_def dir(1) [symmetric] pfx(1) [symmetric] Let_def if_P [OF True]
    by (simp add: tempnam_spec_def errno_laws)
next
  case False
  let ?prefix = "d @ [47] @ x @ [95]"
  let ?a = "overwrite 0 (map Some d) (replicate PATH_MAX None)"
  let ?b = "overwrite (length d) [Some 47] ?a"
  let ?c = "overwrite (length d + 1) (map Some x) ?b"
  let ?d = "overwrite (length d + 1 + length x) [Some 95] ?c"
  let ?e = "overwrite (length d + 1 + length x + 1 + 6) [Some 0] ?d"
  have l: "length d + length x + 8 < 4096" using False by (simp add: PATH_MAX_def)
  have len: "length ?a = 4096" "length ?b = 4096" "length ?c = 4096" "length ?d = 4096" "length ?e = 4096"
    using l by (simp_all add: PATH_MAX_def)
  have tb: "take (length d + 1) ?b = map Some d @ [Some 47]"
    using take_overwrite_end [of "length d" ?a "[Some 47]"] take_overwrite_end [of 0 "replicate PATH_MAX None" "map Some d"] l len
    by simp
  have tc: "take (length d + 1 + length x) ?c = map Some d @ [Some 47] @ map Some x"
    using take_overwrite_end [of "length d + 1" ?b "map Some x"] tb l len by simp
  have td: "take (length d + 1 + length x + 1) ?d = map Some d @ [Some 47] @ map Some x @ [Some 95]"
    using take_overwrite_end [of "length d + 1 + length x" ?c "[Some 95]"] tc l len by simp
  have te: "take (length d + 1 + length x + 1) ?e = map Some ?prefix"
    using td l len by (simp add: take_overwrite_below)
  have "name_array ?prefix ?e"
    using te l len dir(2) pfx(2) by (simp add: name_array_def PATH_MAX_def nth_overwrite)
  moreover have tn: "temp_name d x = (\<lambda>six. ?prefix @ six)" by (simp add: temp_name_def fun_eq_iff)
  ultimately show ?thesis
    using tempnam_loop_law [OF inv, of ?prefix ?e 0 MAXTRIES]
    unfolding tn tempnam_def dir(1) [symmetric] pfx(1) [symmetric] Let_def if_not_P [OF False]
    using l len by (simp add: put_cells_def PATH_MAX_def)
qed

end

end
