(* ===== verification/Realpath.thy ===== *)
theory Realpath
  imports Path_Overrides
begin

text \<open>
  \<open>realpath\<close> of \<open>src/path_overrides.c\<close>. One round of its \<open>for\<close> loop is \<open>realpath_step\<close>, which goes on with a new
  state, leaves the loop, or fails with an error; the loop ends after at most 40 links.
\<close>

definition SYMLOOP_MAX :: nat where "SYMLOOP_MAX = 40"

record realpath_state =
  rp_stack :: "cell list"
  rp_output :: "cell list"
  rp_p :: nat
  rp_q :: nat
  rp_loop_count :: nat
  rp_pending_up :: nat
  rp_check_dir :: bool
  rp_calls :: nat
  rp_errno :: errno

datatype step_result = Again realpath_state | Leave realpath_state | Fail errno

section \<open>One round\<close>

text \<open>The increment of the loop.\<close>

definition next_round :: "realpath_state \<Rightarrow> step_result outcome" where
  "next_round s = obind (ao_slash_len (drop (rp_p s) (rp_stack s))) (\<lambda>n. Done (Again (s\<lparr>rp_p := rp_p s + n\<rparr>)))"

text \<open>A leading slash: the output starts again at the root.\<close>

definition root_step :: "realpath_state \<Rightarrow> step_result outcome" where
  "root_step s =
     (let p = rp_p s + 1
      in obind (put_cells (rp_output s) 0 [Some 47]) (\<lambda>output.
         obind (read_at (rp_stack s) p) (\<lambda>c1.
         obind (if c1 = 47 then obind (read_at (rp_stack s) (p + 1)) (\<lambda>c2. Done (c2 \<noteq> 47)) else Done False) (\<lambda>two.
         obind (if two then put_cells output 1 [Some 47] else Done output) (\<lambda>output.
           next_round (s\<lparr>rp_p := p, rp_q := (if two then 2 else 1), rp_output := output,
                         rp_check_dir := False, rp_pending_up := 0\<rparr>))))))"

text \<open>\<open>while (q && output[q - 1] != '/') --q;\<close>\<close>

fun pop_loop :: "cell list \<Rightarrow> nat \<Rightarrow> nat outcome" where
  "pop_loop output 0 = Done 0"
| "pop_loop output (Suc q) =
     obind (read_at output q) (\<lambda>b. if b \<noteq> 47 then pop_loop output q else Done (Suc q))"

definition pop_component :: "cell list \<Rightarrow> nat \<Rightarrow> nat outcome" where
  "pop_component output q =
     obind (pop_loop output q) (\<lambda>q.
       if q > 1 then obind (if q > 2 then Done True else obind (read_at output 0) (\<lambda>b. Done (b \<noteq> 47))) (\<lambda>drop_slash.
            Done (if drop_slash then q - 1 else q))
       else Done q)"

text \<open>From the label \<open>skip_readlink\<close> on.\<close>

definition skip_readlink :: "bool \<Rightarrow> nat \<Rightarrow> nat \<Rightarrow> realpath_state \<Rightarrow> step_result outcome" where
  "skip_readlink up component_size component_len s =
     (if up
      then obind (pop_component (rp_output s) (rp_q s)) (\<lambda>q. next_round (s\<lparr>rp_check_dir := False, rp_q := q\<rparr>))
      else obind (read_at (rp_stack s) (rp_p s)) (\<lambda>b.
             next_round (s\<lparr>rp_q := (if component_size \<noteq> 0 then rp_q s + component_len else rp_q s),
                           rp_check_dir := (b \<noteq> 0)\<rparr>)))"

text \<open>A link was read: its target goes before the rest of the path, without the increment of the loop.\<close>

definition follow_link :: "nat \<Rightarrow> realpath_state \<Rightarrow> step_result outcome" where
  "follow_link link_len s =
     (let s = s\<lparr>rp_loop_count := rp_loop_count s + 1\<rparr>
      in if rp_loop_count s = SYMLOOP_MAX then Done (Fail ELOOP)
         else obind (read_at (rp_stack s) (link_len - 1)) (\<lambda>last.
              obind (if last = 47 then ao_slash_len (drop (rp_p s) (rp_stack s)) else Done 0) (\<lambda>n.
              let p = size_sub (rp_p s + n) link_len
              in obind (read_cells (rp_stack s) 0 link_len) (\<lambda>target.
                 obind (put_cells (rp_stack s) p target) (\<lambda>stack.
                   Done (Again (s\<lparr>rp_p := p, rp_stack := stack\<rparr>)))))))"

text \<open>\<open>readlink\<close> stores what fits of the target; a buffer of size 0 is an error.\<close>

definition sys_readlink :: "file_system \<Rightarrow> nat \<Rightarrow> byte list \<Rightarrow> nat \<Rightarrow> sys_path" where
  "sys_readlink fs k path n =
     (if n = 0 then Inl EINVAL else case fs k path of Inl e \<Rightarrow> Inl e | Inr t \<Rightarrow> Inr (take n t))"

definition link_step :: "file_system \<Rightarrow> bool \<Rightarrow> nat \<Rightarrow> nat \<Rightarrow> realpath_state \<Rightarrow> step_result outcome" where
  "link_step fs up component_size component_len s =
     obind (c_string (rp_output s)) (\<lambda>path.
       let r = sys_readlink fs (rp_calls s) path (rp_p s); s = s\<lparr>rp_calls := rp_calls s + 1\<rparr>
       in case r of
            Inl e \<Rightarrow>
              if e \<noteq> EINVAL then Done (Fail e)
              else skip_readlink up component_size component_len (s\<lparr>rp_errno := e, rp_check_dir := False\<rparr>)
          | Inr t \<Rightarrow>
              obind (put_cells (rp_stack s) 0 (map Some t)) (\<lambda>stack.
                if length t = rp_p s then Done (Fail ENAMETOOLONG)
                else if length t = 0 then Done (Fail ENOENT)
                else follow_link (length t) (s\<lparr>rp_stack := stack\<rparr>)))"

text \<open>Appending the component of the given size, with a separator where the output needs one.\<close>

definition append_step :: "nat \<Rightarrow> bool \<Rightarrow> realpath_state \<Rightarrow> ((nat \<times> realpath_state) + errno) outcome" where
  "append_step component_size sep s =
     (if sep \<and> rp_p s = 0 then Done (Inr ENAMETOOLONG)
      else obind (if sep then put_cells (rp_stack s) (rp_p s - 1) [Some 47] else Done (rp_stack s)) (\<lambda>stack.
        let p = (if sep then rp_p s - 1 else rp_p s);
            component_len = (if sep then component_size + 1 else component_size)
        in if rp_q s + component_len \<ge> PATH_MAX then Done (Inr ENAMETOOLONG)
           else obind (read_cells stack p component_len) (\<lambda>new.
                obind (put_cells (rp_output s) (rp_q s) new) (\<lambda>output.
                obind (put_cells output (rp_q s + component_len) [Some 0]) (\<lambda>output.
                  Done (Inl (component_len, s\<lparr>rp_stack := stack, rp_output := output, rp_p := p + component_len\<rparr>)))))))"

definition is_up :: "nat \<Rightarrow> realpath_state \<Rightarrow> bool outcome" where
  "is_up component_size s =
     (if component_size = 2
      then obind (read_at (rp_stack s) (rp_p s - 2)) (\<lambda>a.
           if a = 46 then obind (read_at (rp_stack s) (rp_p s - 1)) (\<lambda>b. Done (b = 46)) else Done False)
      else Done False)"

definition component_step :: "file_system \<Rightarrow> nat \<Rightarrow> realpath_state \<Rightarrow> step_result outcome" where
  "component_step fs component_size s =
     obind (if rp_q s \<noteq> 0 then obind (read_at (rp_output s) (rp_q s - 1)) (\<lambda>b. Done (b \<noteq> 47)) else Done False) (\<lambda>sep.
     obind (append_step component_size sep s) (\<lambda>r. case r of
         Inr e \<Rightarrow> Done (Fail e)
       | Inl (component_len, s) \<Rightarrow>
           obind (is_up component_size s) (\<lambda>up.
             if up \<and> rp_q s \<le> 3 * rp_pending_up s
             then next_round (s\<lparr>rp_pending_up := rp_pending_up s + 1, rp_q := rp_q s + component_len\<rparr>)
             else if up \<and> \<not> rp_check_dir s
             then skip_readlink up component_size component_len (s\<lparr>rp_check_dir := False\<rparr>)
             else link_step fs up component_size component_len s)))"

definition realpath_step :: "file_system \<Rightarrow> realpath_state \<Rightarrow> step_result outcome" where
  "realpath_step fs s =
     obind (read_at (rp_stack s) (rp_p s)) (\<lambda>c.
       if c = 47 then root_step s
       else obind (ao_strchrnul (drop (rp_p s) (rp_stack s)) 47) (\<lambda>component_size.
         if component_size = 0 \<and> \<not> rp_check_dir s then Done (Leave s)
         else if component_size = 1 \<and> c = 46 then next_round (s\<lparr>rp_p := rp_p s + 1\<rparr>)
         else component_step fs component_size s))"

section \<open>The rounds make progress\<close>

text \<open>
  A round follows one more link, or moves the cursor on, or (for the check of a trailing slash) clears
  the flag with the cursor at the terminator.
\<close>

definition progress :: "(realpath_state \<times> realpath_state) set" where
  "progress = inv_image (less_than <*lex*> less_than <*lex*> less_than)
     (\<lambda>s. (SYMLOOP_MAX - rp_loop_count s, length (rp_stack s) - rp_p s, if rp_check_dir s then 1 else 0 :: nat))"

lemma wf_progress: "wf progress"
  by (simp add: progress_def wf_lex_prod)

section \<open>The state of the loop\<close>

text \<open>
  The output: no terminator and no double slash inside (but for \<open>//\<close> at the root), no slash at the end (but for the
  root), and for a relative path at least the \<open>n\<close> leading \<open>..\<close> that are kept, separated by slashes.
\<close>

definition output_ok :: "cell list \<Rightarrow> nat \<Rightarrow> nat \<Rightarrow> bool" where
  "output_ok out q n \<longleftrightarrow> q < 4096 \<and> (\<forall>i<q. \<exists>b. out ! i = Some b \<and> b \<noteq> 0)
     \<and> (0 < q \<and> out ! 0 = Some 47 \<longrightarrow> n = 0)
     \<and> (0 < q \<and> out ! (q - 1) = Some 47 \<longrightarrow> q \<le> 2 \<and> out ! 0 = Some 47)
     \<and> (\<forall>i<q. 2 \<le> i \<longrightarrow> out ! i = Some 47 \<longrightarrow> out ! (i - 1) \<noteq> Some 47)
     \<and> 3 * n \<le> q + 1 \<and> (\<forall>i<n. 3 * i + 2 < q \<longrightarrow> out ! (3 * i + 2) = Some 47)"

text \<open>The rest of the path at the end of the stack, up to its terminator.\<close>

definition stack_ok :: "cell list \<Rightarrow> nat \<Rightarrow> bool" where
  "stack_ok stack p \<longleftrightarrow> length stack = 4097 \<and> p \<le> 4096 \<and> (\<forall>i. p \<le> i \<longrightarrow> i \<le> 4096 \<longrightarrow> stack ! i \<noteq> None)
     \<and> stack ! 4096 = Some 0"

definition realpath_ok :: "realpath_state \<Rightarrow> bool" where
  "realpath_ok s \<longleftrightarrow> stack_ok (rp_stack s) (rp_p s) \<and> length (rp_output s) = 4096
     \<and> rp_loop_count s < SYMLOOP_MAX \<and> output_ok (rp_output s) (rp_q s) (rp_pending_up s)"

definition round_ok :: "realpath_state \<Rightarrow> step_result \<Rightarrow> bool" where
  "round_ok s r \<longleftrightarrow> (case r of Again s' \<Rightarrow> realpath_ok s' \<and> (s', s) \<in> progress | Leave s' \<Rightarrow> s' = s | Fail _ \<Rightarrow> True)"

lemma ao_slash_len_spec:
  "cs \<noteq> [] \<Longrightarrow> (\<And>i. i < length cs \<Longrightarrow> cs ! i \<noteq> None) \<Longrightarrow> last cs = Some 0 \<Longrightarrow>
   \<exists>n. ao_slash_len cs = Done n \<and> n < length cs"
proof (induction cs rule: ao_slash_len.induct)
  case (3 b cs)
  show ?case
  proof (cases "b = 47")
    case True
    then have "cs \<noteq> []" using "3.prems"(3) by auto
    moreover have "cs ! i \<noteq> None" if "i < length cs" for i using "3.prems"(2) [of "Suc i"] that by simp
    ultimately show ?thesis using "3.IH" [OF True] "3.prems"(3) True by fastforce
  qed simp
qed (use nth_Cons_0 in \<open>fastforce+\<close>)

lemma ao_strchrnul_spec:
  "cs \<noteq> [] \<Longrightarrow> (\<And>i. i < length cs \<Longrightarrow> cs ! i \<noteq> None) \<Longrightarrow> last cs = Some 0 \<Longrightarrow>
   \<exists>n. ao_strchrnul cs c = Done n \<and> n < length cs \<and> (\<forall>i<n. \<exists>b. cs ! i = Some b \<and> b \<noteq> 0 \<and> b \<noteq> c)
     \<and> (cs ! n = Some 0 \<or> cs ! n = Some c)"
proof (induction cs c rule: ao_strchrnul.induct)
  case (3 b cs c)
  show ?case
  proof (cases "b \<noteq> 0 \<and> b \<noteq> c")
    case True
    then have "cs \<noteq> []" using "3.prems"(3) by auto
    moreover have "cs ! i \<noteq> None" if "i < length cs" for i using "3.prems"(2) [of "Suc i"] that by simp
    ultimately obtain n where n: "ao_strchrnul cs c = Done n" "n < length cs"
        "\<forall>i<n. \<exists>b. cs ! i = Some b \<and> b \<noteq> 0 \<and> b \<noteq> c" "cs ! n = Some 0 \<or> cs ! n = Some c"
      using "3.IH" [OF True] "3.prems"(3) by auto
    have "\<exists>b'. (Some b # cs) ! i = Some b' \<and> b' \<noteq> 0 \<and> b' \<noteq> c" if "i < Suc n" for i
      using that n(3) True by (cases i) auto
    with n True show ?thesis by (intro exI [of _ "Suc n"]) auto
  qed auto
qed (use nth_Cons_0 in \<open>fastforce+\<close>)

text \<open>The rest of the stack satisfies the premises of both.\<close>

lemma stack_rest:
  assumes "stack_ok stack p"
  shows "drop p stack \<noteq> []" "i < length (drop p stack) \<Longrightarrow> drop p stack ! i \<noteq> None" "last (drop p stack) = Some 0"
    "length (drop p stack) = 4097 - p"
proof -
  have p: "p \<le> 4096" "length stack = 4097" "stack ! 4096 = Some 0" using assms by (simp_all add: stack_ok_def)
  then show "drop p stack \<noteq> []" "length (drop p stack) = 4097 - p" by simp_all
  show "i < length (drop p stack) \<Longrightarrow> drop p stack ! i \<noteq> None" using assms p by (simp add: stack_ok_def)
  show "last (drop p stack) = Some 0" using p by (simp add: last_conv_nth)
qed

lemma stack_ok_later: "stack_ok stack p \<Longrightarrow> p \<le> p' \<Longrightarrow> p' \<le> 4096 \<Longrightarrow> stack_ok stack p'"
  by (auto simp: stack_ok_def)

lemma stack_read:
  assumes "stack_ok stack p" "p \<le> i" "i \<le> 4096"
  obtains b where "stack ! i = Some b" "read_at stack i = Done b"
proof -
  have "stack ! i \<noteq> None" using assms by (simp add: stack_ok_def)
  then obtain b where "stack ! i = Some b" by blast
  with that [of b] assms show ?thesis by (simp add: stack_ok_def read_at_def)
qed

lemma slash_len_stack:
  assumes "stack_ok stack p"
  obtains n where "ao_slash_len (drop p stack) = Done n" "p + n \<le> 4096" "stack_ok stack (p + n)"
proof -
  obtain n where "ao_slash_len (drop p stack) = Done n" "n < length (drop p stack)"
    using ao_slash_len_spec [OF stack_rest(1-3) [OF assms]] by blast
  moreover from this(2) have "p + n \<le> 4096" using stack_rest(4) [OF assms] by linarith
  ultimately show ?thesis using that [of n] stack_ok_later [OF assms, of "p + n"] by simp
qed

text \<open>The increment of the loop after a change that made progress.\<close>

lemma next_round_law:
  assumes ok: "realpath_ok s'" "realpath_ok s" and lc: "rp_loop_count s' = rp_loop_count s"
    and pr: "rp_p s < rp_p s' \<or> rp_p s \<le> rp_p s' \<and> rp_check_dir s \<and> \<not> rp_check_dir s'"
  shows "wp False (next_round s') (round_ok s)"
proof -
  obtain n where n: "ao_slash_len (drop (rp_p s') (rp_stack s')) = Done n" "stack_ok (rp_stack s') (rp_p s' + n)"
    using slash_len_stack ok(1) by (metis realpath_ok_def)
  have len: "length (rp_stack s') = 4097" "length (rp_stack s) = 4097" "rp_p s' + n \<le> 4096"
    using ok n(2) by (simp_all add: realpath_ok_def stack_ok_def)
  have "(s'\<lparr>rp_p := rp_p s' + n\<rparr>, s) \<in> progress"
    using pr len by (auto simp: progress_def lc)
  with ok(1) n show ?thesis by (simp add: next_round_def round_ok_def realpath_ok_def)
qed

section \<open>The output\<close>

lemma output_ok_cong: "(\<And>i. i < q \<Longrightarrow> out' ! i = out ! i) \<Longrightarrow> output_ok out q n \<Longrightarrow> output_ok out' q n"
  unfolding output_ok_def by (auto; metis)

lemma output_ok_root:
  assumes "out ! 0 = Some 47" "q = 1 \<or> q = 2 \<and> out ! 1 = Some 47"
  shows "output_ok out q 0"
  using assms by (auto simp: output_ok_def less_2_cases_iff)

text \<open>Appending a component after \<open>k\<close> (0 or 1) separators.\<close>

definition appended :: "cell list \<Rightarrow> nat \<Rightarrow> bool \<Rightarrow> nat \<Rightarrow> cell list \<Rightarrow> bool" where
  "appended out q sep n out' \<longleftrightarrow> length out' = length out \<and> (\<forall>i<q. out' ! i = out ! i) \<and> (sep \<longrightarrow> out' ! q = Some 47)
     \<and> (\<forall>j<n. \<exists>b. out' ! (q + of_bool sep + j) = Some b \<and> b \<noteq> 0 \<and> b \<noteq> 47) \<and> out' ! (q + of_bool sep + n) = Some 0"

lemma appended_nth:
  assumes ap: "appended out q sep n out'" and i: "i < q + of_bool sep + n"
  obtains "i < q" "out' ! i = out ! i" | "i = q" "sep" "out' ! i = Some 47"
    | b where "q + of_bool sep \<le> i" "out' ! i = Some b" "b \<noteq> 0" "b \<noteq> 47"
proof -
  consider "i < q" | "i = q" "sep" | "q + of_bool sep \<le> i"
    by (cases "i < q"; cases "i = q"; cases sep) simp_all
  then show ?thesis
  proof cases
    case 3
    then have "i - (q + of_bool sep) < n" "q + of_bool sep + (i - (q + of_bool sep)) = i" using i by auto
    then show ?thesis using ap that(3) 3 unfolding appended_def by metis
  qed (use ap that in \<open>auto simp: appended_def\<close>)
qed

lemma output_ok_appended:
  assumes ok: "output_ok out q k" and ap: "appended out q sep n out'" and n: "0 < n"
    and sep: "sep \<longleftrightarrow> q \<noteq> 0 \<and> out ! (q - 1) \<noteq> Some 47" and lim: "q + of_bool sep + n < 4096"
    and k': "k' = k \<or> k' = Suc k \<and> n = 2 \<and> q \<le> 3 * k"
  shows "output_ok out' (q + of_bool sep + n) k'"
proof -
  let ?q = "q + of_bool sep + n"
  have nz: "\<exists>b. out' ! i = Some b \<and> b \<noteq> 0" if "i < ?q" for i
    using ap that by (cases rule: appended_nth) (use ok in \<open>auto simp: output_ok_def\<close>)
  have first: "k' = 0" if "out' ! 0 = Some 47"
  proof -
    have "0 < ?q" using n by simp
    from ap this have "0 < q \<and> out ! 0 = Some 47"
      by (cases rule: appended_nth) (use that sep n in auto)
    moreover from this have "k = 0" using ok by (simp add: output_ok_def)
    ultimately show ?thesis using k' by auto
  qed
  have last: "out' ! (?q - 1) \<noteq> Some 47"
  proof -
    have "?q - 1 < ?q" using n by simp
    from ap this show ?thesis by (cases rule: appended_nth) (use n in auto)
  qed
  have double: "out' ! (i - 1) \<noteq> Some 47" if i: "i < ?q" "2 \<le> i" "out' ! i = Some 47" for i
    using ap i(1)
  proof (cases rule: appended_nth)
    case 1
    then have "out' ! (i - 1) = out ! (i - 1)" using ap i(2) by (simp add: appended_def)
    with 1 ok i show ?thesis by (auto simp: output_ok_def)
  next
    case 2
    then have "out' ! (i - 1) = out ! (q - 1)" using ap i(2) by (simp add: appended_def)
    with 2 sep show ?thesis by simp
  qed (use i in auto)
  have q3: "3 * k \<le> q + 1" using ok by (simp add: output_ok_def)
  have s: "sep" if "0 < k" "0 < q"
    using ok that sep by (auto simp: output_ok_def)
  have q0: "0 < q" if "0 < k" using q3 that by simp
  have k3: "3 * k' \<le> ?q + 1"
    using k' q3 s q0 by (cases "k = 0") auto
  have sl: "out' ! (3 * i + 2) = Some 47" if i: "i < k'" "3 * i + 2 < ?q" for i
  proof (cases "3 * i + 2 < q")
    case True
    show ?thesis
    proof (cases "i < k")
      case True
      then show ?thesis using ok ap \<open>3 * i + 2 < q\<close> by (simp add: output_ok_def appended_def)
    next
      case False
      then have "3 * k + 2 < q" "q \<le> 3 * k" using i True k' by auto
      then show ?thesis by simp
    qed
  next
    case False
    have ik: "i < k"
    proof (rule ccontr)
      assume "\<not> i < k"
      then have "i = k" "n = 2" "q \<le> 3 * k" using i k' by auto
      moreover have "q \<noteq> 3 * k" if "0 < k"
      proof
        assume "q = 3 * k"
        moreover have "3 * (k - 1) + 2 = 3 * k - 1" using that by simp
        moreover have "3 * (k - 1) + 2 < q \<longrightarrow> out ! (3 * (k - 1) + 2) = Some 47"
          using ok that unfolding output_ok_def by simp
        ultimately have "out ! (q - 1) = Some 47" using that by simp
        then show False using s q0 sep that by auto
      qed
      ultimately show False using i(2) False q3 sep by (cases "k = 0") (auto simp: of_bool_def split: if_splits)
    qed
    then have "3 * i + 2 = q" using False q3 by simp
    moreover have "sep" using s q0 ik by simp
    ultimately show ?thesis using ap by (simp add: appended_def)
  qed
  show ?thesis
    unfolding output_ok_def using lim nz first last double k3 sl by auto
qed

text \<open>Removing the last component keeps the leading \<open>..\<close>.\<close>

lemma pop_loop_spec:
  "(\<And>i. i < q \<Longrightarrow> out ! i \<noteq> None) \<Longrightarrow> q \<le> length out \<Longrightarrow>
   \<exists>r. pop_loop out q = Done r \<and> r \<le> q \<and> (r = 0 \<or> out ! (r - 1) = Some 47)
     \<and> (\<forall>i<q. r \<le> i \<longrightarrow> out ! i \<noteq> Some 47)"
proof (induction q)
  case (Suc q)
  obtain b where b: "out ! q = Some b" using Suc.prems(1) [of q] by auto
  show ?case
  proof (cases "b = 47")
    case True
    with b Suc.prems(2) show ?thesis by (simp add: read_at_def)
  next
    case False
    with Suc obtain r where "pop_loop out q = Done r" "r \<le> q" "r = 0 \<or> out ! (r - 1) = Some 47"
        "\<forall>i<q. r \<le> i \<longrightarrow> out ! i \<noteq> Some 47" by fastforce
    with b False Suc.prems(2) show ?thesis by (auto simp: read_at_def less_Suc_eq)
  qed
qed simp

lemma pop_component_law:
  assumes ok: "output_ok out q k" and q: "3 * k < q" and len: "length out = 4096"
  shows "\<exists>q'. pop_component out q = Done q' \<and> output_ok out q' k"
proof -
  have nn: "i < q \<Longrightarrow> out ! i \<noteq> None" for i using ok by (auto simp: output_ok_def)
  have "q \<le> length out" using ok len by (simp add: output_ok_def)
  then obtain r where r: "pop_loop out q = Done r" "r \<le> q" "r = 0 \<or> out ! (r - 1) = Some 47"
      "\<forall>i<q. r \<le> i \<longrightarrow> out ! i \<noteq> Some 47"
    using pop_loop_spec [of q out] nn by blast
  have keep: "3 * k \<le> r"
  proof (cases "k = 0")
    case False
    then have "3 * (k - 1) + 2 = 3 * k - 1" "3 * k - 1 < q" using q by simp_all
    then have "out ! (3 * k - 1) = Some 47" using ok False unfolding output_ok_def by (metis diff_less gr0I zero_less_one)
    with r(4) \<open>3 * k - 1 < q\<close> have "\<not> r \<le> 3 * k - 1" by blast
    then show ?thesis by simp
  qed simp
  have shorter: "output_ok out q' k" if "q' \<le> q" "3 * k \<le> q' + 1" "0 < q' \<Longrightarrow> out ! (q' - 1) = Some 47 \<Longrightarrow> q' \<le> 2 \<and> out ! 0 = Some 47" for q'
    using ok that unfolding output_ok_def by auto
  show ?thesis
  proof (cases "r > 1")
    case False
    then have "output_ok out r k" using r keep by (intro shorter) (auto simp: not_less le_Suc_eq)
    with False r(1) show ?thesis by (simp add: pop_component_def)
  next
    case True
    obtain b where b: "out ! 0 = Some b" using nn [of 0] q by auto
    have eq: "pop_component out q = Done (if r > 2 \<or> b \<noteq> 47 then r - 1 else r)"
      using r(1) True b len by (simp add: pop_component_def read_at_def)
    show ?thesis
    proof (cases "r > 2 \<or> b \<noteq> 47")
      case False
      with True b r keep have "output_ok out r k" by (intro shorter) auto
      with False eq show ?thesis by simp
    next
      case dr: True
      have "out ! (r - 1 - 1) \<noteq> Some 47"
      proof (cases "r > 2")
        case True
        then have "r - 1 < q" "2 \<le> r - 1" "out ! (r - 1) = Some 47" using r by auto
        then show ?thesis using ok unfolding output_ok_def by blast
      next
        case False
        with \<open>r > 1\<close> have "r - 1 - 1 = 0" by simp
        with False dr b show ?thesis by simp
      qed
      with r keep have "output_ok out (r - 1) k" by (intro shorter) auto
      with dr eq show ?thesis by simp
    qed
  qed
qed

section \<open>Each round keeps the state\<close>

lemma root_step_law:
  assumes ok: "realpath_ok s" and c: "rp_stack s ! rp_p s = Some 47"
  shows "wp False (root_step s) (round_ok s)"
proof -
  have st: "stack_ok (rp_stack s) (rp_p s)" and len: "length (rp_output s) = 4096" using ok by (simp_all add: realpath_ok_def)
  have p: "rp_p s < 4096" using st c by (cases "rp_p s = 4096") (auto simp: stack_ok_def)
  obtain c1 where c1: "rp_stack s ! (rp_p s + 1) = Some c1" and r1: "read_at (rp_stack s) (rp_p s + 1) = Done c1"
    using stack_read [OF st, of "rp_p s + 1"] p by auto
  have "\<exists>two. (if c1 = 47 then obind (read_at (rp_stack s) (rp_p s + 1 + 1)) (\<lambda>c2. Done (c2 \<noteq> 47)) else Done False) = Done two"
  proof (cases "c1 = 47")
    case True
    then have "rp_p s + 1 < 4096" using st c1 p by (cases "rp_p s + 1 = 4096") (auto simp: stack_ok_def)
    then obtain c2 where "read_at (rp_stack s) (rp_p s + 1 + 1) = Done c2"
      using stack_read [OF st, of "rp_p s + 1 + 1"] by auto
    then show ?thesis using True by simp
  next
    case False
    then show ?thesis by (intro exI [of _ False]) simp
  qed
  then obtain two where two: "(if c1 = 47 then obind (read_at (rp_stack s) (rp_p s + 1 + 1)) (\<lambda>c2. Done (c2 \<noteq> 47))
      else Done False) = Done two" by blast
  let ?out = "if two then overwrite 1 [Some 47] (overwrite 0 [Some 47] (rp_output s)) else overwrite 0 [Some 47] (rp_output s)"
  let ?s = "s\<lparr>rp_p := rp_p s + 1, rp_q := (if two then 2 else 1), rp_output := ?out, rp_check_dir := False, rp_pending_up := 0\<rparr>"
  have eq: "root_step s = next_round ?s"
    using len two r1 unfolding root_step_def Let_def
    by (simp add: put_cells_def del: One_nat_def cong: if_cong)
  have "output_ok ?out (if two then 2 else 1) 0"
    using len by (intro output_ok_root) (auto simp: nth_overwrite)
  then have "realpath_ok ?s" using ok len p stack_ok_later [OF st, of "rp_p s + 1"] by (simp add: realpath_ok_def)
  then show ?thesis unfolding eq by (rule next_round_law [OF _ ok]) simp_all
qed

lemma append_step_law:
  assumes ok: "realpath_ok s" and n: "rp_p s + n \<le> 4096" "0 < n \<or> rp_stack s ! rp_p s = Some 0"
    and comp: "\<And>j. j < n \<Longrightarrow> \<exists>b. rp_stack s ! (rp_p s + j) = Some b \<and> b \<noteq> 0 \<and> b \<noteq> 47"
  shows "wp False (append_step n sep s) (\<lambda>r. case r of Inr e \<Rightarrow> True
    | Inl (len, s') \<Rightarrow> len = of_bool sep + n \<and> rp_q s + len < 4096
        \<and> s' = s\<lparr>rp_stack := rp_stack s', rp_output := rp_output s', rp_p := rp_p s + n\<rparr>
        \<and> length (rp_stack s') = 4097 \<and> (\<forall>i. rp_p s \<le> i \<longrightarrow> rp_stack s' ! i = rp_stack s ! i)
        \<and> appended (rp_output s) (rp_q s) sep n (rp_output s'))"
proof (cases "sep \<and> rp_p s = 0")
  case True
  then show ?thesis by (simp add: append_step_def)
next
  case False
  have st: "length (rp_stack s) = 4097" "rp_p s \<le> 4096" and len: "length (rp_output s) = 4096"
    using ok by (simp_all add: realpath_ok_def stack_ok_def)
  define stack where "stack = (if sep then overwrite (rp_p s - 1) [Some 47] (rp_stack s) else rp_stack s)"
  have stk: "(if sep then put_cells (rp_stack s) (rp_p s - 1) [Some 47] else Done (rp_stack s)) = Done stack"
    using st False by (simp add: put_cells_def stack_def)
  have sl: "length stack = 4097" using st False by (simp add: stack_def)
  have keep: "stack ! i = rp_stack s ! i" if "rp_p s \<le> i" for i
  proof (cases "i < 4097")
    case True
    then show ?thesis using st False that by (auto simp: stack_def nth_overwrite)
  next
    case False
    then show ?thesis using st \<open>\<not> (sep \<and> rp_p s = 0)\<close>
      by (auto simp: stack_def overwrite_def nth_append nth_Cons' min_def)
  qed
  have sep47: "sep \<Longrightarrow> stack ! (rp_p s - 1) = Some 47" using st False by (simp add: stack_def nth_overwrite)
  let ?p = "if sep then rp_p s - 1 else rp_p s" and ?len = "of_bool sep + n"
  have l: "(if sep then n + 1 else n) = ?len" by simp
  show ?thesis
  proof (cases "rp_q s + ?len < 4096")
    case lim: False
    with False show ?thesis unfolding append_step_def stk l by (simp add: Let_def PATH_MAX_def)
  next
    case lim: True
    let ?new = "take ?len (drop ?p stack)"
    let ?out = "overwrite (rp_q s + ?len) [Some 0] (overwrite (rp_q s) ?new (rp_output s))"
    have pl: "?p + ?len \<le> 4097" "?p + ?len = rp_p s + n" using n(1) False by auto
    have nl: "length ?new = ?len" using sl pl by simp
    have eq: "append_step n sep s = Done (Inl (?len, s\<lparr>rp_stack := stack, rp_output := ?out, rp_p := ?p + ?len\<rparr>))"
      using False lim pl sl nl len
      unfolding append_step_def stk l by (simp add: Let_def PATH_MAX_def read_cells_def put_cells_def)
    have nth: "?out ! i = (if i < rp_q s then rp_output s ! i else if i = rp_q s + ?len then Some 0 else stack ! (?p + (i - rp_q s)))"
      if "i \<le> rp_q s + ?len" for i
      using that lim len nl sl pl by (simp add: nth_overwrite)
    have "appended (rp_output s) (rp_q s) sep n ?out"
    proof -
      have "?out ! (rp_q s) = Some 47" if "sep" using nth [of "rp_q s"] sep47 that by simp
      moreover have "?out ! (rp_q s + of_bool sep + j) = rp_stack s ! (rp_p s + j)" if "j < n" for j
      proof -
        have "?p + (rp_q s + of_bool sep + j - rp_q s) = rp_p s + j" using False by (cases sep) auto
        then have "?out ! (rp_q s + of_bool sep + j) = stack ! (rp_p s + j)"
          using nth [of "rp_q s + of_bool sep + j"] that by (simp only:) simp
        then show ?thesis using keep [of "rp_p s + j"] by simp
      qed
      moreover have "?out ! (rp_q s + of_bool sep + n) = Some 0" using nth [of "rp_q s + ?len"] by (simp add: add.assoc)
      moreover have "length ?out = length (rp_output s)" using len lim nl by simp
      moreover have "?out ! i = rp_output s ! i" if "i < rp_q s" for i using nth [of i] that by simp
      ultimately show ?thesis using comp unfolding appended_def by simp
    qed
    with eq keep sl lim pl show ?thesis by simp
  qed
qed

text \<open>After a component was appended, without a link.\<close>

lemma skip_readlink_law:
  assumes ok: "realpath_ok s" "realpath_ok s0"
    and out: "rp_q s + len < 4096" "up \<Longrightarrow> 3 * rp_pending_up s < rp_q s"
      "0 < n \<Longrightarrow> output_ok (rp_output s) (rp_q s + len) (rp_pending_up s)"
    and same: "rp_loop_count s = rp_loop_count s0" "rp_p s = rp_p s0 + n" "up \<Longrightarrow> 0 < n"
    and zero: "n = 0 \<Longrightarrow> rp_stack s ! rp_p s = Some 0 \<and> rp_check_dir s0"
  shows "wp False (skip_readlink up n len s) (round_ok s0)"
proof (cases up)
  case True
  have "length (rp_output s) = 4096" "output_ok (rp_output s) (rp_q s) (rp_pending_up s)" using ok(1) by (simp_all add: realpath_ok_def)
  then obtain q' where q': "pop_component (rp_output s) (rp_q s) = Done q'" "output_ok (rp_output s) q' (rp_pending_up s)"
    using pop_component_law out(2) [OF True] by blast
  then have "realpath_ok (s\<lparr>rp_check_dir := False, rp_q := q'\<rparr>)" using ok(1) by (simp add: realpath_ok_def)
  then show ?thesis
    using True q' same unfolding skip_readlink_def by (simp add: next_round_law [OF _ ok(2)])
next
  case False
  have st: "stack_ok (rp_stack s) (rp_p s)" "rp_p s \<le> 4096" using ok(1) by (auto simp: realpath_ok_def stack_ok_def)
  then obtain b where b: "rp_stack s ! rp_p s = Some b" "read_at (rp_stack s) (rp_p s) = Done b"
    using stack_read [OF st(1) order_refl st(2)] by blast
  let ?s = "s\<lparr>rp_q := (if n \<noteq> 0 then rp_q s + len else rp_q s), rp_check_dir := b \<noteq> 0\<rparr>"
  have "realpath_ok ?s" using ok(1) out(3) by (simp add: realpath_ok_def)
  then have "wp False (next_round ?s) (round_ok s0)"
    by (rule next_round_law [OF _ ok(2)]) (use same zero b in auto)
  with False b show ?thesis by (simp add: skip_readlink_def)
qed

text \<open>A link: one more is counted, and the rest of the path grows to the front.\<close>

lemma follow_link_law:
  assumes ok: "stack_ok (rp_stack s) (rp_p s)" "length (rp_output s) = 4096"
      "output_ok (rp_output s) (rp_q s) (rp_pending_up s)" "rp_loop_count s < SYMLOOP_MAX"
    and t: "0 < n" "n < rp_p s" "\<And>i. i < n \<Longrightarrow> rp_stack s ! i \<noteq> None"
    and same: "rp_loop_count s = rp_loop_count s0"
  shows "wp False (follow_link n s) (round_ok s0)"
proof (cases "rp_loop_count s + 1 = SYMLOOP_MAX")
  case True
  then show ?thesis by (simp add: follow_link_def round_ok_def)
next
  case False
  have sl: "length (rp_stack s) = 4097" "rp_p s \<le> 4096" using ok(1) by (simp_all add: stack_ok_def)
  obtain b where "rp_stack s ! (n - 1) = Some b" using t(3) [of "n - 1"] t(1) by auto
  then have b: "read_at (rp_stack s) (n - 1) = Done b" using sl t by (intro read_at_Done) auto
  obtain k where k: "(if b = 47 then ao_slash_len (drop (rp_p s) (rp_stack s)) else Done 0) = Done k" "rp_p s + k \<le> 4096"
  proof (cases "b = 47")
    case True
    then show ?thesis using slash_len_stack [OF ok(1)] that by metis
  next
    case False
    then show ?thesis using that [of 0] sl by simp
  qed
  let ?p = "rp_p s + k - n" and ?t = "take n (rp_stack s)"
  let ?stack = "overwrite ?p ?t (rp_stack s)"
  have p: "n \<le> rp_p s + k" "?p + n = rp_p s + k" using t by simp_all
  have tl: "length ?t = n" using t sl by simp
  have nth: "?stack ! i = (if ?p \<le> i \<and> i < rp_p s + k then rp_stack s ! (i - ?p) else rp_stack s ! i)" if "i \<le> 4096" for i
  proof -
    have "i - ?p < n" if "i < rp_p s + k" using that t by linarith
    then show ?thesis using that sl k(2) tl p by (simp add: nth_overwrite)
  qed
  have len: "length ?stack = 4097" using sl k(2) tl p by simp
  have "stack_ok ?stack ?p"
    unfolding stack_ok_def
  proof (intro conjI allI impI)
    fix i assume i: "?p \<le> i" "i \<le> 4096"
    show "?stack ! i \<noteq> None"
      using i t(3) [of "i - ?p"] p ok(1) unfolding nth [OF i(2)] by (auto simp: stack_ok_def)
  next
    show "?stack ! 4096 = Some 0" using nth [of 4096] k(2) ok(1) by (simp add: stack_ok_def)
  qed (use len k(2) in auto)
  moreover have "follow_link n s = Done (Again (s\<lparr>rp_loop_count := rp_loop_count s + 1, rp_p := ?p, rp_stack := ?stack\<rparr>))"
    using False b k sl t tl p unfolding follow_link_def Let_def
    by (cases "b = 47") (simp_all add: read_cells_def put_cells_def)
  moreover have "(s\<lparr>rp_loop_count := rp_loop_count s + 1, rp_p := ?p, rp_stack := ?stack\<rparr>, s0) \<in> progress"
    using ok(4) same by (auto simp: progress_def)
  ultimately show ?thesis
    using ok(2-4) False by (simp add: round_ok_def realpath_ok_def)
qed

text \<open>The path of the output is a C string.\<close>

lemma c_string_defined:
  "(\<And>i. i < n \<Longrightarrow> cs ! i \<noteq> None) \<Longrightarrow> cs ! n = Some 0 \<Longrightarrow> n < length cs \<Longrightarrow> \<exists>path. c_string cs = Done path"
proof -
  have "\<exists>k. strlen cs = Done k"
    if "\<And>i. i < n \<Longrightarrow> cs ! i \<noteq> None" "cs ! n = Some 0" "n < length cs" for n cs
    using that
  proof (induction cs arbitrary: n rule: strlen.induct)
    case (2 cs)
    then show ?case by (cases n) (use 2(1) [of 0] in auto)
  next
    case (3 b cs)
    show ?case
    proof (cases "b = 0")
      case False
      then obtain m where m: "n = Suc m" using "3.prems"(2) by (cases n) auto
      have "cs ! i \<noteq> None" if "i < m" for i using "3.prems"(1) [of "Suc i"] that m by simp
      with "3.IH" [OF False, of m] "3.prems" m False show ?thesis by auto
    qed simp
  qed simp
  then show "(\<And>i. i < n \<Longrightarrow> cs ! i \<noteq> None) \<Longrightarrow> cs ! n = Some 0 \<Longrightarrow> n < length cs \<Longrightarrow> \<exists>path. c_string cs = Done path"
    unfolding c_string_def by (metis obind.simps(1))
qed

lemma link_step_law:
  assumes ok: "realpath_ok s" "realpath_ok s0"
    and out: "rp_q s + len < 4096" "up \<Longrightarrow> 3 * rp_pending_up s < rp_q s"
      "0 < n \<Longrightarrow> output_ok (rp_output s) (rp_q s + len) (rp_pending_up s)"
    and str: "\<And>i. i < rp_q s + len \<Longrightarrow> rp_output s ! i \<noteq> None" "rp_output s ! (rp_q s + len) = Some 0"
    and same: "rp_loop_count s = rp_loop_count s0" "rp_p s = rp_p s0 + n" "up \<Longrightarrow> 0 < n"
    and zero: "n = 0 \<Longrightarrow> rp_stack s ! rp_p s = Some 0 \<and> rp_check_dir s0"
  shows "wp False (link_step fs up n len s) (round_ok s0)"
proof -
  have st: "stack_ok (rp_stack s) (rp_p s)" "length (rp_stack s) = 4097" "rp_p s \<le> 4096" "length (rp_output s) = 4096"
    using ok(1) by (auto simp: realpath_ok_def stack_ok_def)
  obtain path where path: "c_string (rp_output s) = Done path"
    using c_string_defined [OF str] out(1) st(4) by metis
  show ?thesis
  proof (cases "sys_readlink fs (rp_calls s) path (rp_p s)")
    case (Inl e)
    let ?s = "s\<lparr>rp_calls := rp_calls s + 1, rp_errno := e, rp_check_dir := False\<rparr>"
    have "realpath_ok ?s" using ok(1) by (simp add: realpath_ok_def)
    then have "wp False (skip_readlink up n len ?s) (round_ok s0)"
      by (rule skip_readlink_law [OF _ ok(2)]) (use out same zero in simp_all)
    with Inl path show ?thesis by (cases "e = EINVAL") (simp_all add: link_step_def Let_def round_ok_def)
  next
    case (Inr t)
    then have tl: "length t \<le> rp_p s" by (auto simp: sys_readlink_def split: if_splits sum.splits)
    let ?stack = "overwrite 0 (map Some t) (rp_stack s)"
    have put: "put_cells (rp_stack s) 0 (map Some t) = Done ?stack" using tl st by (simp add: put_cells_def)
    have nth: "?stack ! i = (if i < length t then Some (t ! i) else rp_stack s ! i)" if "i \<le> 4096" for i
      using that tl st by (simp add: nth_overwrite)
    have sl: "length ?stack = 4097" using tl st by simp
    have sk: "stack_ok ?stack (rp_p s)"
      unfolding stack_ok_def
    proof (intro conjI allI impI)
      fix i assume "rp_p s \<le> i" "i \<le> 4096"
      then show "?stack ! i \<noteq> None" using st(1) tl nth [of i] by (auto simp: stack_ok_def)
    qed (use sl st tl nth [of 4096] in \<open>auto simp: stack_ok_def\<close>)
    show ?thesis
    proof (cases "length t = rp_p s \<or> length t = 0")
      case True
      with path Inr put show ?thesis by (auto simp: link_step_def Let_def round_ok_def)
    next
      case False
      let ?s = "s\<lparr>rp_calls := rp_calls s + 1, rp_stack := ?stack\<rparr>"
      have "wp False (follow_link (length t) ?s) (round_ok s0)"
        using ok(1) sk False tl nth st same by (intro follow_link_law) (simp_all add: realpath_ok_def)
      with False path Inr put show ?thesis by (simp add: link_step_def Let_def)
    qed
  qed
qed

lemma component_step_law:
  assumes ok: "realpath_ok s" and n: "rp_p s + n \<le> 4096" "0 < n \<or> rp_stack s ! rp_p s = Some 0 \<and> rp_check_dir s"
    and comp: "\<And>j. j < n \<Longrightarrow> \<exists>b. rp_stack s ! (rp_p s + j) = Some b \<and> b \<noteq> 0 \<and> b \<noteq> 47"
  shows "wp False (component_step fs n s) (round_ok s)"
proof -
  let ?q = "rp_q s" and ?k = "rp_pending_up s"
  have out: "output_ok (rp_output s) ?q ?k" "length (rp_output s) = 4096" using ok by (simp_all add: realpath_ok_def)
  define sep where "sep \<longleftrightarrow> ?q \<noteq> 0 \<and> rp_output s ! (?q - 1) \<noteq> Some 47"
  have sep: "(if ?q \<noteq> 0 then obind (read_at (rp_output s) (?q - 1)) (\<lambda>b. Done (b \<noteq> 47)) else Done False) = Done sep"
  proof (cases "?q = 0")
    case False
    then have "?q - 1 < ?q" by simp
    then obtain b where "rp_output s ! (?q - 1) = Some b" "?q - 1 < 4096" using out(1) unfolding output_ok_def by fastforce
    with False out(2) show ?thesis by (simp add: read_at_def sep_def)
  qed (simp add: sep_def)
  show ?thesis
    unfolding component_step_def sep obind.simps
  proof (rule wp_bindI [OF append_step_law [OF ok n(1) _ comp]], goal_cases)
    case (4 r)
    show ?case
    proof (cases r)
      case (Inr e)
      then show ?thesis by (simp add: round_ok_def)
    next
      case (Inl x)
      obtain len s1 where x: "x = (len, s1)" by (cases x)
      with 4 Inl have len: "len = of_bool sep + n" "?q + len < 4096"
        and s1: "s1 = s\<lparr>rp_stack := rp_stack s1, rp_output := rp_output s1, rp_p := rp_p s + n\<rparr>"
          "length (rp_stack s1) = 4097" "\<And>i. rp_p s \<le> i \<Longrightarrow> rp_stack s1 ! i = rp_stack s ! i"
          "appended (rp_output s) ?q sep n (rp_output s1)"
        by auto
      have f: "rp_q s1 = ?q" "rp_pending_up s1 = ?k" "rp_check_dir s1 = rp_check_dir s" "rp_loop_count s1 = rp_loop_count s"
          "rp_p s1 = rp_p s + n"
        by (subst s1(1), simp)+
      have st: "stack_ok (rp_stack s1) (rp_p s1)"
        using ok s1(2,3) n(1) f(5) by (simp add: realpath_ok_def stack_ok_def)
      have app: "output_ok (rp_output s1) (?q + len) k'"
        if "0 < n" "k' = ?k \<or> k' = Suc ?k \<and> n = 2 \<and> ?q \<le> 3 * ?k" for k'
        using output_ok_appended [OF out(1) s1(4) that(1) sep_def _ that(2)] len by (simp add: add.assoc)
      have ok1: "realpath_ok s1"
        using ok st f s1(4) out output_ok_cong [of ?q "rp_output s1" "rp_output s" ?k]
        by (simp add: realpath_ok_def appended_def)
      have str: "rp_output s1 ! i \<noteq> None" if "i < ?q + len" for i
      proof -
        have "i < ?q + of_bool sep + n" using that len by simp
        with s1(4) show ?thesis by (cases rule: appended_nth) (use out(1) in \<open>auto simp: output_ok_def\<close>)
      qed
      have end0: "rp_output s1 ! (?q + len) = Some 0" using s1(4) len by (simp add: appended_def add.assoc)
      obtain up where up: "is_up n s1 = Done up" "up \<Longrightarrow> n = 2"
      proof (cases "n = 2")
        case True
        have "read_at (rp_stack s1) (rp_p s + j) \<noteq> Undef \<and> (\<exists>b. read_at (rp_stack s1) (rp_p s + j) = Done b)" if j: "j < n" for j
        proof -
          obtain b where "rp_stack s1 ! (rp_p s + j) = Some b" using comp [OF j] s1(3) by auto
          then show ?thesis using s1(2) n(1) j by (simp add: read_at_def)
        qed
        from this [of 0] this [of 1] True obtain a b
          where "read_at (rp_stack s1) (rp_p s1 - 2) = Done a" "read_at (rp_stack s1) (rp_p s1 - 1) = Done b"
          by (auto simp: f(5))
        with True that show ?thesis by (cases "a = 46") (auto simp: is_up_def)
      next
        case False
        with that [of False] show ?thesis by (simp add: is_up_def)
      qed
      have zero: "n = 0 \<Longrightarrow> rp_stack s1 ! rp_p s1 = Some 0 \<and> rp_check_dir s" using n(2) s1(3) [of "rp_p s1"] f(5) by auto
      consider "up" "?q \<le> 3 * ?k" | "up" "3 * ?k < ?q" "\<not> rp_check_dir s" | "\<not> up \<or> 3 * ?k < ?q" "\<not> up \<or> rp_check_dir s"
        by linarith
      then have "wp False (if up \<and> ?q \<le> 3 * ?k
             then next_round (s1\<lparr>rp_pending_up := ?k + 1, rp_q := ?q + len\<rparr>)
             else if up \<and> \<not> rp_check_dir s then skip_readlink up n len (s1\<lparr>rp_check_dir := False\<rparr>)
             else link_step fs up n len s1) (round_ok s)"
      proof cases
        case 1
        then have "realpath_ok (s1\<lparr>rp_pending_up := ?k + 1, rp_q := ?q + len\<rparr>)"
          using ok1 app [of "Suc ?k"] up(2) by (simp add: realpath_ok_def)
        then show ?thesis using 1 up(2) f by (simp add: next_round_law [OF _ ok])
      next
        case 2
        have "realpath_ok (s1\<lparr>rp_check_dir := False\<rparr>)" using ok1 by (simp add: realpath_ok_def)
        then have "wp False (skip_readlink up n len (s1\<lparr>rp_check_dir := False\<rparr>)) (round_ok s)"
          by (rule skip_readlink_law [OF _ ok]) (use 2 up(2) f len(2) app [of ?k] in auto)
        with 2 show ?thesis by simp
      next
        case 3
        have "wp False (link_step fs up n len s1) (round_ok s)"
          by (rule link_step_law [OF ok1 ok]) (use 3 up(2) f len(2) app [of ?k] str end0 zero in auto)
        with 3 show ?thesis by auto
      qed
      then show ?thesis unfolding Inl x sum.case prod.case up(1) obind.simps f .
    qed
  qed (use n sep_def in auto)
qed

text \<open>Every round is defined, keeps the state and makes progress.\<close>

lemma realpath_step_law:
  assumes ok: "realpath_ok s"
  shows "wp False (realpath_step fs s) (round_ok s)"
proof -
  have st: "stack_ok (rp_stack s) (rp_p s)" "rp_p s \<le> 4096" using ok by (auto simp: realpath_ok_def stack_ok_def)
  obtain c where c: "rp_stack s ! rp_p s = Some c" "read_at (rp_stack s) (rp_p s) = Done c"
    using stack_read [OF st(1) order_refl st(2)] by blast
  show ?thesis
  proof (cases "c = 47")
    case True
    with c root_step_law [OF ok] show ?thesis by (simp add: realpath_step_def)
  next
    case False
    obtain n where n: "ao_strchrnul (drop (rp_p s) (rp_stack s)) 47 = Done n" "n < length (drop (rp_p s) (rp_stack s))"
        "\<forall>i<n. \<exists>b. drop (rp_p s) (rp_stack s) ! i = Some b \<and> b \<noteq> 0 \<and> b \<noteq> 47"
        "drop (rp_p s) (rp_stack s) ! n = Some 0 \<or> drop (rp_p s) (rp_stack s) ! n = Some 47"
      using ao_strchrnul_spec [OF stack_rest(1-3) [OF st(1)]] by blast
    have le: "rp_p s + n \<le> 4096" using n(2) stack_rest(4) [OF st(1)] by linarith
    have sl: "length (rp_stack s) = 4097" using st(1) by (simp add: stack_ok_def)
    have comp: "\<exists>b. rp_stack s ! (rp_p s + j) = Some b \<and> b \<noteq> 0 \<and> b \<noteq> 47" if "j < n" for j
      using n(3) that sl le by simp
    have zero: "n = 0 \<Longrightarrow> rp_stack s ! rp_p s = Some 0" using n(4) c(1) False sl st(2) by auto
    consider "n = 0" "\<not> rp_check_dir s" | "n = 1" "c = 46" | "\<not> (n = 0 \<and> \<not> rp_check_dir s)" "\<not> (n = 1 \<and> c = 46)" by blast
    then show ?thesis
    proof cases
      case 1
      with c False n(1) show ?thesis by (simp add: realpath_step_def round_ok_def)
    next
      case 2
      have "realpath_ok (s\<lparr>rp_p := rp_p s + 1\<rparr>)"
        using ok stack_ok_later [OF st(1), of "rp_p s + 1"] le 2 by (simp add: realpath_ok_def)
      then have "wp False (next_round (s\<lparr>rp_p := rp_p s + 1\<rparr>)) (round_ok s)" by (rule next_round_law [OF _ ok]) simp_all
      with c False n(1) 2 show ?thesis by (simp add: realpath_step_def)
    next
      case 3
      have "wp False (component_step fs n s) (round_ok s)"
        using 3 zero by (intro component_step_law [OF ok le _ comp]) auto
      with 3 c False n(1) show ?thesis by (auto simp: realpath_step_def)
    qed
  qed
qed

section \<open>The whole function\<close>

text \<open>The loop may follow any number of rounds; \<open>None\<close> would be a loop that never ends.\<close>

partial_function (option) realpath_loop :: "file_system \<Rightarrow> realpath_state \<Rightarrow> step_result outcome option" where
  "realpath_loop fs s =
     (case realpath_step fs s of
        Done r \<Rightarrow> (case r of Again s' \<Rightarrow> realpath_loop fs s' | Leave s' \<Rightarrow> Some (Done r) | Fail e \<Rightarrow> Some (Done r))
      | Exit c \<Rightarrow> Some (Exit c)
      | Undef \<Rightarrow> Some Undef
      | Spin \<Rightarrow> Some Spin)"

text \<open>\<open>while (cwd_len > 1 && stack[cwd_len - 1] != '/') --cwd_len;\<close>\<close>

fun cwd_back :: "cell list \<Rightarrow> nat \<Rightarrow> nat outcome" where
  "cwd_back stack 0 = Done 0"
| "cwd_back stack (Suc n) =
     (if Suc n > 1 then obind (read_at stack n) (\<lambda>b. if b \<noteq> 47 then cwd_back stack n else Done (Suc n))
      else Done (Suc n))"

text \<open>Each leading \<open>..\<close> takes a component off the current directory.\<close>

fun skip_ups :: "cell list \<Rightarrow> nat \<Rightarrow> nat \<Rightarrow> nat \<Rightarrow> nat \<Rightarrow> (nat \<times> nat) outcome" where
  "skip_ups stack q 0 cwd_len skip = Done (cwd_len, skip)"
| "skip_ups stack q (Suc n) cwd_len skip =
     obind (cwd_back stack cwd_len) (\<lambda>cwd_len.
       skip_ups stack q n (if cwd_len > 1 then cwd_len - 1 else cwd_len)
         (if skip + 2 < q then skip + 2 + 1 else skip + 2))"

text \<open>The current directory goes before a relative output.\<close>

definition prepend_cwd :: "cell list \<Rightarrow> cell list \<Rightarrow> nat \<Rightarrow> nat \<Rightarrow> (errno + cell list \<times> nat) outcome" where
  "prepend_cwd stack output q pending_up =
     obind (strlen stack) (\<lambda>cwd_len.
     obind (skip_ups stack q pending_up cwd_len 0) (\<lambda>(cwd_len, skip).
     let rest = size_sub q skip
     in obind (if rest \<noteq> 0 then obind (read_at stack (size_sub cwd_len 1)) (\<lambda>b. Done (b \<noteq> 47)) else Done False) (\<lambda>slash.
        obind (if slash then put_cells stack cwd_len [Some 47] else Done stack) (\<lambda>stack.
        let cwd_len = (if slash then cwd_len + 1 else cwd_len)
        in if cwd_len + rest + 1 \<ge> PATH_MAX then Done (Inl ENAMETOOLONG)
           else obind (read_cells output skip (rest + 1)) (\<lambda>tail.
                obind (put_cells output cwd_len tail) (\<lambda>output.
                obind (read_cells stack 0 cwd_len) (\<lambda>front.
                obind (put_cells output 0 front) (\<lambda>output.
                  Done (Inr (output, size_sub (cwd_len + q) skip))))))))))"

definition realpath_absolute ::
  "'a malloc_fn \<Rightarrow> sys_path \<Rightarrow> realpath_state \<Rightarrow> cell list \<Rightarrow> 'a libc_scheme
   \<Rightarrow> ((errno + cell list \<times> nat) \<times> 'a libc_scheme) outcome" where
  "realpath_absolute malloc cwd s output w =
     obind (read_at output 0) (\<lambda>b.
       if b = 47 then Done (Inr (output, rp_q s), w)
       else obind (getcwd malloc cwd (Some (rp_stack s)) (of_nat (PATH_MAX + 1)) w) (\<lambda>((r, stack), w).
              if r = Failed then Done (Inl (errno w), w)
              else obind (prepend_cwd (the stack) output (rp_q s) (rp_pending_up s)) (\<lambda>x. Done (x, w))))"

definition realpath ::
  "'a malloc_fn \<Rightarrow> file_system \<Rightarrow> sys_path \<Rightarrow> cell list option \<Rightarrow> cell list option \<Rightarrow> 'a libc_scheme
   \<Rightarrow> ((path_result \<times> cell list option) \<times> 'a libc_scheme) outcome" where
  "realpath malloc fs cwd filename resolved w =
     (case filename of
        None \<Rightarrow> Done ((Failed, resolved), w\<lparr>errno := EINVAL\<rparr>)
      | Some name \<Rightarrow>
          obind (strnlen name (PATH_MAX + 1)) (\<lambda>len.
            if len = 0 then Done ((Failed, resolved), w\<lparr>errno := ENOENT\<rparr>)
            else if len \<ge> PATH_MAX then Done ((Failed, resolved), w\<lparr>errno := ENAMETOOLONG\<rparr>)
            else let p = PATH_MAX + 1 - len - 1
            in obind (read_cells name 0 (len + 1)) (\<lambda>start.
               obind (put_cells (replicate (PATH_MAX + 1) None) p start) (\<lambda>stack.
               obind (case realpath_loop fs \<lparr>rp_stack = stack, rp_output = replicate PATH_MAX None, rp_p = p, rp_q = 0,
                          rp_loop_count = 0, rp_pending_up = 0, rp_check_dir = False, rp_calls = 0, rp_errno = errno w\<rparr> of
                        None \<Rightarrow> Spin | Some r \<Rightarrow> r) (\<lambda>r.
               case r of
                 Again s \<Rightarrow> Undef
               | Fail e \<Rightarrow> Done ((Failed, resolved), w\<lparr>errno := e\<rparr>)
               | Leave s \<Rightarrow>
                   obind (put_cells (rp_output s) (rp_q s) [Some 0]) (\<lambda>output.
                   obind (realpath_absolute malloc cwd s output (w\<lparr>errno := rp_errno s\<rparr>)) (\<lambda>(x, w).
                   case x of
                     Inl e \<Rightarrow> Done ((Failed, resolved), w\<lparr>errno := e\<rparr>)
                   | Inr (output, q) \<Rightarrow>
                       (case resolved of
                          Some buf \<Rightarrow> obind (read_cells output 0 (q + 1)) (\<lambda>new.
                                      obind (put_cells buf 0 new) (\<lambda>buf. Done ((In_buffer, Some buf), w)))
                        | None \<Rightarrow> obind (strdup malloc output w) (\<lambda>(p, w). Done ((fresh_path p, None), w))))))))))"

section \<open>Termination and safety\<close>

lemma realpath_loop_law:
  assumes "realpath_ok s"
  shows "\<exists>r. realpath_loop fs s = Some (Done r) \<and> (case r of Again _ \<Rightarrow> False | Leave s' \<Rightarrow> realpath_ok s' | Fail _ \<Rightarrow> True)"
  using wf_progress assms
proof (induction s rule: wf_induct_rule)
  case (less s)
  obtain r where r: "realpath_step fs s = Done r" "round_ok s r"
    using wp_Done_cases [OF realpath_step_law [OF less.prems]] by blast
  show ?case
  proof (cases r)
    case (Again s')
    with r have "(s', s) \<in> progress" "realpath_ok s'" by (simp_all add: round_ok_def)
    from less.IH [OF this] r(1) Again show ?thesis by (subst realpath_loop.simps) simp
  qed (use r less.prems in \<open>simp_all add: realpath_loop.simps round_ok_def\<close>)
qed

lemma cstring_nth:
  "(\<And>i. i < q \<Longrightarrow> \<exists>b. cs ! i = Some b \<and> b \<noteq> 0) \<Longrightarrow> cs ! q = Some 0 \<Longrightarrow> q < length cs \<Longrightarrow>
   cstring (map the (take q cs)) cs"
proof -
  assume a: "\<And>i. i < q \<Longrightarrow> \<exists>b. cs ! i = Some b \<and> b \<noteq> 0" "cs ! q = Some 0" "q < length cs"
  have "take (Suc q) cs = map Some (map the (take q cs)) @ [Some 0]"
  proof (rule nth_equalityI)
    fix i assume i: "i < length (take (Suc q) cs)"
    show "take (Suc q) cs ! i = (map Some (map the (take q cs)) @ [Some 0]) ! i"
    proof (cases "i < q")
      case True
      then obtain b where "cs ! i = Some b" using a(1) by blast
      with True a(3) show ?thesis by (simp add: nth_append)
    next
      case False
      with i a(2,3) show ?thesis by (auto simp: nth_append less_Suc_eq)
    qed
  qed (use a in simp)
  moreover have "0 \<notin> set (map the (take q cs))"
  proof
    assume "0 \<in> set (map the (take q cs))"
    then obtain i where "i < q" "the (cs ! i) = 0" using a(3) by (auto simp: in_set_conv_nth)
    with a(1) [of i] show False by auto
  qed
  ultimately show ?thesis using a(3) by (simp add: cstring_def)
qed

lemma cwd_back_law:
  "1 \<le> n \<Longrightarrow> (\<And>i. i < n \<Longrightarrow> stack ! i \<noteq> None) \<Longrightarrow> n \<le> length stack \<Longrightarrow>
   \<exists>m. cwd_back stack n = Done m \<and> 1 \<le> m \<and> m \<le> n"
proof (induction n)
  case (Suc n)
  show ?case
  proof (cases "n = 0")
    case False
    obtain b where b: "stack ! n = Some b" using Suc.prems(2) [of n] by auto
    then have "read_at stack n = Done b" using Suc.prems(3) by (intro read_at_Done) auto
    with Suc False show ?thesis by (cases "b = 47") fastforce+
  qed simp
qed simp

lemma skip_ups_law:
  assumes "1 \<le> l" "\<And>i. i < l \<Longrightarrow> stack ! i \<noteq> None" "l \<le> length stack" "sk + 3 * n \<le> q + 1" "sk \<le> q"
  shows "\<exists>l' sk'. skip_ups stack q n l sk = Done (l', sk') \<and> 1 \<le> l' \<and> l' \<le> l \<and> sk' \<le> q"
  using assms
proof (induction n arbitrary: l sk)
  case (Suc n)
  obtain m where m: "cwd_back stack l = Done m" "1 \<le> m" "m \<le> l" using cwd_back_law Suc.prems(1-3) by blast
  let ?l = "if m > 1 then m - 1 else m" and ?sk = "if sk + 2 < q then sk + 2 + 1 else sk + 2"
  have "1 \<le> ?l" "?l \<le> l" "?l \<le> length stack" "?sk + 3 * n \<le> q + 1" "?sk \<le> q" using m Suc.prems by auto
  moreover have "stack ! i \<noteq> None" if "i < ?l" for i using Suc.prems(2) [of i] that \<open>?l \<le> l\<close> by simp
  ultimately show ?case using Suc.IH [of ?l ?sk] m(1) by fastforce
qed simp

text \<open>An array that holds a C string of \<open>q\<close> characters with a leading slash.\<close>

definition absolute :: "cell list \<Rightarrow> nat \<Rightarrow> bool" where
  "absolute out q \<longleftrightarrow> length out = 4096 \<and> 0 < q \<and> q < 4096 \<and> out ! 0 = Some 47
     \<and> (\<forall>i<q. \<exists>b. out ! i = Some b \<and> b \<noteq> 0) \<and> out ! q = Some 0"

lemma move_tail:
  assumes st: "l \<le> length st" "0 < l" "st ! 0 = Some 47" "\<And>i. i < l \<Longrightarrow> \<exists>b. st ! i = Some b \<and> b \<noteq> 0"
    and out: "length out = 4096" "sk \<le> q" "q < 4096" "\<And>i. i < q \<Longrightarrow> \<exists>b. out ! i = Some b \<and> b \<noteq> 0" "out ! q = Some 0"
    and fit: "l + (q - sk) + 1 \<le> 4096"
  shows "absolute (overwrite 0 (take l st) (overwrite l (take (q - sk + 1) (drop sk out)) out)) (l + (q - sk))"
proof -
  let ?tail = "take (q - sk + 1) (drop sk out)"
  let ?o1 = "overwrite l ?tail out"
  let ?o2 = "overwrite 0 (take l st) ?o1"
  have tl: "length ?tail = q - sk + 1" "length (take l st) = l" using out st by simp_all
  have o1: "length ?o1 = 4096" using out(1) tl(1) fit by simp
  have nth: "?o2 ! i = (if i < l then st ! i else out ! (sk + (i - l)))" if "i \<le> l + (q - sk)" for i
  proof -
    have "?o2 ! i = (if i < l then st ! i else ?o1 ! i)" using that tl(2) o1 fit by (simp add: nth_overwrite)
    moreover have "?o1 ! i = out ! (sk + (i - l))" if "\<not> i < l"
    proof -
      have "?o1 ! i = ?tail ! (i - l)"
        using that \<open>i \<le> l + (q - sk)\<close> tl(1) out(1) fit by (subst nth_overwrite) auto
      moreover have "i - l < q - sk + 1" using \<open>i \<le> l + (q - sk)\<close> by linarith
      ultimately show ?thesis using out(1-3) by (simp only: nth_take) simp
    qed
    ultimately show ?thesis by simp
  qed
  have "\<exists>b. ?o2 ! i = Some b \<and> b \<noteq> 0" if "i < l + (q - sk)" for i
  proof (cases "i < l")
    case True
    then show ?thesis using nth [of i] st(4) by simp
  next
    case False
    then have "sk + (i - l) < q" using that out(2) by linarith
    then show ?thesis using nth [of i] out(4) False that by simp
  qed
  moreover have "?o2 ! (l + (q - sk)) = Some 0"
  proof -
    have "\<not> l + (q - sk) < l" "sk + (l + (q - sk) - l) = q" using out(2) by linarith+
    then show ?thesis using nth [of "l + (q - sk)"] out(5) by (simp only: order_refl if_False)
  qed
  moreover have "?o2 ! 0 = Some 47" using nth [of 0] st(2,3) by simp
  moreover have "length ?o2 = 4096" using o1 tl(2) fit by simp
  ultimately show ?thesis using st(2) fit unfolding absolute_def by simp
qed

lemma prepend_cwd_law:
  assumes stack: "length stack = 4097" "stack ! 0 = Some 47" "strlen stack = Done n"
    and out: "length out = 4096" "q < 4096" "\<And>i. i < q \<Longrightarrow> \<exists>b. out ! i = Some b \<and> b \<noteq> 0" "out ! q = Some 0"
    and ups: "3 * k \<le> q + 1"
  shows "wp False (prepend_cwd stack out q k) (\<lambda>x. case x of Inl _ \<Rightarrow> True | Inr (out', q') \<Rightarrow> absolute out' q')"
proof -
  obtain d where d: "length d = n" "cstring d stack" using strlen_Done_cstring [OF stack(3)] by blast
  have nz: "\<exists>b. stack ! i = Some b \<and> b \<noteq> 0" if "i < n" for i
  proof -
    have "stack ! i = (map Some d @ [Some 0]) ! i"
      using d(2) that by (metis cstring_def d(1) less_SucI nth_take)
    then have "stack ! i = Some (d ! i)" using that d(1) by (simp add: nth_append)
    moreover have "d ! i \<noteq> 0" using d that by (auto simp: cstring_def in_set_conv_nth)
    ultimately show ?thesis by simp
  qed
  have n: "n < 4097" using cstring_length [OF d(2)] d(1) stack(1) by simp
  have n1: "1 \<le> n"
  proof (rule ccontr)
    assume "\<not> 1 \<le> n"
    then have "d = []" using d(1) by (cases d) auto
    then have "stack ! 0 = Some 0" using d(2) by (auto simp: cstring_Nil)
    with stack(2) show False by simp
  qed
  obtain l sk where l: "skip_ups stack q k n 0 = Done (l, sk)" "1 \<le> l" "l \<le> n" "sk \<le> q"
  proof -
    have "\<And>i. i < n \<Longrightarrow> stack ! i \<noteq> None" using nz by fastforce
    then show ?thesis using skip_ups_law [of n stack 0 k q] n1 n stack(1) ups that by auto
  qed
  have nzl: "\<exists>b. stack ! i = Some b \<and> b \<noteq> 0" if "i < l" for i using nz that l(3) by simp
  obtain slash where slash: "(if q - sk \<noteq> 0 then obind (read_at stack (l - 1)) (\<lambda>b. Done (b \<noteq> 47)) else Done False) = Done slash"
  proof (cases "q - sk = 0")
    case False
    obtain b where "stack ! (l - 1) = Some b" using nzl [of "l - 1"] l(2) by auto
    then have "read_at stack (l - 1) = Done b" using l n stack(1) by (intro read_at_Done) auto
    with False that show ?thesis by simp
  next
    case True
    then show ?thesis using that [of False] by simp
  qed
  let ?stack = "if slash then overwrite l [Some 47] stack else stack" and ?l = "if slash then l + 1 else l"
  have put: "(if slash then put_cells stack l [Some 47] else Done stack) = Done ?stack"
    using l(3) n stack(1) by (simp add: put_cells_def)
  have sl: "length ?stack = 4097" using l(3) n stack(1) by simp
  have nzs: "\<exists>b. ?stack ! i = Some b \<and> b \<noteq> 0" if "i < ?l" for i
    using that nzl [of i] l(3) n stack(1) by (auto simp: nth_overwrite split: if_splits)
  have first: "?stack ! 0 = Some 47" using stack(1,2) l n by (simp add: nth_overwrite)
  show ?thesis
  proof (cases "?l + (q - sk) + 1 \<ge> PATH_MAX")
    case True
    then show ?thesis
      unfolding prepend_cwd_def stack(3) obind.simps l(1) prod.case Let_def size_sub_le [OF l(2)] size_sub_le [OF l(4)] slash put
        if_P [OF True] by simp
  next
    case False
    let ?o1 = "overwrite ?l (take (q - sk + 1) (drop sk out)) out"
    let ?o2 = "overwrite 0 (take ?l ?stack) ?o1"
    have fit: "?l + (q - sk) + 1 \<le> 4096" "?l \<le> 4096" using False by (auto simp: PATH_MAX_def)
    have "absolute ?o2 (?l + (q - sk))"
      using fit sl l(2,4) first nzs out by (intro move_tail) auto
    moreover have "prepend_cwd stack out q k = Done (Inr (?o2, ?l + (q - sk)))"
      unfolding prepend_cwd_def stack(3) obind.simps l(1) prod.case Let_def size_sub_le [OF l(2)] size_sub_le [OF l(4)] slash put
        if_not_P [OF False]
      using out(1,2) l(4) fit sl by (simp add: read_cells_def put_cells_def)
    ultimately show ?thesis by simp
  qed
qed

text \<open>The start: the path at the end of the stack.\<close>

lemma realpath_start_ok:
  assumes "cstring s name" "length s < 4096"
  shows "realpath_ok \<lparr>rp_stack = overwrite (4096 - length s) (take (length s + 1) name) (replicate 4097 None),
    rp_output = replicate 4096 None, rp_p = 4096 - length s, rp_q = 0, rp_loop_count = 0, rp_pending_up = 0,
    rp_check_dir = False, rp_calls = 0, rp_errno = e\<rparr>"
proof -
  have t: "take (length s + 1) name = map Some s @ [Some 0]" using assms(1) by (simp add: cstring_def)
  have "stack_ok (overwrite (4096 - length s) (map Some s @ [Some 0]) (replicate 4097 None)) (4096 - length s)"
    unfolding stack_ok_def
  proof (intro conjI allI impI)
    fix i assume "4096 - length s \<le> i" "i \<le> 4096"
    then have "i - (4096 - length s) < length (map Some s @ [Some (0 :: byte)])"
        "(map Some s @ [Some (0 :: byte)]) ! (i - (4096 - length s)) \<noteq> None"
      using assms(2) by (auto simp: nth_append)
    then show "overwrite (4096 - length s) (map Some s @ [Some 0]) (replicate 4097 None) ! i \<noteq> None"
      using assms(2) \<open>4096 - length s \<le> i\<close> \<open>i \<le> 4096\<close> by (subst nth_overwrite) auto
  qed (use assms(2) in \<open>auto simp: nth_overwrite nth_append\<close>)
  with t show ?thesis by (simp add: realpath_ok_def SYMLOOP_MAX_def output_ok_def)
qed

text \<open>The current directory in the stack array.\<close>

lemma getcwd_stack:
  assumes "length stack = 4097"
  shows "wp False (getcwd malloc cwd (Some stack) (of_nat (PATH_MAX + 1)) w) (\<lambda>((r, buf), w').
    blocks w' = blocks w \<and> (\<exists>e. w' = w\<lparr>errno := e\<rparr>) \<and> (r \<noteq> Failed \<longrightarrow> w' = w \<and> (\<exists>stack'. buf = Some stack' \<and> length stack' = 4097
      \<and> stack' ! 0 = Some 47 \<and> (\<exists>n. strlen stack' = Done n))))"
proof (cases cwd)
  case (Inl e)
  then show ?thesis
    by (auto simp: getcwd_def PATH_MAX_def getcwd_into_def sys_getcwd_def)
next
  case (Inr d)
  show ?thesis
  proof (cases "length d + 1 \<le> 4097")
    case False
    with Inr show ?thesis by (auto simp: getcwd_def PATH_MAX_def getcwd_into_def sys_getcwd_def)
  next
    case True
    let ?stack = "overwrite 0 (map Some (d @ [0])) stack"
    have put: "put_cells stack 0 (map Some (d @ [0])) = Done ?stack" using True assms by (simp add: put_cells_def)
    have nth: "?stack ! i = Some ((d @ [0]) ! i)" if "i \<le> length d" for i
      using that True assms by (subst nth_overwrite) (simp_all del: map_append)
    have sl: "length ?stack = 4097" using True assms by simp
    have rd: "read_at ?stack 0 = Done ((d @ [0]) ! 0)" using nth [of 0] sl by (simp add: read_at_def del: map_append)
    have "\<exists>path. c_string ?stack = Done path"
      using c_string_defined [of "length d" ?stack] nth True sl by (auto simp del: map_append)
    then have "\<exists>n. strlen ?stack = Done n" by (auto simp: c_string_def obind_eq_Done)
    moreover have "\<exists>e. w = w\<lparr>errno := e\<rparr>" by (intro exI [of _ "errno w"]) simp
    ultimately show ?thesis
      using Inr True put rd nth [of 0] sl
      by (auto simp: getcwd_def PATH_MAX_def getcwd_into_def sys_getcwd_def simp del: map_append)
  qed
qed

text \<open>What the loop leaves is made absolute.\<close>

lemma realpath_absolute_law:
  assumes ok: "realpath_ok s"
  shows "wp False (realpath_absolute malloc cwd s (overwrite (rp_q s) [Some 0] (rp_output s)) w) (\<lambda>(x, w').
    blocks w' = blocks w \<and> (\<exists>e. w' = w\<lparr>errno := e\<rparr>) \<and> (case x of Inl _ \<Rightarrow> True | Inr (out, q) \<Rightarrow> absolute out q))"
proof -
  let ?out = "overwrite (rp_q s) [Some 0] (rp_output s)"
  have out: "length (rp_output s) = 4096" "rp_q s < 4096" "\<And>i. i < rp_q s \<Longrightarrow> \<exists>b. rp_output s ! i = Some b \<and> b \<noteq> 0"
      "3 * rp_pending_up s \<le> rp_q s + 1"
    using ok by (auto simp: realpath_ok_def output_ok_def)
  have sl: "length (rp_stack s) = 4097" using ok by (simp add: realpath_ok_def stack_ok_def)
  have len: "length ?out = 4096" using out by simp
  have nth: "?out ! i = (if i = rp_q s then Some 0 else rp_output s ! i)" if "i < 4096" for i
    using that out by (simp add: nth_overwrite)
  have nz: "\<exists>b. ?out ! i = Some b \<and> b \<noteq> 0" if "i < rp_q s" for i using that out nth [of i] by simp
  have z: "?out ! rp_q s = Some 0" using out nth by simp
  have "\<exists>b. ?out ! 0 = Some b" using nz [of 0] z by (cases "rp_q s = 0") auto
  then obtain b where b: "?out ! 0 = Some b" "read_at ?out 0 = Done b" using len by (auto simp: read_at_def)
  have id: "\<exists>e. w = w\<lparr>errno := e\<rparr>" by (intro exI [of _ "errno w"]) simp
  show ?thesis
  proof (cases "b = 47")
    case True
    have "rp_q s \<noteq> 0" using z b True by (cases "rp_q s = 0") auto
    then have "absolute ?out (rp_q s)" using b True len out(2) nz z by (simp add: absolute_def)
    with True b id show ?thesis by (simp add: realpath_absolute_def)
  next
    case False
    show ?thesis
      unfolding realpath_absolute_def b(2) obind.simps if_not_P [OF False]
    proof (rule wp_bindI [OF getcwd_stack [OF sl]], assumption, goal_cases)
      case (1 y)
      obtain r buf w1 where y: "y = ((r, buf), w1)" by (metis surj_pair)
      show ?case
      proof (cases "r = Failed")
        case True
        with 1 y show ?thesis by auto
      next
        case ne: False
        with 1 y obtain stack n where st: "w1 = w" "buf = Some stack" "length stack = 4097" "stack ! 0 = Some 47" "strlen stack = Done n"
          by auto
        have "wp False (prepend_cwd stack ?out (rp_q s) (rp_pending_up s))
            (\<lambda>x. case x of Inl _ \<Rightarrow> True | Inr (out', q') \<Rightarrow> absolute out' q')"
          using st out(2,4) len nz z by (intro prepend_cwd_law) auto
        then show ?thesis
          unfolding y prod.case if_not_P [OF ne] st option.sel
          by (rule wp_bindI) (use id in auto)
      qed
    qed
  qed
qed

text \<open>Where the call ends: at once with an error, or with what the loop leaves.\<close>

definition realpath_start :: "byte list \<Rightarrow> cell list \<Rightarrow> errno \<Rightarrow> realpath_state" where
  "realpath_start s name e =
     \<lparr>rp_stack = overwrite (4096 - length s) (take (length s + 1) name) (replicate 4097 None),
      rp_output = replicate 4096 None, rp_p = 4096 - length s, rp_q = 0, rp_loop_count = 0, rp_pending_up = 0,
      rp_check_dir = False, rp_calls = 0, rp_errno = e\<rparr>"

lemma realpath_cases:
  assumes name: "cstring s name"
  obtains e where "realpath malloc fs cwd (Some name) None w = Done ((Failed, None), w\<lparr>errno := e\<rparr>)"
    | s' where "length s < 4096" "realpath_ok s'" "realpath_loop fs (realpath_start s name (errno w)) = Some (Done (Leave s'))"
      "realpath malloc fs cwd (Some name) None w =
         obind (realpath_absolute malloc cwd s' (overwrite (rp_q s') [Some 0] (rp_output s')) (w\<lparr>errno := rp_errno s'\<rparr>)) (\<lambda>(x, w).
           case x of Inl e \<Rightarrow> Done ((Failed, None), w\<lparr>errno := e\<rparr>)
           | Inr (output, q) \<Rightarrow> obind (strdup malloc output w) (\<lambda>(p, w). Done ((fresh_path p, None), w)))"
proof -
  have len: "strnlen name (PATH_MAX + 1) = Done (min (length s) (PATH_MAX + 1))" using name by (rule strnlen_cstring)
  show ?thesis
  proof (cases "s = [] \<or> 4096 \<le> length s")
    case True
    then have "\<exists>e. realpath malloc fs cwd (Some name) None w = Done ((Failed, None), w\<lparr>errno := e\<rparr>)"
      using len by (auto simp: realpath_def PATH_MAX_def)
    with that(1) show ?thesis by blast
  next
    case False
    then have sl: "length s < 4096" "s \<noteq> []" by simp_all
    have rd: "read_cells name 0 (length s + 1) = Done (take (length s + 1) name)"
      using cstring_length [OF name] by (simp add: read_cells_def)
    let ?s = "realpath_start s name (errno w)"
    have put: "put_cells (replicate 4097 None) (4096 - length s) (take (length s + 1) name) = Done (rp_stack ?s)"
      using cstring_length [OF name] sl by (simp add: put_cells_def realpath_start_def)
    obtain r where r: "realpath_loop fs ?s = Some (Done r)"
        "case r of Again _ \<Rightarrow> False | Leave s' \<Rightarrow> realpath_ok s' | Fail _ \<Rightarrow> True"
      using realpath_loop_law realpath_start_ok [OF name sl(1)] unfolding realpath_start_def by blast
    note start = sl len rd put r(1) [unfolded realpath_start_def] realpath_start_def
    show ?thesis
    proof (cases r)
      case (Again s')
      with r show ?thesis by simp
    next
      case (Fail e)
      then have "realpath malloc fs cwd (Some name) None w = Done ((Failed, None), w\<lparr>errno := e\<rparr>)"
        using start by (simp add: realpath_def PATH_MAX_def)
      with that(1) show ?thesis .
    next
      case (Leave s')
      with r have ok: "realpath_ok s'" by simp
      have fin: "put_cells (rp_output s') (rp_q s') [Some 0] = Done (overwrite (rp_q s') [Some 0] (rp_output s'))"
        using ok by (simp add: put_cells_def realpath_ok_def output_ok_def)
      show ?thesis
        by (rule that(2) [OF sl(1) ok r(1) [unfolded Leave]])
          (use start Leave fin in \<open>simp add: realpath_def PATH_MAX_def cong del: prod.case_cong_weak sum.case_cong_weak\<close>)
    qed
  qed
qed

text \<open>What is returned of a path: null, or a fresh block with it.\<close>

definition path_returned ::
  "('a libc_scheme \<Rightarrow> ptr \<Rightarrow> bool) \<Rightarrow> 'a libc_scheme \<Rightarrow> (byte list \<Rightarrow> bool) \<Rightarrow> path_result \<Rightarrow> 'a libc_scheme \<Rightarrow> bool" where
  "path_returned owned w good r w' \<longleftrightarrow>
     r = Failed \<and> blocks w' = blocks w \<and> owned w' = owned w
     \<or> (\<exists>p path u. r = Allocated p \<and> p \<noteq> NULL \<and> good path \<and> blocks u = blocks w \<and> owned u = owned w
          \<and> duplicated owned (map Some (path @ [0])) u p w')"

context c_allocator
begin

lemma errno_only:
  "inv w \<Longrightarrow> inv (w\<lparr>errno := e\<rparr>) \<and> blocks (w\<lparr>errno := e\<rparr>) = blocks w \<and> owned (w\<lparr>errno := e\<rparr>) = owned w \<and> room (w\<lparr>errno := e\<rparr>) = room w"
  by (simp add: errno_laws)

lemma path_returned_law:
  assumes inv: "inv w" and cs: "cstring path out" "length out < 2 ^ 64" and good: "good path"
  shows "wp (room w = 0) (obind (strdup malloc out (w\<lparr>errno := e\<rparr>)) (\<lambda>(p, w). Done ((fresh_path p, None), w)))
    (\<lambda>((r, _), w'). inv w' \<and> path_returned owned w good r w')"
proof (rule wp_bindI [OF strdup_law [OF errno_only [OF inv, THEN conjunct1] cs]], simp add: errno_only [OF inv], goal_cases)
  case (1 z)
  obtain p w' where z: "z = (p, w')" by (cases z)
  show ?case
  proof (cases "p = NULL")
    case True
    with 1 z show ?thesis by (simp add: path_returned_def duplicated_def fresh_path_def errno_only [OF inv])
  next
    case False
    with 1 z good errno_only [OF inv, of e] show ?thesis
      by (auto simp: path_returned_def fresh_path_def intro!: exI [of _ path] exI [of _ "w\<lparr>errno := e\<rparr>"])
  qed
qed

text \<open>
  \<open>realpath\<close> always returns, is memory-safe, and gives nothing or a fresh block with an absolute path that
  fits \<open>PATH_MAX\<close>.
\<close>

lemma realpath_law:
  assumes inv: "inv w" and name: "cstring s name"
  shows "wp (room w = 0) (realpath malloc fs cwd (Some name) None w) (\<lambda>((r, _), w'). inv w' \<and>
    path_returned owned w (\<lambda>path. path \<noteq> [] \<and> hd path = 47 \<and> 0 \<notin> set path \<and> length path < PATH_MAX) r w')"
proof (cases rule: realpath_cases [OF name, of malloc fs cwd w])
  case (1 e)
  with errno_only [OF inv] show ?thesis by (simp add: path_returned_def)
next
  case (2 s')
  show ?thesis
    unfolding 2(4)
  proof (rule wp_bindI [OF realpath_absolute_law [OF 2(2)]], simp, goal_cases)
    case (1 y)
    then obtain x e where y: "y = (x, w\<lparr>errno := e\<rparr>)" "case x of Inl _ \<Rightarrow> True | Inr (out, q) \<Rightarrow> absolute out q"
      by (cases y) auto
    show ?case
    proof (cases x)
      case (Inl err)
      with y errno_only [OF inv] show ?thesis by (simp add: path_returned_def)
    next
      case (Inr oq)
      obtain out q where oq: "oq = (out, q)" by (cases oq)
      with Inr y(2) have ab: "absolute out q" by simp
      let ?path = "map the (take q out)"
      have cs: "cstring ?path out" using ab by (intro cstring_nth) (auto simp: absolute_def)
      have "?path ! 0 = 47" "?path \<noteq> []" using ab by (auto simp: absolute_def)
      then have "hd ?path = 47" using hd_conv_nth [of ?path] by metis
      then have "?path \<noteq> [] \<and> hd ?path = 47 \<and> 0 \<notin> set ?path \<and> length ?path < PATH_MAX"
        using ab cs by (auto simp: absolute_def cstring_def PATH_MAX_def)
      then show ?thesis
        unfolding y(1) prod.case Inr oq sum.case
        by (intro path_returned_law [OF inv cs]) (use ab in \<open>simp_all add: absolute_def\<close>)
    qed
  qed
qed

end

end
