(* ===== verification/Realpath_Spec.thy ===== *)
theory Realpath_Spec
  imports Realpath
begin

text \<open>
  What \<open>realpath\<close> means: the relation \<open>resolves\<close> on lists of components, without arrays and positions. A position is
  a root and components; the root is empty for a path relative to the current directory, whose
  components may then begin with two dots.
\<close>

section \<open>Paths as lists of components\<close>

function components :: "byte list \<Rightarrow> byte list list" where
  "components [] = []"
| "components (b # r) =
     (if b = 47 then components r
      else takeWhile (\<lambda>x. x \<noteq> 47) (b # r) # components (dropWhile (\<lambda>x. x \<noteq> 47) (b # r)))"
  by pat_completeness auto

termination
  by (relation "measure length") (auto simp: le_imp_less_Suc length_dropWhile_le)

fun join_path :: "byte list list \<Rightarrow> byte list" where
  "join_path [] = []"
| "join_path [c] = c"
| "join_path (c # d # cs) = c @ 47 # join_path (d # cs)"

definition render :: "byte list \<Rightarrow> byte list list \<Rightarrow> byte list" where
  "render root cs = root @ join_path cs"

text \<open>Exactly two leading slashes are a root of their own.\<close>

definition root_of :: "byte list \<Rightarrow> byte list" where
  "root_of t = (if take 2 t = [47, 47] \<and> take 3 t \<noteq> [47, 47, 47] then [47, 47] else [47])"

definition is_absolute :: "byte list \<Rightarrow> bool" where
  "is_absolute t \<longleftrightarrow> t \<noteq> [] \<and> hd t = 47"

definition canonical :: "byte list \<Rightarrow> bool" where
  "canonical c \<longleftrightarrow> c \<noteq> [] \<and> 0 \<notin> set c \<and> 47 \<notin> set c \<and> c \<noteq> [46] \<and> c \<noteq> [46, 46]"

text \<open>
  Two dots take the last name away; at a root they stay, and where a relative path has no name left they are kept.
\<close>

definition keeps_up :: "byte list \<Rightarrow> byte list list \<Rightarrow> bool" where
  "keeps_up root cs \<longleftrightarrow> root = [] \<and> (cs = [] \<or> last cs = [46, 46])"

definition parent :: "byte list \<Rightarrow> byte list list \<Rightarrow> byte list list" where
  "parent root cs = (if keeps_up root cs then cs @ [[46, 46]] else butlast cs)"

text \<open>
  \<open>resolves fs root cs ds root' cs'\<close>: from the directory of root \<open>root\<close> and components \<open>cs\<close> the components \<open>ds\<close> lead to
  the path of \<open>root'\<close> and \<open>cs'\<close>: a dot stays, two dots go to the parent, a name that is no link goes into it,
  a link is replaced by its target.
\<close>

inductive resolves ::
  "file_system \<Rightarrow> byte list \<Rightarrow> byte list list \<Rightarrow> byte list list \<Rightarrow> byte list \<Rightarrow> byte list list \<Rightarrow> bool" for fs where
  resolves_end: "resolves fs root cs [] root cs"
| resolves_dot: "resolves fs root cs ds root' cs' \<Longrightarrow> resolves fs root cs ([46] # ds) root' cs'"
| resolves_up: "resolves fs root (parent root cs) ds root' cs' \<Longrightarrow> resolves fs root cs ([46, 46] # ds) root' cs'"
| resolves_name: "canonical c \<Longrightarrow> fs k (render root (cs @ [c])) = Inl EINVAL \<Longrightarrow> resolves fs root (cs @ [c]) ds root' cs' \<Longrightarrow>
    resolves fs root cs (c # ds) root' cs'"
| resolves_absolute: "canonical c \<Longrightarrow> fs k (render root (cs @ [c])) = Inr t \<Longrightarrow> is_absolute t \<Longrightarrow>
    resolves fs (root_of t) [] (components t @ ds) root' cs' \<Longrightarrow> resolves fs root cs (c # ds) root' cs'"
| resolves_relative: "canonical c \<Longrightarrow> fs k (render root (cs @ [c])) = Inr t \<Longrightarrow> t \<noteq> [] \<Longrightarrow> \<not> is_absolute t \<Longrightarrow>
    resolves fs root cs (components t @ ds) root' cs' \<Longrightarrow> resolves fs root cs (c # ds) root' cs'"

text \<open>
  Of \<open>readlink\<close>: a target is a string, and neither the empty path nor one with a slash at its end nor one that
  ends in two dots names a link.
\<close>

definition readlink_contract :: "file_system \<Rightarrow> bool" where
  "readlink_contract fs \<longleftrightarrow> (\<forall>k path t. fs k path = Inr t \<longrightarrow>
     0 \<notin> set t \<and> path \<noteq> [] \<and> last path \<noteq> 47 \<and> (\<forall>d. path \<noteq> d @ [47, 46, 46]))"

lemma takeWhile_neq: "47 \<notin> set (takeWhile (\<lambda>x. x \<noteq> 47) r)"
  by (auto dest: set_takeWhileD)

lemma components_slash [simp]: "components (dropWhile (\<lambda>x. x = 47) r) = components r"
  by (induction r) auto

lemma components_first:
  assumes "r \<noteq> []" "hd r \<noteq> 47"
  shows "components r = takeWhile (\<lambda>x. x \<noteq> 47) r # components (dropWhile (\<lambda>x. x \<noteq> 47) r)"
  using assms by (cases r) auto

lemma components_cut:
  assumes "47 \<notin> set c" "c \<noteq> []" "r = [] \<or> hd r = 47"
  shows "components (c @ r) = c # components r"
proof -
  have "takeWhile (\<lambda>x. x \<noteq> 47) (c @ r) = c" "dropWhile (\<lambda>x. x \<noteq> 47) (c @ r) = r"
    using assms(1,3) by (induction c) (cases r; auto)+
  moreover have "c @ r \<noteq> []" "hd (c @ r) \<noteq> 47" using assms(1,2) by (cases c; auto)+
  ultimately show ?thesis using components_first [of "c @ r"] by simp
qed

lemma components_append:
  "r = [] \<or> hd r = 47 \<or> t = [] \<or> last t = 47 \<Longrightarrow> components (t @ r) = components t @ components r"
proof (induction t rule: length_induct)
  case (1 t)
  show ?case
  proof (cases t)
    case t: (Cons b t')
    show ?thesis
    proof (cases "b = 47")
      case True
      have "components (t' @ r) = components t' @ components r"
        using "1.IH" "1.prems" t True by (cases "t' = []") auto
      with t True show ?thesis by simp
    next
      case b: False
      define c d where "c = takeWhile (\<lambda>x. x \<noteq> 47) t" and "d = dropWhile (\<lambda>x. x \<noteq> 47) t"
      have cd: "t = c @ d" "47 \<notin> set c" "c \<noteq> []" "d = [] \<or> hd d = 47"
        using b t takeWhile_neq [of t] hd_dropWhile [of "\<lambda>x. x \<noteq> 47" t] by (auto simp: c_def d_def)
      show ?thesis
      proof (cases "d = []")
        case True
        then have "last t \<noteq> 47" using cd by (metis append_Nil2 last_in_set)
        then have "r = [] \<or> hd r = 47" using "1.prems" t by auto
        with True cd components_cut [of c r] components_cut [of c "[]"] show ?thesis by simp
      next
        case False
        have "length d < length t" using cd(1,3) by (cases c) simp_all
        moreover have "r = [] \<or> hd r = 47 \<or> d = [] \<or> last d = 47" using "1.prems" cd(1) False t by auto
        ultimately have "components (d @ r) = components d @ components r" using "1.IH" by blast
        with False cd components_cut [of c "d @ r"] components_cut [of c d] show ?thesis by simp
      qed
    qed
  qed simp
qed

lemma root_of_append:
  assumes t: "t \<noteq> []" "hd t = 47" and r: "last t = 47 \<Longrightarrow> r = [] \<or> hd r \<noteq> 47" "last t \<noteq> 47 \<Longrightarrow> r = [] \<or> hd r = 47"
  shows "root_of (t @ r) = root_of t"
proof -
  obtain t1 where t1: "t = 47 # t1" using t by (cases t) auto
  show ?thesis
  proof (cases t1)
    case Nil
    with t1 r show ?thesis by (cases r) (auto simp: root_of_def)
  next
    case (Cons b t2)
    show ?thesis
    proof (cases t2)
      case Nil
      with t1 Cons r show ?thesis by (cases r) (auto simp: root_of_def numeral_eq_Suc split: if_splits)
    qed (simp add: t1 Cons root_of_def numeral_eq_Suc)
  qed
qed

lemma join_path_snoc: "join_path (cs @ [c]) = (if cs = [] then c else join_path cs @ 47 # c)"
  by (induction cs rule: join_path.induct) auto

lemma render_snoc: "render root (cs @ [c]) = render root cs @ (if cs = [] then [] else [47]) @ c"
  by (simp add: render_def join_path_snoc)

text \<open>The number of two dots at the front.\<close>

definition ups :: "byte list list \<Rightarrow> nat" where
  "ups cs = length (takeWhile (\<lambda>c. c = [46, 46]) cs)"

abbreviation names :: "byte list list \<Rightarrow> byte list list" where
  "names \<equiv> dropWhile (\<lambda>c. c = [46, 46])"

definition path_ok :: "byte list \<Rightarrow> byte list list \<Rightarrow> bool" where
  "path_ok root cs \<longleftrightarrow> (root = [47] \<or> root = [47, 47]) \<and> list_all canonical cs \<or> root = [] \<and> list_all canonical (names cs)"

lemma canonical_not_up [simp]: "canonical c \<Longrightarrow> c \<noteq> [46, 46]"
  by (simp add: canonical_def)

lemma ups_names: "cs = replicate (ups cs) [46, 46] @ names cs"
proof -
  have "takeWhile (\<lambda>c. c = [46, 46]) cs = replicate (ups cs) [46, 46]"
    unfolding ups_def by (induction cs) simp_all
  then show ?thesis by (metis takeWhile_dropWhile_id)
qed

lemma names_drop: "names cs = drop (ups cs) cs"
  by (simp add: ups_def dropWhile_eq_drop)

lemma ups_canonical: "list_all canonical cs \<Longrightarrow> ups cs = 0 \<and> names cs = cs"
  by (cases cs) (auto simp: ups_def)

lemma ups_Nil [simp]: "ups [] = 0"
  by (simp add: ups_def)

lemma path_ok_root: "path_ok (root_of t) []" "path_ok [] []"
  by (simp_all add: path_ok_def root_of_def)

lemma path_ok_snoc: "path_ok root cs \<Longrightarrow> canonical c \<Longrightarrow> path_ok root (cs @ [c]) \<and> ups (cs @ [c]) = ups cs"
  by (auto simp: path_ok_def ups_def takeWhile_tail dropWhile_append3)

lemma path_ok_names:
  assumes "path_ok root cs" "c \<in> set cs"
  shows "c \<noteq> [] \<and> 0 \<notin> set c \<and> 47 \<notin> set c \<and> (canonical c \<or> c = [46, 46])"
proof -
  have "c \<in> set (replicate (ups cs) [46, 46] @ names cs)"
    unfolding ups_names [symmetric] by (rule assms(2))
  then have "c = [46, 46] \<or> c \<in> set (names cs)" by (auto simp del: set_replicate simp: in_set_replicate)
  then have "canonical c \<or> c = [46, 46]"
    using assms unfolding path_ok_def list_all_iff by blast
  then show ?thesis by (auto simp: canonical_def)
qed

text \<open>Where the last component is a name, it is one of the names at the end.\<close>

lemma path_ok_last:
  assumes "path_ok root (cs @ [c])" "\<not> keeps_up root (cs @ [c])"
  shows "canonical c \<and> path_ok root cs \<and> ups (cs @ [c]) = ups cs"
proof (cases "root = []")
  case True
  then have c: "c \<noteq> [46, 46]" using assms(2) by (simp add: keeps_up_def)
  then show ?thesis using assms(1) True by (simp add: path_ok_def ups_def takeWhile_tail dropWhile_append3)
next
  case False
  then have "list_all canonical (cs @ [c])" using assms(1) by (simp add: path_ok_def)
  then show ?thesis using False assms(1) ups_canonical [of "cs @ [c]"] ups_canonical [of cs] by (simp add: path_ok_def)
qed

lemma keeps_up_names:
  assumes "path_ok root cs"
  shows "keeps_up root cs \<longleftrightarrow> root = [] \<and> names cs = []"
proof (cases cs rule: rev_cases)
  case (snoc ds c)
  have n: "names cs = (if \<forall>x \<in> set ds. x = [46, 46] then names [c] else names ds @ [c])"
    unfolding snoc by (rule dropWhile_append)
  show ?thesis
  proof (cases "c = [46, 46]")
    case True
    then have "\<not> canonical c" by (simp add: canonical_def)
    with assms n True snoc show ?thesis by (auto simp: path_ok_def keeps_up_def split: if_splits)
  next
    case False
    with n snoc show ?thesis by (auto simp: keeps_up_def split: if_splits)
  qed
qed (simp add: keeps_up_def)

lemma path_ok_parent:
  assumes "path_ok root cs"
  shows "path_ok root (parent root cs)" "ups (parent root cs) = (if keeps_up root cs then ups cs + 1 else ups cs)"
proof -
  have "path_ok root (parent root cs) \<and> ups (parent root cs) = (if keeps_up root cs then ups cs + 1 else ups cs)"
  proof (cases "keeps_up root cs")
    case True
    then have "root = []" "names cs = []" using keeps_up_names [OF assms] by simp_all
    then have all: "\<forall>c \<in> set cs. c = [46, 46]" by simp
    then have "takeWhile (\<lambda>c. c = [46, 46]) cs = cs" by (simp add: takeWhile_eq_all_conv)
    moreover have "takeWhile (\<lambda>c. c = [46, 46]) (cs @ [[46, 46]]) = cs @ [[46, 46]]"
      using all by (simp add: takeWhile_eq_all_conv)
    ultimately have "names (cs @ [[46, 46]]) = []" "ups (cs @ [[46, 46]]) = ups cs + 1"
      using all by (simp_all only: ups_def) simp_all
    with True \<open>root = []\<close> show ?thesis by (simp add: parent_def path_ok_def)
  next
    case False
    then show ?thesis
      using assms path_ok_last [of root "butlast cs" "last cs"] by (cases "cs = []") (auto simp: parent_def)
  qed
  then show "path_ok root (parent root cs)" "ups (parent root cs) = (if keeps_up root cs then ups cs + 1 else ups cs)"
    by simp_all
qed

lemma render_empty: "path_ok root cs \<Longrightarrow> render root cs = [] \<longleftrightarrow> root = [] \<and> cs = []"
  using path_ok_names by (cases cs rule: rev_cases) (auto simp: render_def join_path_snoc)

lemma render_last: "path_ok root cs \<Longrightarrow> render root cs \<noteq> [] \<Longrightarrow> last (render root cs) = 47 \<longleftrightarrow> cs = []"
proof (cases cs rule: rev_cases)
  case (snoc ds c)
  assume "path_ok root cs"
  with snoc path_ok_names [of root cs c] have "c \<noteq> []" "47 \<notin> set c" by simp_all
  then have "last c \<noteq> 47" by (metis last_in_set)
  with snoc \<open>c \<noteq> []\<close> show ?thesis by (simp add: render_snoc)
qed (auto simp: path_ok_def render_def)

lemma render_nonzero: "path_ok root cs \<Longrightarrow> 0 \<notin> set (render root cs)"
proof -
  assume ok: "path_ok root cs"
  have "(\<And>c. c \<in> set xs \<Longrightarrow> 0 \<notin> set c) \<Longrightarrow> 0 \<notin> set (join_path xs)" for xs
    by (induction xs rule: join_path.induct) auto
  then show ?thesis using ok path_ok_names [OF ok] by (auto simp: render_def path_ok_def)
qed

text \<open>A path begins with a slash exactly where it has a root.\<close>

lemma render_hd: "path_ok root cs \<Longrightarrow> render root cs \<noteq> [] \<Longrightarrow> hd (render root cs) = 47 \<longleftrightarrow> root \<noteq> []"
proof (cases cs)
  case (Cons c ds)
  assume "path_ok root cs"
  with Cons path_ok_names [of root cs c] have "c \<noteq> []" "47 \<notin> set c" by simp_all
  then have "hd c \<noteq> 47" by (metis hd_in_set)
  moreover have "hd (join_path (c # ds)) = hd c" using \<open>c \<noteq> []\<close> by (cases ds) simp_all
  ultimately show ?thesis using Cons \<open>path_ok root cs\<close> by (auto simp: render_def path_ok_def)
qed (auto simp: path_ok_def render_def)

text \<open>The length of the two dots at the front.\<close>

lemma join_path_append: "xs \<noteq> [] \<Longrightarrow> ys \<noteq> [] \<Longrightarrow> join_path (xs @ ys) = join_path xs @ 47 # join_path ys"
proof (induction xs rule: join_path.induct)
  case (2 c)
  then show ?case by (cases ys) simp_all
qed simp_all

lemma length_join_ups: "length (join_path (replicate n [46, 46])) = 3 * n - 1"
proof (induction n)
  case (Suc n)
  then show ?case by (cases n) simp_all
qed simp

lemma length_join_names:
  assumes "ds \<noteq> []"
  shows "length (join_path (replicate n [46, 46] @ ds)) = 3 * n + length (join_path ds)"
    "drop (3 * n) (join_path (replicate n [46, 46] @ ds)) = join_path ds"
proof -
  have "join_path (replicate n [46, 46] @ ds) = (if n = 0 then [] else join_path (replicate n [46, 46]) @ [47]) @ join_path ds"
    using assms join_path_append [of "replicate n [46, 46]" ds] by simp
  moreover have "length (if n = 0 then [] else join_path (replicate n [46, 46]) @ [47 :: byte]) = 3 * n"
    by (simp add: length_join_ups)
  ultimately show "length (join_path (replicate n [46, 46] @ ds)) = 3 * n + length (join_path ds)"
    "drop (3 * n) (join_path (replicate n [46, 46] @ ds)) = join_path ds" by simp_all
qed

lemma keeps_up_length:
  assumes ok: "path_ok root cs"
  shows "length (render root cs) \<le> 3 * ups cs \<longleftrightarrow> keeps_up root cs"
proof (cases "root = []")
  case False
  then have "ups cs = 0" "render root cs \<noteq> []" using ok ups_canonical render_empty [OF ok] by (auto simp: path_ok_def)
  with False show ?thesis by (simp add: keeps_up_def)
next
  case True
  have r: "render root cs = join_path (replicate (ups cs) [46, 46] @ names cs)" using True ups_names [of cs] by (simp add: render_def)
  show ?thesis
  proof (cases "names cs = []")
    case True
    then have "render root cs = join_path (replicate (ups cs) [46, 46])" using r by (simp only: append_Nil2)
    then have "length (render root cs) \<le> 3 * ups cs" by (simp only: length_join_ups)
    with True \<open>root = []\<close> show ?thesis unfolding keeps_up_names [OF ok] by blast
  next
    case False
    then have "names cs ! 0 \<in> set cs" by (metis length_greater_0_conv nth_mem set_dropWhileD)
    then have "join_path (names cs) \<noteq> []" using path_ok_names [OF ok] False
      by (cases "names cs" rule: join_path.cases) auto
    then have "length (render root cs) > 3 * ups cs" unfolding r length_join_names(1) [OF False] by simp
    with False show ?thesis unfolding keeps_up_names [OF ok] by simp
  qed
qed

text \<open>What was reached is no link: every prefix of the result was read as one that is none.\<close>

definition no_link_prefix :: "file_system \<Rightarrow> byte list \<Rightarrow> byte list list \<Rightarrow> bool" where
  "no_link_prefix fs root cs \<longleftrightarrow>
     (\<forall>n < length cs. cs ! n \<noteq> [46, 46] \<longrightarrow> (\<exists>k. fs k (render root (take (Suc n) cs)) = Inl EINVAL))"

lemma resolves_no_link:
  "resolves fs root cs ds root' cs' \<Longrightarrow> no_link_prefix fs root cs \<Longrightarrow> no_link_prefix fs root' cs'"
proof (induction rule: resolves.induct)
  case (resolves_up root cs ds root' cs')
  have "take (Suc n) (parent root cs) = take (Suc n) cs \<and> parent root cs ! n = cs ! n"
    if "n < length (parent root cs)" "parent root cs ! n \<noteq> [46, 46]" for n
    using that by (auto simp: parent_def nth_append nth_butlast butlast_conv_take min_def split: if_splits)
  moreover have "n < length cs" if "n < length (parent root cs)" "parent root cs ! n \<noteq> [46, 46]" for n
    using that by (auto simp: parent_def nth_append split: if_splits)
  ultimately have "no_link_prefix fs root (parent root cs)"
    using resolves_up.prems unfolding no_link_prefix_def by metis
  then show ?case by (rule resolves_up.IH)
next
  case (resolves_name c k root cs ds root' cs')
  have "no_link_prefix fs root (cs @ [c])"
    using resolves_name.prems resolves_name.hyps(2) by (auto simp: no_link_prefix_def less_Suc_eq nth_append)
  then show ?case by (rule resolves_name.IH)
qed (auto simp: no_link_prefix_def)

text \<open>Where the file system does not change, there is at most one result.\<close>

definition unchanging :: "file_system \<Rightarrow> bool" where
  "unchanging fs \<longleftrightarrow> (\<forall>j k path. fs j path = fs k path)"

inductive_simps resolves_Nil: "resolves fs root cs [] root' cs'"
inductive_simps resolves_Cons: "resolves fs root cs (c # ds) root' cs'"

lemma resolves_canonical:
  assumes "canonical c"
  shows "resolves fs root cs (c # ds) root' cs' \<longleftrightarrow>
      (\<exists>k. fs k (render root (cs @ [c])) = Inl EINVAL) \<and> resolves fs root (cs @ [c]) ds root' cs'
      \<or> (\<exists>k t. fs k (render root (cs @ [c])) = Inr t \<and> t \<noteq> []
          \<and> (if is_absolute t then resolves fs (root_of t) [] (components t @ ds) root' cs'
             else resolves fs root cs (components t @ ds) root' cs'))"
proof -
  have "c \<noteq> [46]" "c \<noteq> [46, 46]" using assms by (simp_all add: canonical_def)
  moreover have "is_absolute t \<Longrightarrow> t \<noteq> []" for t by (simp add: is_absolute_def)
  ultimately show ?thesis using assms by (subst resolves_Cons) (simp, metis)
qed

lemma resolves_unique:
  assumes "unchanging fs"
  shows "resolves fs root cs ds r1 c1 \<Longrightarrow> resolves fs root cs ds r2 c2 \<Longrightarrow> r1 = r2 \<and> c1 = c2"
proof (induction arbitrary: r2 c2 rule: resolves.induct)
  case (resolves_name c k root cs ds root' cs')
  have "fs j (render root (cs @ [c])) = Inl EINVAL" for j
    using resolves_name.hyps(2) assms unfolding unchanging_def by metis
  with resolves_name.prems resolves_name.IH [of r2 c2] show ?case by (simp add: resolves_canonical [OF resolves_name.hyps(1)])
next
  case (resolves_absolute c k root cs t ds root' cs')
  have "fs j (render root (cs @ [c])) = Inr t" for j
    using resolves_absolute.hyps(2) assms unfolding unchanging_def by metis
  with resolves_absolute.prems resolves_absolute.IH [of r2 c2] resolves_absolute.hyps(3) show ?case
    by (simp add: resolves_canonical [OF resolves_absolute.hyps(1)])
next
  case (resolves_relative c k root cs t ds root' cs')
  have "fs j (render root (cs @ [c])) = Inr t" for j
    using resolves_relative.hyps(2) assms unfolding unchanging_def by metis
  with resolves_relative.prems resolves_relative.IH [of r2 c2] resolves_relative.hyps(4) show ?case
    by (simp add: resolves_canonical [OF resolves_relative.hyps(1)])
qed (auto simp: resolves_Nil resolves_Cons canonical_def)

end
