(* ===== verification/Realpath_Refines.thy ===== *)
theory Realpath_Refines
  imports Realpath_Spec
begin

text \<open>
  The loop of \<open>realpath\<close> on its two arrays refines \<open>resolves\<close>: the rest of the path at the end of the stack and the output
  are strings, a round takes one component off the first and changes the second as one rule of the relation.
\<close>

section \<open>The two arrays as strings\<close>

definition rest_of :: "realpath_state \<Rightarrow> byte list \<Rightarrow> bool" where
  "rest_of s r \<longleftrightarrow> drop (rp_p s) (rp_stack s) = map Some r @ [Some 0] \<and> 0 \<notin> set r"

definition out_of :: "realpath_state \<Rightarrow> byte list \<Rightarrow> byte list list \<Rightarrow> bool" where
  "out_of s root cs \<longleftrightarrow> take (rp_q s) (rp_output s) = map Some (render root cs) \<and> rp_q s = length (render root cs)
     \<and> rp_pending_up s = ups cs \<and> path_ok root cs"

definition path_view :: "realpath_state \<Rightarrow> byte list \<Rightarrow> byte list \<Rightarrow> byte list list \<Rightarrow> bool" where
  "path_view s r root cs \<longleftrightarrow> rest_of s r \<and> (is_absolute r \<or> out_of s root cs)"

definition denotes :: "file_system \<Rightarrow> byte list \<Rightarrow> byte list \<Rightarrow> byte list list \<Rightarrow> byte list \<Rightarrow> byte list list \<Rightarrow> bool" where
  "denotes fs r root cs root' cs' \<longleftrightarrow>
     (if is_absolute r then resolves fs (root_of r) [] (components r) root' cs'
      else resolves fs root cs (components r) root' cs')"

lemma out_of_same:
  "rp_q s' = rp_q s \<Longrightarrow> take (rp_q s) (rp_output s') = take (rp_q s) (rp_output s) \<Longrightarrow> rp_pending_up s' = rp_pending_up s \<Longrightarrow>
   out_of s' root cs = out_of s root cs"
  by (simp only: out_of_def)

text \<open>A round that goes on: what the new state denotes, the old one does.\<close>

definition carried :: "file_system \<Rightarrow> byte list \<Rightarrow> byte list \<Rightarrow> byte list list \<Rightarrow> step_result \<Rightarrow> bool" where
  "carried fs r root cs res \<longleftrightarrow>
     (case res of
        Again s' \<Rightarrow> \<exists>r' root1 cs1. path_view s' r' root1 cs1
          \<and> (\<forall>root' cs'. denotes fs r' root1 cs1 root' cs' \<longrightarrow> denotes fs r root cs root' cs')
      | Leave s' \<Rightarrow> out_of s' root cs \<and> r = []
      | Fail e \<Rightarrow> True)"

lemma rest_read:
  assumes "drop p stack = map Some r @ [Some 0]" "i \<le> length r"
  shows "read_at stack (p + i) = Done ((r @ [0]) ! i)" "stack ! (p + i) = Some ((r @ [0]) ! i)" "p + i < length stack"
proof -
  have "length (drop p stack) = length r + 1" using assms(1) by simp
  then show l: "p + i < length stack" using assms(2) by simp
  have "drop p stack ! i = Some ((r @ [0]) ! i)" using assms by (simp add: nth_append)
  then show "stack ! (p + i) = Some ((r @ [0]) ! i)" using l by simp
  then show "read_at stack (p + i) = Done ((r @ [0]) ! i)" using l by (simp add: read_at_def)
qed

lemma rest_later:
  assumes "drop p stack = map Some r @ [Some 0]" "n \<le> length r"
  shows "drop (p + n) stack = map Some (drop n r) @ [Some 0]"
proof -
  have "drop (p + n) stack = drop n (drop p stack)" by (simp add: add.commute)
  with assms show ?thesis by (simp add: drop_map)
qed

lemma slash_len_string: "ao_slash_len (map Some r @ [Some 0]) = Done (length (takeWhile (\<lambda>x. x = 47) r))"
  by (induction r) auto

lemma strchrnul_string: "0 \<notin> set r \<Longrightarrow> ao_strchrnul (map Some r @ [Some 0]) 47 = Done (length (takeWhile (\<lambda>x. x \<noteq> 47) r))"
  by (induction r) auto

lemma next_round_view:
  assumes "rest_of s r" "out_of s root cs" "next_round s = Done x"
  obtains s' where "x = Again s'" "path_view s' (dropWhile (\<lambda>c. c = 47) r) root cs"
proof -
  let ?n = "length (takeWhile (\<lambda>c. c = 47) r)"
  have r: "drop (rp_p s) (rp_stack s) = map Some r @ [Some 0]" "0 \<notin> set r" using assms(1) by (simp_all add: rest_of_def)
  then have "x = Again (s\<lparr>rp_p := rp_p s + ?n\<rparr>)" using assms(3) by (simp add: next_round_def slash_len_string)
  moreover have "rest_of (s\<lparr>rp_p := rp_p s + ?n\<rparr>) (dropWhile (\<lambda>c. c = 47) r)"
    using rest_later [OF r(1), of ?n] r(2) by (auto simp: rest_of_def dropWhile_eq_drop length_takeWhile_le dest: in_set_dropD)
  moreover have "out_of (s\<lparr>rp_p := rp_p s + ?n\<rparr>) root cs"
    using assms(2) out_of_same [of "s\<lparr>rp_p := rp_p s + ?n\<rparr>" s] by simp
  ultimately show ?thesis using that by (simp add: path_view_def)
qed

text \<open>After a component, with the output of the next directory.\<close>

lemma next_round_carried:
  assumes "rest_of s' r'" "out_of s' root1 cs1" "next_round s' = Done x"
    and "\<And>root' cs'. resolves fs root1 cs1 (components r') root' cs' \<Longrightarrow> denotes fs r root cs root' cs'"
  shows "carried fs r root cs x"
proof -
  let ?r = "dropWhile (\<lambda>c. c = 47) r'"
  obtain s'' where s'': "x = Again s''" "path_view s'' ?r root1 cs1"
    using next_round_view [OF assms(1-3)] .
  have "\<not> is_absolute ?r" using hd_dropWhile [of "\<lambda>c. c = 47" r'] by (auto simp: is_absolute_def)
  then have "denotes fs ?r root1 cs1 root' cs' = resolves fs root1 cs1 (components r') root' cs'" for root' cs'
    by (simp add: denotes_def)
  then have "\<forall>root' cs'. denotes fs ?r root1 cs1 root' cs' \<longrightarrow> denotes fs r root cs root' cs'" using assms(4) by simp
  with s''(2) show ?thesis unfolding carried_def s''(1) step_result.case by blast
qed

lemma root_step_carried:
  assumes ok: "realpath_ok s" and r: "rest_of s r" "is_absolute r" and x: "root_step s = Done x"
  shows "carried fs r root cs x"
proof -
  obtain r1 where r1: "r = 47 # r1" using r(2) by (cases r) (auto simp: is_absolute_def)
  have st: "drop (rp_p s) (rp_stack s) = map Some r @ [Some 0]" "0 \<notin> set r" using r(1) by (simp_all add: rest_of_def)
  define two where "two \<longleftrightarrow> root_of r = [47, 47]"
  have c1: "read_at (rp_stack s) (rp_p s + 1) = Done ((r1 @ [0]) ! 0)"
    using rest_read(1) [OF st(1), of 1] r1 by simp
  have two: "(if (r1 @ [0]) ! 0 = 47 then obind (read_at (rp_stack s) (rp_p s + 1 + 1)) (\<lambda>c2. Done (c2 \<noteq> 47)) else Done False) = Done two"
  proof (cases r1)
    case (Cons b r2)
    have c2: "read_at (rp_stack s) (rp_p s + 1 + 1) = Done ((r2 @ [0]) ! 0)"
      using rest_read(1) [OF st(1), of 2] r1 Cons by simp
    have "root_of r = [47, 47] \<longleftrightarrow> b = 47 \<and> (r2 @ [0]) ! 0 \<noteq> 47"
      unfolding r1 Cons root_of_def by (cases r2) simp_all
    then show ?thesis using Cons c2 by (simp add: two_def)
  qed (simp add: two_def r1 root_of_def)
  have len: "length (rp_output s) = 4096" using ok by (simp add: realpath_ok_def)
  let ?o1 = "overwrite 0 [Some 47] (rp_output s)"
  let ?o = "if two then overwrite 1 [Some 47] ?o1 else ?o1"
  let ?s = "s\<lparr>rp_p := rp_p s + 1, rp_q := (if two then 2 else 1), rp_output := ?o, rp_check_dir := False, rp_pending_up := 0\<rparr>"
  have o: "(if two then put_cells ?o1 1 [Some 47] else Done ?o1) = Done ?o" using len by (simp add: put_cells_def)
  have o1: "put_cells (rp_output s) 0 [Some 47] = Done ?o1" using len by (simp add: put_cells_def)
  have nr: "next_round ?s = Done x"
    using x unfolding root_step_def Let_def o1 obind.simps c1 two o .
  have ro: "rest_of ?s r1" using rest_later [OF st(1), of 1] st(2) r1 by (simp add: rest_of_def)
  have oo: "out_of ?s (root_of r) []"
  proof -
    have "root_of r = (if two then [47, 47] else [47])" by (auto simp: two_def root_of_def)
    moreover have "take (if two then 2 else 1) ?o = map Some (if two then [47, 47] else [47])"
      using len take_overwrite_end [of 0 "rp_output s" "[Some 47]"] take_overwrite_end [of 1 ?o1 "[Some 47]"]
      by (simp add: numeral_2_eq_2)
    ultimately show ?thesis using path_ok_root(1) [of r] by (simp add: out_of_def render_def)
  qed
  show ?thesis
    by (rule next_round_carried [OF ro oo nr]) (use r1 r(2) in \<open>simp add: denotes_def\<close>)
qed

section \<open>A component\<close>

lemma drop_overwrite_at: "off \<le> length bs \<Longrightarrow> drop off (overwrite off new bs) = new @ drop (off + length new) bs"
  by (simp add: overwrite_def)

text \<open>\<open>separator cs\<close> comes between the path of \<open>cs\<close> and the next component.\<close>

definition separator :: "byte list list \<Rightarrow> byte list" where
  "separator cs = (if cs = [] then [] else [47])"

lemma append_step_bytes:
  assumes ok: "realpath_ok s" and r: "drop (rp_p s) (rp_stack s) = map Some r @ [Some 0]" "n \<le> length r"
    and x: "append_step n sep s = Done (Inl (len, s'))"
  shows "take (rp_q s + len) (rp_output s') = take (rp_q s) (rp_output s) @ (if sep then [Some 47] else []) @ map Some (take n r)"
proof -
  have st: "length (rp_stack s) = 4097" "rp_p s \<le> 4096" and len: "length (rp_output s) = 4096"
    using ok by (simp_all add: realpath_ok_def stack_ok_def)
  define stack where "stack = (if sep then overwrite (rp_p s - 1) [Some 47] (rp_stack s) else rp_stack s)"
  let ?p = "if sep then rp_p s - 1 else rp_p s" and ?n = "if sep then n + 1 else n"
  have p: "\<not> (sep \<and> rp_p s = 0)"
  proof
    assume z: "sep \<and> rp_p s = 0"
    show False using x unfolding append_step_def if_P [OF z] by simp
  qed
  have eq: "(if sep then put_cells (rp_stack s) (rp_p s - 1) [Some 47] else Done (rp_stack s)) = Done stack"
    using p st by (simp add: stack_def put_cells_def)
  have sl: "length stack = 4097" using p st by (simp add: stack_def)
  let ?new = "take ?n (drop ?p stack)"
  have new: "?new = (if sep then [Some 47] else []) @ map Some (take n r)"
    using p st r by (auto simp: stack_def drop_overwrite_at take_map)
  have q: "\<not> rp_q s + ?n \<ge> PATH_MAX"
    using x p unfolding append_step_def if_not_P [OF p] eq obind.simps Let_def by (auto split: if_splits)
  have fit: "?p + ?n \<le> length stack"
    using x q unfolding append_step_def if_not_P [OF p] eq obind.simps Let_def if_not_P [OF q]
    by (auto simp: read_cells_def split: if_splits)
  have "length ?new = ?n" using fit by simp
  then have "put_cells (rp_output s) (rp_q s) ?new = Done (overwrite (rp_q s) ?new (rp_output s))"
    using q len by (simp add: put_cells_def PATH_MAX_def)
  moreover have "put_cells (overwrite (rp_q s) ?new (rp_output s)) (rp_q s + ?n) [Some 0]
      = Done (overwrite (rp_q s + ?n) [Some 0] (overwrite (rp_q s) ?new (rp_output s)))"
    using q len \<open>length ?new = ?n\<close> by (simp add: put_cells_def PATH_MAX_def)
  moreover have "read_cells stack ?p ?n = Done ?new" using fit by (simp add: read_cells_def)
  ultimately have "len = ?n" "rp_output s' = overwrite (rp_q s + ?n) [Some 0] (overwrite (rp_q s) ?new (rp_output s))"
    using x unfolding append_step_def if_not_P [OF p] eq obind.simps Let_def if_not_P [OF q] by auto
  moreover have "take (rp_q s + ?n) (overwrite (rp_q s + ?n) [Some 0] (overwrite (rp_q s) ?new (rp_output s)))
      = take (rp_q s) (rp_output s) @ ?new"
  proof -
    have "rp_q s + ?n \<le> length (overwrite (rp_q s) ?new (rp_output s))"
      using q len \<open>length ?new = ?n\<close> by (simp add: PATH_MAX_def)
    then show ?thesis
      using take_overwrite_end [of "rp_q s" "rp_output s" ?new] q len \<open>length ?new = ?n\<close>
      by (simp add: take_overwrite_below PATH_MAX_def)
  qed
  ultimately show ?thesis unfolding new by simp
qed

text \<open>The state after the component \<open>c\<close> was appended to the output.\<close>

definition comp_view :: "realpath_state \<Rightarrow> byte list \<Rightarrow> byte list \<Rightarrow> byte list list \<Rightarrow> byte list \<Rightarrow> nat \<Rightarrow> bool" where
  "comp_view s r' root cs c len \<longleftrightarrow> rest_of s r' \<and> out_of s root cs \<and> len = length (separator cs @ c)
     \<and> take (rp_q s + len) (rp_output s) = map Some (render root cs @ separator cs @ c)
     \<and> cstring (render root cs @ separator cs @ c) (rp_output s) \<and> length (rp_output s) = 4096
     \<and> length c \<le> rp_p s \<and> length (rp_stack s) = 4097 \<and> rp_p s \<le> 4096"

lemma comp_view_same:
  "drop (rp_p s') (rp_stack s') = drop (rp_p s) (rp_stack s) \<Longrightarrow> rp_output s' = rp_output s \<Longrightarrow> rp_q s' = rp_q s \<Longrightarrow>
   rp_pending_up s' = rp_pending_up s \<Longrightarrow> rp_p s' = rp_p s \<Longrightarrow> length (rp_stack s') = length (rp_stack s) \<Longrightarrow>
   comp_view s' r root cs c len = comp_view s r root cs c len"
  by (simp only: comp_view_def rest_of_def out_of_def)

lemma append_step_view:
  assumes ok: "realpath_ok s" and r: "rest_of s r" "\<not> is_absolute r" and o: "out_of s root cs"
    and c: "c = takeWhile (\<lambda>x. x \<noteq> 47) r" and x: "append_step (length c) (cs \<noteq> []) s = Done (Inl (len, s'))"
  shows "comp_view s' (dropWhile (\<lambda>x. x \<noteq> 47) r) root cs c len"
    and "rp_check_dir s' = rp_check_dir s" "rp_p s' = rp_p s + length c"
    and "\<And>i. i < length c \<Longrightarrow> read_at (rp_stack s') (rp_p s + i) = Done (c ! i)"
proof -
  have st: "drop (rp_p s) (rp_stack s) = map Some r @ [Some 0]" "0 \<notin> set r" using r by (simp_all add: rest_of_def)
  have n: "length c \<le> length r" "take (length c) r = c" "drop (length c) r = dropWhile (\<lambda>x. x \<noteq> 47) r"
    unfolding c by (rule length_takeWhile_le, rule takeWhile_eq_take [symmetric], rule dropWhile_eq_drop [symmetric])
  have cs: "c ! j = r ! j" if "j < length c" for j using that n(2) by (metis nth_take)
  have sub: "set c \<subseteq> set r" using n(2) set_take_subset by metis
  have "length (drop (rp_p s) (rp_stack s)) = length r + 1" using st(1) by simp
  moreover have sl: "length (rp_stack s) = 4097" "rp_p s \<le> 4096" "length (rp_output s) = 4096"
    using ok by (simp_all add: realpath_ok_def stack_ok_def)
  ultimately have pn: "rp_p s + length c \<le> 4096" using n(1) by simp
  have cn: "\<exists>b. rp_stack s ! (rp_p s + j) = Some b \<and> b \<noteq> 0 \<and> b \<noteq> 47" if j: "j < length c" for j
  proof -
    have "rp_stack s ! (rp_p s + j) = Some (c ! j)"
      using rest_read(2) [OF st(1), of j] j n(1) cs [OF j] by (simp add: nth_append)
    moreover have "c ! j \<in> set c" using j by simp
    then have "c ! j \<noteq> 0" "c ! j \<noteq> 47" using sub st(2) takeWhile_neq [of r] c by auto
    ultimately show ?thesis by blast
  qed
  have z: "0 < length c \<or> rp_stack s ! rp_p s = Some 0"
  proof (cases r)
    case Nil
    then show ?thesis using rest_read(2) [OF st(1), of 0] by simp
  next
    case (Cons b r1)
    then show ?thesis using r(2) by (simp add: c is_absolute_def)
  qed
  from wp_DoneD [OF append_step_law [OF ok pn z cn] x]
  have l: "len = of_bool (cs \<noteq> []) + length c" "rp_q s + len < 4096"
      "s' = s\<lparr>rp_stack := rp_stack s', rp_output := rp_output s', rp_p := rp_p s + length c\<rparr>"
      "length (rp_stack s') = 4097" "\<forall>i. rp_p s \<le> i \<longrightarrow> rp_stack s' ! i = rp_stack s ! i"
      "appended (rp_output s) (rp_q s) (cs \<noteq> []) (length c) (rp_output s')"
    by simp_all
  show f: "rp_check_dir s' = rp_check_dir s" "rp_p s' = rp_p s + length c" by (subst l(3), simp)+
  have q: "rp_q s' = rp_q s" "rp_pending_up s' = rp_pending_up s" by (subst l(3), simp)+
  have st': "drop (rp_p s) (rp_stack s') = map Some r @ [Some 0]"
    unfolding st(1) [symmetric] by (rule nth_equalityI) (use l(4,5) sl in simp_all)
  show "read_at (rp_stack s') (rp_p s + i) = Done (c ! i)" if "i < length c" for i
    using rest_read(1) [OF st', of i] that n(1) cs [OF that] by (simp add: nth_append)
  have ap: "take (rp_q s + len) (rp_output s') = take (rp_q s) (rp_output s) @ (if cs \<noteq> [] then [Some 47] else []) @ map Some c"
    using append_step_bytes [OF ok st(1) n(1) x] n(2) by simp
  have ro: "take (rp_q s) (rp_output s) = map Some (render root cs)" "rp_q s = length (render root cs)" "path_ok root cs"
    using o unfolding out_of_def by blast+
  have t: "take (rp_q s + len) (rp_output s') = map Some (render root cs @ separator cs @ c)"
    unfolding ap ro(1) by (simp add: separator_def)
  have ol: "length (rp_output s') = 4096" using l(6) sl(3) by (simp add: appended_def)
  have "take (rp_q s) (rp_output s') = take (rp_q s) (take (rp_q s + len) (rp_output s'))" by simp
  also have "\<dots> = take (rp_q s) (rp_output s)" unfolding ap using ro by simp
  finally have same: "take (rp_q s) (rp_output s') = take (rp_q s) (rp_output s)" .
  have oo: "out_of s' root cs" using o out_of_same [of s' s root cs] q same by simp
  have len: "len = length (separator cs @ c)" using l(1) by (simp add: separator_def)
  have z: "rp_output s' ! (rp_q s + len) = Some 0" using l(1,6) by (simp add: appended_def add.assoc)
  have rest: "rest_of s' (dropWhile (\<lambda>x. x \<noteq> 47) r)"
    using rest_later [OF st' n(1)] f(2) st(2) set_dropWhileD [of 0 "\<lambda>x. x \<noteq> 47" r] unfolding rest_of_def n(3) by auto
  have "0 \<notin> set (render root cs @ separator cs @ c)"
    using render_nonzero [OF ro(3)] sub st(2) by (auto simp: separator_def)
  moreover have "length (render root cs @ separator cs @ c) = rp_q s + len" using ro(2) len by simp
  ultimately have cstr: "cstring (render root cs @ separator cs @ c) (rp_output s')"
    unfolding cstring_def using l(2) ol z t by (simp only: take_Suc_conv_app_nth) simp
  show "comp_view s' (dropWhile (\<lambda>x. x \<noteq> 47) r) root cs c len"
    unfolding comp_view_def using rest oo len t cstr ol f(2) pn l(4) q(1) by simp
qed

lemma is_up_view:
  assumes "\<And>i. i < length c \<Longrightarrow> read_at (rp_stack s) (p + i) = Done (c ! i)" "rp_p s = p + length c"
  shows "is_up (length c) s = Done (c = [46, 46])"
proof (cases "length c = 2")
  case True
  then obtain a b where c: "c = [a, b]" by (auto simp: numeral_2_eq_2 length_Suc_conv)
  have "read_at (rp_stack s) p = Done a" "read_at (rp_stack s) (p + 1) = Done b"
    using assms(1) [of 0] assms(1) [of 1] c by simp_all
  then show ?thesis using assms(2) c by (simp add: is_up_def)
next
  case False
  then show ?thesis by (auto simp: is_up_def)
qed

section \<open>Going up\<close>

lemma take_snocD:
  assumes "take (Suc n) out = xs @ [x]" "length xs = n"
  shows "n < length out" "out ! n = x" "take n out = xs"
proof -
  have "length (take (Suc n) out) = Suc n" using assms by simp
  then show "n < length out" by simp
  have "take (Suc n) out ! n = x" using assms by (simp add: nth_append)
  then show "out ! n = x" by simp
  have "take n (take (Suc n) out) = xs" using assms by simp
  then show "take n out = xs" by (simp add: take_take)
qed

lemma pop_loop_string:
  assumes "take (length (a @ b)) out = map Some (a @ b)" "47 \<notin> set b" "a = [] \<or> last a = 47"
  shows "pop_loop out (length (a @ b)) = Done (length a)"
  using assms(1,2)
proof (induction b rule: rev_induct)
  case Nil
  show ?case
  proof (cases "a = []")
    case False
    then obtain a' where a: "a = a' @ [47]" using assms(3) by (metis append_butlast_last_id)
    then have "take (Suc (length a')) out = map Some a' @ [Some 47]" using Nil by simp
    from take_snocD [OF this] show ?thesis by (simp add: a read_at_def)
  qed simp
next
  case (snoc x b)
  have "take (Suc (length (a @ b))) out = map Some (a @ b) @ [Some x]" using snoc.prems(1) by simp
  from take_snocD [OF this] have n: "length (a @ b) < length out" "out ! length (a @ b) = Some x"
      "take (length (a @ b)) out = map Some (a @ b)" by simp_all
  have "pop_loop out (length (a @ b)) = Done (length a)" using snoc.IH [OF n(3)] snoc.prems(2) by simp
  with n(1,2) snoc.prems(2) show ?case by (simp add: read_at_def)
qed

lemma pop_component_string:
  assumes ok: "path_ok root cs" and nk: "\<not> keeps_up root cs"
    and t: "take (length (render root cs)) out = map Some (render root cs)"
  shows "pop_component out (length (render root cs)) = Done (length (render root (butlast cs)))"
proof -
  define a c where "a = (if cs = [] then root else render root (butlast cs) @ separator (butlast cs))"
    and "c = (if cs = [] then [] else last cs)"
  have ac: "render root cs = a @ c"
    using render_snoc [of root "butlast cs" "last cs"] by (cases "cs = []") (simp_all add: a_def c_def separator_def render_def)
  have bok: "path_ok root (butlast cs)"
    using path_ok_parent(1) [OF ok] nk by (simp add: parent_def)
  have root: "root = [47] \<or> root = [47, 47] \<or> root = []" using ok by (auto simp: path_ok_def)
  have ne: "render root cs \<noteq> []" using nk by (simp add: render_empty [OF ok] keeps_up_def)
  have a: "a = [] \<or> last a = 47"
    using render_last [OF bok] root by (cases "render root (butlast cs) = []") (auto simp: a_def separator_def render_empty [OF bok] render_def [of "[]" "[]"])
  have "47 \<notin> set c" using path_ok_names [OF ok] by (cases "cs = []") (simp_all add: c_def)
  then have pl: "pop_loop out (length (render root cs)) = Done (length a)"
    using pop_loop_string [OF _ _ a] t unfolding ac by blast
  have o0: "read_at out 0 = Done (hd (render root cs))"
  proof -
    have "take (length (render root cs)) out ! 0 = Some (hd (render root cs))" unfolding t using ne by (simp add: hd_conv_nth)
    moreover have "length (take (length (render root cs)) out) = length (render root cs)" unfolding t by simp
    moreover have "0 < length (render root cs)" using ne by simp
    ultimately have "0 < length out" "out ! 0 = Some (hd (render root cs))"
      by (auto simp del: length_greater_0_conv)
    then show ?thesis by (simp add: read_at_def)
  qed
  have h: "hd (render root cs) = 47 \<longleftrightarrow> root \<noteq> []" by (rule render_hd [OF ok ne])
  show ?thesis
  proof (cases "butlast cs = []")
    case True
    have "length a = 0 \<and> root = [] \<or> length a = 1 \<or> length a = 2 \<and> root \<noteq> []" "length (render root (butlast cs)) = length a"
      using root nk True by (auto simp: a_def separator_def render_def keeps_up_def)
    with pl o0 h show ?thesis by (auto simp: pop_component_def)
  next
    case False
    then have cs: "cs \<noteq> []" by auto
    have rn: "render root (butlast cs) \<noteq> []" using False by (simp add: render_empty [OF bok])
    have la: "length a = length (render root (butlast cs)) + 1" using False cs by (simp add: a_def separator_def)
    have "length a > 2 \<or> root = []"
    proof (cases "root = []")
      case False
      obtain ds d where ds: "butlast cs = ds @ [d]" using \<open>butlast cs \<noteq> []\<close> by (cases "butlast cs" rule: rev_cases) auto
      then have "d \<noteq> []" using path_ok_names [OF bok, of d] by simp
      then have "length (render root (butlast cs)) \<ge> 2"
        using False root unfolding ds by (cases d) (auto simp: render_snoc, simp_all add: render_def)
      with la show ?thesis by simp
    qed simp
    with pl la rn o0 h show ?thesis by (auto simp: pop_component_def)
  qed
qed

text \<open>After a component that is no link, or two dots.\<close>

lemma skip_readlink_carried:
  assumes v: "comp_view s r' root cs c len" and x: "skip_readlink (c = [46, 46]) (length c) len s = Done x"
    and nk: "c = [46, 46] \<Longrightarrow> \<not> keeps_up root cs"
    and up: "c = [46, 46] \<Longrightarrow> (\<And>root' cs'. resolves fs root (parent root cs) (components r') root' cs' \<Longrightarrow> denotes fs r root cs root' cs')"
    and name: "c \<noteq> [46, 46] \<Longrightarrow> c \<noteq> [] \<Longrightarrow> canonical c
      \<and> (\<forall>root' cs'. resolves fs root (cs @ [c]) (components r') root' cs' \<longrightarrow> denotes fs r root cs root' cs')"
    and none: "c = [] \<Longrightarrow> (\<And>root' cs'. resolves fs root cs (components r') root' cs' \<Longrightarrow> denotes fs r root cs root' cs')"
  shows "carried fs r root cs x"
proof -
  have o: "take (rp_q s) (rp_output s) = map Some (render root cs)" "rp_q s = length (render root cs)" "rp_pending_up s = ups cs"
      "path_ok root cs" and rest: "rest_of s r'" and len: "len = length (separator cs @ c)"
      and t: "take (rp_q s + len) (rp_output s) = map Some (render root cs @ separator cs @ c)"
    using v unfolding comp_view_def out_of_def by blast+
  show ?thesis
  proof (cases "c = [46, 46]")
    case True
    let ?q = "length (render root (butlast cs))"
    let ?s = "s\<lparr>rp_check_dir := False, rp_q := ?q\<rparr>"
    have par: "parent root cs = butlast cs" "path_ok root (butlast cs)" "ups (butlast cs) = ups cs"
      using path_ok_parent [OF o(4)] nk [OF True] by (simp_all add: parent_def)
    have pop: "pop_component (rp_output s) (rp_q s) = Done ?q"
      using pop_component_string [OF o(4) nk [OF True], of "rp_output s"] o(1) unfolding o(2) .
    have nr: "next_round ?s = Done x" using x True pop by (simp add: skip_readlink_def)
    have "rest_of ?s r'" using rest by (simp add: rest_of_def)
    moreover have "out_of ?s root (parent root cs)"
    proof -
      obtain tl where tl: "render root cs = render root (butlast cs) @ tl"
        using render_snoc [of root "butlast cs" "last cs"] by (cases "cs = []") (simp_all add: append_butlast_last_id)
      have "take ?q (rp_output s) = take ?q (take (rp_q s) (rp_output s))" unfolding o(2) tl by (simp add: take_take)
      also have "\<dots> = map Some (render root (butlast cs))" unfolding o(1) tl by simp
      finally show ?thesis using o(3) par by (simp add: out_of_def)
    qed
    ultimately show ?thesis using nr up [OF True] by (rule next_round_carried)
  next
    case False
    have "\<exists>b. next_round (s\<lparr>rp_q := (if length c \<noteq> 0 then rp_q s + len else rp_q s), rp_check_dir := b\<rparr>) = Done x"
      using x False by (auto simp: skip_readlink_def obind_eq_Done)
    then obtain b where nr: "next_round (s\<lparr>rp_q := (if length c \<noteq> 0 then rp_q s + len else rp_q s), rp_check_dir := b\<rparr>) = Done x" ..
    let ?s = "s\<lparr>rp_q := (if length c \<noteq> 0 then rp_q s + len else rp_q s), rp_check_dir := b\<rparr>"
    have rest': "rest_of ?s r'" using rest by (simp add: rest_of_def)
    show ?thesis
    proof (cases "c = []")
      case True
      have "out_of ?s root cs" using o True by (simp add: out_of_def)
      from next_round_carried [OF rest' this nr none] True show ?thesis by blast
    next
      case ne: False
      then have cn: "canonical c" and
          fin: "\<And>root' cs'. resolves fs root (cs @ [c]) (components r') root' cs' \<Longrightarrow> denotes fs r root cs root' cs'"
        using name False by blast+
      have rd: "render root (cs @ [c]) = render root cs @ separator cs @ c" by (simp add: render_snoc separator_def)
      have "out_of ?s root (cs @ [c])"
        using t o(2,3) len ne path_ok_snoc [OF o(4) cn] unfolding out_of_def rd by simp
      from next_round_carried [OF rest' this nr fin] show ?thesis .
    qed
  qed
qed

section \<open>A link\<close>

lemma follow_link_carried:
  assumes v: "comp_view s r' root cs c len" and t: "rp_stack s = overwrite 0 (map Some t) stack0" "t \<noteq> []" "length t < rp_p s"
      "length stack0 = 4097" "0 \<notin> set t" and r': "r' = [] \<or> hd r' = 47"
    and x: "follow_link (length t) s = Done x"
    and den: "\<And>root' cs'. (if is_absolute t then resolves fs (root_of t) [] (components t @ components r') root' cs'
      else resolves fs root cs (components t @ components r') root' cs') \<Longrightarrow> denotes fs r root cs root' cs'"
  shows "carried fs r root cs x"
proof -
  have rest: "drop (rp_p s) (rp_stack s) = map Some r' @ [Some 0]" "0 \<notin> set r'"
    using v unfolding comp_view_def rest_of_def by blast+
  have o: "out_of s root cs" and p: "rp_p s \<le> 4096" and sl: "length (rp_stack s) = 4097"
    using v unfolding comp_view_def by blast+
  have tk: "take (length t) (rp_stack s) = map Some t" unfolding t(1) by (simp add: overwrite_def)
  have "take (length t) (rp_stack s) ! (length t - 1) = Some (last t)" unfolding tk using t(2) by (simp add: last_conv_nth)
  then have lst: "read_at (rp_stack s) (length t - 1) = Done (last t)" using t(2,3) sl p by (simp add: read_at_def)
  define r'' where "r'' = (if last t = 47 then dropWhile (\<lambda>c. c = 47) r' else r')"
  define n where "n = (if last t = 47 then length (takeWhile (\<lambda>c. c = 47) r') else 0)"
  have n: "(if last t = 47 then ao_slash_len (drop (rp_p s) (rp_stack s)) else Done 0) = Done n"
    by (simp add: n_def rest slash_len_string)
  have r'': "drop n r' = r''" "n \<le> length r'" by (simp_all add: n_def r''_def dropWhile_eq_drop length_takeWhile_le)
  have "length (drop (rp_p s) (rp_stack s)) = length r' + 1" using rest(1) by simp
  then have pn: "rp_p s + n \<le> 4096" using r''(2) sl by simp
  let ?p = "size_sub (rp_p s + n) (length t)"
  have pe: "?p + length t = rp_p s + n" using t(3) by simp
  have rd: "read_cells (rp_stack s) 0 (length t) = Done (map Some t)" using tk t(3) p sl by (simp add: read_cells_def)
  let ?stack = "overwrite ?p (map Some t) (rp_stack s)"
  have put: "put_cells (rp_stack s) ?p (map Some t) = Done ?stack" using pe pn sl by (simp add: put_cells_def)
  let ?s = "s\<lparr>rp_loop_count := rp_loop_count s + 1\<rparr>"
  show ?thesis
  proof (cases "rp_loop_count ?s = SYMLOOP_MAX")
    case True
    then show ?thesis using x by (auto simp: follow_link_def carried_def)
  next
    case False
    let ?s' = "?s\<lparr>rp_p := ?p, rp_stack := ?stack\<rparr>"
    have x': "x = Again ?s'"
      using x False lst n rd put unfolding follow_link_def Let_def if_not_P [OF False]
      by (simp cong: if_cong)
    have "?p \<le> length (rp_stack s)" using pe pn sl by linarith
    then have "drop ?p ?stack = map Some t @ drop (rp_p s + n) (rp_stack s)"
      using pe by (simp add: drop_overwrite_at)
    also have "\<dots> = map Some (t @ r'') @ [Some 0]" using rest_later [OF rest(1) r''(2)] r''(1) by simp
    finally have "rest_of ?s' (t @ r'')" using t(5) rest(2) r''(1) by (auto simp: rest_of_def dest: in_set_dropD)
    moreover have "out_of ?s' root cs" using o out_of_same [of ?s' s root cs] by simp
    moreover have "denotes fs r root cs root' cs'" if d: "denotes fs (t @ r'') root cs root' cs'" for root' cs'
    proof -
      have rr: "r'' = [] \<or> hd r'' \<noteq> 47" if "last t = 47"
        using hd_dropWhile [of "\<lambda>c. c = 47" r'] that by (auto simp: r''_def)
      have rs: "r'' = [] \<or> hd r'' = 47" if "last t \<noteq> 47" using r' that by (simp add: r''_def)
      have "components (t @ r'') = components t @ components r''"
        using rs by (intro components_append) auto
      moreover have "components r'' = components r'" by (simp add: r''_def)
      moreover have "is_absolute (t @ r'') = is_absolute t" using t(2) by (simp add: is_absolute_def)
      moreover have "root_of (t @ r'') = root_of t" if "is_absolute t"
        using that rr rs by (intro root_of_append) (auto simp: is_absolute_def)
      ultimately show ?thesis using d by (intro den) (simp add: denotes_def split: if_splits)
    qed
    ultimately show ?thesis unfolding carried_def x' step_result.case path_view_def by blast
  qed
qed

lemma render_separator_last:
  assumes ok: "path_ok root cs" and ne: "root \<noteq> [] \<or> cs \<noteq> []"
  shows "\<exists>d. render root cs @ separator cs = d @ [47]"
proof -
  have "render root cs \<noteq> []" using ne by (simp add: render_empty [OF ok])
  then have "render root cs @ separator cs \<noteq> []" "last (render root cs @ separator cs) = 47"
    using render_last [OF ok] by (auto simp: separator_def)
  then show ?thesis by (metis append_butlast_last_id)
qed

lemma denotes_component:
  assumes "r = c @ r'" "c \<noteq> []" "47 \<notin> set c" "r' = [] \<or> hd r' = 47"
  shows "denotes fs r root cs root' cs' = resolves fs root cs (c # components r') root' cs'"
proof -
  have "\<not> is_absolute r" using assms(1-3) by (cases c) (auto simp: is_absolute_def)
  then show ?thesis using components_cut [OF assms(3,2,4)] by (simp add: denotes_def assms(1))
qed

text \<open>The four rules for a component, as the code sees them.\<close>

lemma link_step_carried:
  assumes v: "comp_view s r' root cs c len" and fs: "readlink_contract fs" and r': "r' = [] \<or> hd r' = 47"
    and c: "c = [] \<or> c = [46, 46] \<or> canonical c" "c = [] \<Longrightarrow> r' = []" and nk: "c = [46, 46] \<Longrightarrow> \<not> keeps_up root cs"
    and r: "r = c @ r'" and x: "link_step fs (c = [46, 46]) (length c) len s = Done x"
  shows "carried fs r root cs x"
proof -
  let ?path = "render root cs @ separator cs @ c" and ?p = "rp_p s" and ?k = "rp_calls s"
  have cstr: "c_string (rp_output s) = Done ?path" using v unfolding comp_view_def by (blast intro: c_string_cstring)
  have pok: "path_ok root cs" and pc: "length c \<le> ?p" and sl: "length (rp_stack s) = 4097" "?p \<le> 4096"
    using v unfolding comp_view_def out_of_def by blast+
  have den: "denotes fs r root cs root' cs' = resolves fs root cs (c # components r') root' cs'" if "c \<noteq> []" for root' cs'
    using denotes_component [OF r that _ r'] c(1) that by (auto simp: canonical_def)
  have rd: "render root (cs @ [c]) = ?path" by (simp add: render_snoc separator_def)
  show ?thesis
  proof (cases "sys_readlink fs ?k ?path ?p")
    case (Inl e)
    show ?thesis
    proof (cases "e = EINVAL")
      case False
      then show ?thesis using x cstr Inl by (auto simp: link_step_def Let_def carried_def)
    next
      case True
      let ?s = "s\<lparr>rp_calls := ?k + 1, rp_errno := e, rp_check_dir := False\<rparr>"
      have sk: "skip_readlink (c = [46, 46]) (length c) len ?s = Done x"
        using x cstr Inl True by (simp add: link_step_def Let_def)
      have v': "comp_view ?s r' root cs c len" using v comp_view_same [of ?s s] by simp
      show ?thesis
      proof (rule skip_readlink_carried [OF v' sk nk])
        show "denotes fs r root cs root' cs'" if "c = [46, 46]" "resolves fs root (parent root cs) (components r') root' cs'" for root' cs'
          using den that by (simp add: resolves_up)
        show "canonical c \<and> (\<forall>root' cs'. resolves fs root (cs @ [c]) (components r') root' cs' \<longrightarrow> denotes fs r root cs root' cs')"
          if "c \<noteq> [46, 46]" "c \<noteq> []"
        proof -
          have "?p \<noteq> 0" using pc that(2) by (cases c) auto
          then have "fs ?k (render root (cs @ [c])) = Inl EINVAL"
            using Inl True unfolding rd by (auto simp: sys_readlink_def split: sum.splits)
          moreover have "canonical c" using c(1) that by blast
          ultimately show ?thesis using den [OF that(2)] resolves_name by blast
        qed
        show "denotes fs r root cs root' cs'" if "c = []" "resolves fs root cs (components r') root' cs'" for root' cs'
          using that c(2) r by (simp add: denotes_def is_absolute_def)
      qed
    qed
  next
    case (Inr t)
    then obtain u where u: "fs ?k ?path = Inr u" "t = take ?p u" by (auto simp: sys_readlink_def split: if_splits sum.splits)
    have lnk: "0 \<notin> set u" "?path \<noteq> []" "last ?path \<noteq> 47" "\<And>d. ?path \<noteq> d @ [47, 46, 46]"
      using fs u(1) unfolding readlink_contract_def by blast+
    have "c \<noteq> []"
    proof
      assume c0: "c = []"
      show False
      proof (cases "root \<noteq> [] \<or> cs \<noteq> []")
        case True
        then obtain d where "render root cs @ separator cs = d @ [47]" using render_separator_last [OF pok] by blast
        then have "?path = d @ [47]" using c0 by simp
        with lnk(3) show False by simp
      next
        case False
        then have "?path = []" using c0 by (simp add: render_def separator_def)
        with lnk(2) show False by blast
      qed
    qed
    moreover have "c \<noteq> [46, 46]"
    proof
      assume c2: "c = [46, 46]"
      then have "root \<noteq> [] \<or> cs \<noteq> []" using nk by (auto simp: keeps_up_def)
      then obtain d where d: "render root cs @ separator cs = d @ [47]" using render_separator_last [OF pok] by blast
      then have "?path = d @ [47, 46, 46]" using c2 by (metis append.assoc append_Cons append_Nil)
      with lnk(4) show False by blast
    qed
    ultimately have cn: "canonical c" "c \<noteq> []" "c \<noteq> [46, 46]" using c(1) by simp_all
    have tl: "length t \<le> ?p" using u(2) by simp
    let ?stack = "overwrite 0 (map Some t) (rp_stack s)"
    have put: "put_cells (rp_stack s) 0 (map Some t) = Done ?stack" using tl sl by (simp add: put_cells_def)
    show ?thesis
    proof (cases "length t = ?p \<or> length t = 0")
      case True
      then have "x = Fail ENAMETOOLONG \<or> x = Fail ENOENT"
        using x cstr Inr put by (auto simp: link_step_def Let_def split: if_splits)
      then show ?thesis by (auto simp: carried_def)
    next
      case False
      then have t: "t = u" "t \<noteq> []" "length t < ?p" using u(2) tl by (auto simp: min_def split: if_splits)
      let ?s = "s\<lparr>rp_calls := ?k + 1, rp_stack := ?stack\<rparr>"
      have fl: "follow_link (length t) ?s = Done x"
        using x cstr Inr put False by (simp add: link_step_def Let_def)
      have "drop ?p ?stack = drop ?p (rp_stack s)" "length ?stack = 4097" using tl sl by (simp_all add: drop_overwrite_end)
      then have v': "comp_view ?s r' root cs c len" using v sl comp_view_same [of ?s s] by simp
      have lk: "fs ?k (render root (cs @ [c])) = Inr t" using u(1) t(1) unfolding rd by simp
      show ?thesis
      proof (rule follow_link_carried [OF v' _ t(2) _ sl(1) _ r' fl])
        show "denotes fs r root cs root' cs'"
          if "if is_absolute t then resolves fs (root_of t) [] (components t @ components r') root' cs'
            else resolves fs root cs (components t @ components r') root' cs'" for root' cs'
          unfolding den [OF cn(2)]
          using that resolves_absolute [where fs = fs and k = ?k and root = root and cs = cs, OF cn(1) lk]
            resolves_relative [where fs = fs and k = ?k and root = root and cs = cs, OF cn(1) lk t(2)]
          by (auto split: if_splits)
      qed (use t lnk(1) in simp_all)
    qed
  qed
qed

lemma component_step_carried:
  assumes ok: "realpath_ok s" and r: "rest_of s r" "\<not> is_absolute r" and o: "out_of s root cs" and fs: "readlink_contract fs"
    and c: "c = takeWhile (\<lambda>x. x \<noteq> 47) r" "c \<noteq> [46]" and x: "component_step fs (length c) s = Done x"
  shows "carried fs r root cs x"
proof -
  have oo: "take (rp_q s) (rp_output s) = map Some (render root cs)" "rp_q s = length (render root cs)" "rp_pending_up s = ups cs"
      "path_ok root cs" using o unfolding out_of_def by blast+
  have sep: "(if rp_q s \<noteq> 0 then obind (read_at (rp_output s) (rp_q s - 1)) (\<lambda>b. Done (b \<noteq> 47)) else Done False) = Done (cs \<noteq> [])"
  proof (cases "render root cs = []")
    case True
    with render_empty [OF oo(4)] show ?thesis using oo(2) by simp
  next
    case False
    then have q: "rp_q s \<noteq> 0" using oo(2) by simp
    have len: "length (rp_output s) = 4096" "rp_q s < 4096" using ok by (simp_all add: realpath_ok_def output_ok_def)
    have "take (rp_q s) (rp_output s) ! (rp_q s - 1) = Some (last (render root cs))"
      unfolding oo(1) using q oo(2) by (simp add: last_conv_nth)
    then have "read_at (rp_output s) (rp_q s - 1) = Done (last (render root cs))" using q len by (simp add: read_at_def)
    then show ?thesis using q render_last [OF oo(4) False] by simp
  qed
  define r' where "r' = dropWhile (\<lambda>x. x \<noteq> 47) r"
  have r': "r = c @ r'" "r' = [] \<or> hd r' = 47" using hd_dropWhile [of "\<lambda>x. x \<noteq> 47" r] by (auto simp: r'_def c(1))
  have sub: "set c \<subseteq> set r" using r'(1) by auto
  have cn: "c = [] \<or> c = [46, 46] \<or> canonical c"
    using c sub r(1) takeWhile_neq [of r] by (auto simp: canonical_def rest_of_def)
  have empty: "c = [] \<Longrightarrow> r' = []" using r' r(2) by (auto simp: is_absolute_def)
  obtain a where a: "append_step (length c) (cs \<noteq> []) s = Done a"
      "(case a of Inr e \<Rightarrow> Done (Fail e)
       | Inl (component_len, s) \<Rightarrow>
           obind (is_up (length c) s) (\<lambda>up.
             if up \<and> rp_q s \<le> 3 * rp_pending_up s
             then next_round (s\<lparr>rp_pending_up := rp_pending_up s + 1, rp_q := rp_q s + component_len\<rparr>)
             else if up \<and> \<not> rp_check_dir s
             then skip_readlink up (length c) component_len (s\<lparr>rp_check_dir := False\<rparr>)
             else link_step fs up (length c) component_len s)) = Done x"
    using x unfolding component_step_def sep obind.simps obind_eq_Done by blast
  show ?thesis
  proof (cases a)
    case (Inr e)
    then show ?thesis using a(2) by (auto simp: carried_def)
  next
    case (Inl b)
    obtain len s1 where b: "b = (len, s1)" by (cases b)
    note av = append_step_view [OF ok r o c(1) a(1) [unfolded Inl b]]
    have v: "comp_view s1 r' root cs c len" using av(1) by (simp add: r'_def)
    then have s1: "rp_q s1 = rp_q s" "rp_pending_up s1 = ups cs" and rest1: "rest_of s1 r'"
        and t1: "take (rp_q s1 + len) (rp_output s1) = map Some (render root cs @ separator cs @ c)" and len: "len = length (separator cs @ c)"
      unfolding comp_view_def out_of_def oo(2) by blast+
    have up: "is_up (length c) s1 = Done (c = [46, 46])" using av(3,4) by (intro is_up_view)
    have keep: "rp_q s1 \<le> 3 * rp_pending_up s1 \<longleftrightarrow> keeps_up root cs"
      unfolding s1 oo(2) by (rule keeps_up_length [OF oo(4)])
    have x1: "(if (c = [46, 46]) \<and> keeps_up root cs
          then next_round (s1\<lparr>rp_pending_up := rp_pending_up s1 + 1, rp_q := rp_q s1 + len\<rparr>)
        else if (c = [46, 46]) \<and> \<not> rp_check_dir s1 then skip_readlink (c = [46, 46]) (length c) len (s1\<lparr>rp_check_dir := False\<rparr>)
        else link_step fs (c = [46, 46]) (length c) len s1) = Done x"
      using a(2) unfolding Inl b sum.case prod.case up obind.simps keep .
    have den: "denotes fs r root cs root' cs'" if "resolves fs root (parent root cs) (components r') root' cs'" "c = [46, 46]" for root' cs'
      using that denotes_component [OF r'(1) _ _ r'(2)] by (simp add: resolves_up)
    show ?thesis
    proof (cases "(c = [46, 46]) \<and> keeps_up root cs")
      case True
      let ?s = "s1\<lparr>rp_pending_up := rp_pending_up s1 + 1, rp_q := rp_q s1 + len\<rparr>"
      have nr: "next_round ?s = Done x" using x1 unfolding if_P [OF True] .
      have par: "parent root cs = cs @ [c]" using True by (simp add: parent_def)
      have rd: "render root (cs @ [c]) = render root cs @ separator cs @ c" by (simp add: render_snoc separator_def)
      have "out_of ?s root (parent root cs)"
        using t1 len s1 oo(2) path_ok_parent [OF oo(4)] True unfolding out_of_def par rd by simp
      moreover have "rest_of ?s r'" using rest1 by (simp add: rest_of_def)
      ultimately show ?thesis using nr den [OF _ conjunct1 [OF True]] by (intro next_round_carried)
    next
      case nk: False
      note x2 = x1 [unfolded if_not_P [OF nk]]
      show ?thesis
      proof (cases "(c = [46, 46]) \<and> \<not> rp_check_dir s1")
        case True
        have v': "comp_view (s1\<lparr>rp_check_dir := False\<rparr>) r' root cs c len"
          using v comp_view_same [of "s1\<lparr>rp_check_dir := False\<rparr>" s1] by simp
        from skip_readlink_carried [OF v'] x2 True nk den show ?thesis by (simp add: if_P)
      next
        case False
        from link_step_carried [OF v fs r'(2) cn empty _ r'(1)] nk x2 [unfolded if_not_P [OF False]] show ?thesis by blast
      qed
    qed
  qed
qed

section \<open>The loop\<close>

lemma realpath_step_carried:
  assumes ok: "realpath_ok s" and v: "path_view s r root cs" and fs: "readlink_contract fs" and x: "realpath_step fs s = Done x"
  shows "carried fs r root cs x"
proof -
  have r: "rest_of s r" and st: "drop (rp_p s) (rp_stack s) = map Some r @ [Some 0]" "0 \<notin> set r"
    using v by (simp_all add: path_view_def rest_of_def)
  define c where "c = takeWhile (\<lambda>x. x \<noteq> 47) r"
  have rd: "read_at (rp_stack s) (rp_p s) = Done ((r @ [0]) ! 0)" using rest_read(1) [OF st(1), of 0] by simp
  have cl: "ao_strchrnul (drop (rp_p s) (rp_stack s)) 47 = Done (length c)"
    unfolding st(1) c_def by (rule strchrnul_string [OF st(2)])
  have ab: "(r @ [0]) ! 0 = 47 \<longleftrightarrow> is_absolute r" by (cases r) (auto simp: is_absolute_def)
  show ?thesis
  proof (cases "is_absolute r")
    case True
    then show ?thesis using root_step_carried [OF ok r True] x by (simp add: realpath_step_def rd ab)
  next
    case False
    then have o: "out_of s root cs" using v by (simp add: path_view_def)
    have x1: "(if length c = 0 \<and> \<not> rp_check_dir s then Done (Leave s)
        else if length c = 1 \<and> (r @ [0]) ! 0 = 46 then next_round (s\<lparr>rp_p := rp_p s + 1\<rparr>)
        else component_step fs (length c) s) = Done x"
      using x False unfolding realpath_step_def rd obind.simps cl by (simp add: ab)
    have c0: "c = [] \<Longrightarrow> r = []" using False by (cases r) (auto simp: c_def is_absolute_def)
    have dot: "length c = 1 \<and> (r @ [0]) ! 0 = 46 \<longleftrightarrow> c = [46]"
      by (cases r) (auto simp: c_def length_Suc_conv)
    consider "length c = 0 \<and> \<not> rp_check_dir s" | "\<not> (length c = 0 \<and> \<not> rp_check_dir s)" "c = [46]"
      | "\<not> (length c = 0 \<and> \<not> rp_check_dir s)" "c \<noteq> [46]" by blast
    then show ?thesis
    proof cases
      case 1
      with x1 have "x = Leave s" by simp
      with o 1 c0 show ?thesis by (simp add: carried_def)
    next
      case 2
      have r1: "r = c @ drop 1 r" using 2(2) takeWhile_eq_take [of "\<lambda>x. x \<noteq> 47" r] by (metis One_nat_def append_take_drop_id c_def length_Cons list.size(3))
      have d: "drop 1 r = dropWhile (\<lambda>x. x \<noteq> 47) r" using 2(2) by (simp add: c_def dropWhile_eq_drop)
      have hd: "drop 1 r = [] \<or> hd (drop 1 r) = 47" unfolding d using hd_dropWhile [of "\<lambda>x. x \<noteq> 47" r] by auto
      have nr: "next_round (s\<lparr>rp_p := rp_p s + 1\<rparr>) = Done x" using x1 2 dot by simp
      have l1: "1 \<le> length r" using r1 2(2) by (cases r) simp_all
      have "rest_of (s\<lparr>rp_p := rp_p s + 1\<rparr>) (drop 1 r)"
        using rest_later [OF st(1) l1] st(2) by (auto simp: rest_of_def dest: in_set_dropD)
      moreover have "out_of (s\<lparr>rp_p := rp_p s + 1\<rparr>) root cs" using o out_of_same [of "s\<lparr>rp_p := rp_p s + 1\<rparr>" s] by simp
      ultimately show ?thesis
        using nr by (rule next_round_carried)
          (use denotes_component [OF r1 _ _ hd] 2(2) in \<open>simp add: resolves_dot\<close>)
    next
      case 3
      have "component_step fs (length c) s = Done x" using x1 3 dot by (simp split: if_splits)
      from component_step_carried [OF ok r False o fs c_def 3(2) this] show ?thesis .
    qed
  qed
qed

lemma realpath_loop_resolves:
  assumes "realpath_ok s" "path_view s r root cs" "readlink_contract fs" "realpath_loop fs s = Some (Done (Leave s'))"
  shows "\<exists>root' cs'. out_of s' root' cs' \<and> denotes fs r root cs root' cs'"
  using wf_progress assms(1,2,4)
proof (induction s arbitrary: r root cs rule: wf_induct_rule)
  case (less s)
  obtain x where x: "realpath_step fs s = Done x" "round_ok s x"
    using wp_Done_cases [OF realpath_step_law [OF less.prems(1)]] by blast
  note c = realpath_step_carried [OF less.prems(1,2) assms(3) x(1)]
  note loop = less.prems(3) [unfolded realpath_loop.simps [of fs s] x(1) outcome.case]
  show ?case
  proof (cases x)
    case (Again s1)
    then obtain r1 root1 cs1 where v: "path_view s1 r1 root1 cs1"
        and d: "\<And>root' cs'. denotes fs r1 root1 cs1 root' cs' \<Longrightarrow> denotes fs r root cs root' cs'"
      using c unfolding carried_def by auto
    have "realpath_ok s1" "(s1, s) \<in> progress" using x(2) Again by (simp_all add: round_ok_def)
    moreover have "realpath_loop fs s1 = Some (Done (Leave s'))" using loop Again by simp
    ultimately show ?thesis using less.IH [OF _ _ v] d by blast
  next
    case (Leave s1)
    then have "s1 = s'" using loop by simp
    with c Leave show ?thesis by (auto simp: carried_def denotes_def is_absolute_def intro!: resolves_end)
  next
    case (Fail e)
    with loop show ?thesis by simp
  qed
qed

end
