(* ===== verification/Realpath_Result.thy ===== *)
theory Realpath_Result
  imports Realpath_Refines
begin

text \<open>
  The end of \<open>realpath\<close>: the current directory goes before a relative output, and the two dots at its front take
  names off the directory. The result is the path that \<open>resolves\<close> gives, below the current directory where it has
  no root.
\<close>

section \<open>The current directory\<close>

text \<open>Of \<open>getcwd\<close>: an absolute path that is given is a string of one slash and names.\<close>

definition cwd_contract :: "sys_path \<Rightarrow> bool" where
  "cwd_contract cwd \<longleftrightarrow> (\<forall>d. cwd = Inr d \<longrightarrow> is_absolute d \<longrightarrow> d = render [47] (components d) \<and> list_all canonical (components d))"

lemma take_prefix: "take (length (y @ z)) st = map Some (y @ z) \<Longrightarrow> take (length y) st = map Some y"
  by (drule arg_cong [of _ _ "take (length y)"]) simp

text \<open>With a slash at the front, the walk back stops where that over the output does.\<close>

lemma cwd_back_pop_loop: "read_at st 0 = Done 47 \<Longrightarrow> 0 < n \<Longrightarrow> cwd_back st n = pop_loop st n"
proof (induction n)
  case (Suc n)
  then show ?case by (cases "n = 0") (simp_all cong: if_cong)
qed simp

lemma cwd_pop:
  assumes ok: "list_all canonical cs" and t: "take (length (render [47] cs)) st = map Some (render [47] cs)"
  obtains m where "cwd_back st (length (render [47] cs)) = Done m"
    "(if m > 1 then m - 1 else m) = length (render [47] (butlast cs))"
    "take (length (render [47] (butlast cs))) st = map Some (render [47] (butlast cs))"
proof (cases cs rule: rev_cases)
  case Nil
  with that [of 1] t show ?thesis by (simp add: render_def)
next
  case (snoc ds c)
  let ?a = "render [47] ds @ separator ds"
  have r: "render [47] cs = ?a @ c" by (simp add: snoc render_snoc separator_def)
  have c: "47 \<notin> set c" using ok snoc by (simp add: canonical_def)
  have ds: "path_ok [47] ds" using ok snoc by (simp add: path_ok_def)
  have "last ?a = 47" by (cases "ds = []") (simp_all add: separator_def render_def)
  with pop_loop_string [OF t [unfolded r] c] have p: "pop_loop st (length (?a @ c)) = Done (length ?a)" by simp
  have "take (length [47 :: byte]) st = map Some [47]"
    using take_prefix [of "[47]" "join_path cs" st] t by (simp add: render_def)
  then have "read_at st 0 = Done 47" by (cases st) (simp_all add: read_at_def)
  moreover have "0 < length (?a @ c)" by (simp add: render_def)
  ultimately have "cwd_back st (length (render [47] cs)) = Done (length ?a)"
    unfolding r p [symmetric] by (rule cwd_back_pop_loop)
  moreover have "(if length ?a > 1 then length ?a - 1 else length ?a) = length (render [47] ds)"
    by (cases "ds = []") (simp_all add: separator_def render_def)
  moreover have "take (length (render [47] ds)) st = map Some (render [47] ds)"
    using take_prefix [of "render [47] ds" "separator ds @ c" st] t r by simp
  ultimately show ?thesis using that unfolding snoc butlast_snoc by blast
qed

lemma skip_ups_string:
  assumes "list_all canonical cs" "take (length (render [47] cs)) st = map Some (render [47] cs)"
    and "sk + 3 * n \<le> q + 1" "sk \<le> q"
  shows "skip_ups st q n (length (render [47] cs)) sk = Done (length (render [47] (take (length cs - n) cs)), min (sk + 3 * n) q)
    \<and> take (length (render [47] (take (length cs - n) cs))) st = map Some (render [47] (take (length cs - n) cs))"
  using assms
proof (induction n arbitrary: cs sk)
  case (Suc n)
  let ?sk = "if sk + 2 < q then sk + 2 + 1 else sk + 2"
  obtain m where m: "cwd_back st (length (render [47] cs)) = Done m"
      "(if m > 1 then m - 1 else m) = length (render [47] (butlast cs))"
      "take (length (render [47] (butlast cs))) st = map Some (render [47] (butlast cs))"
    using cwd_pop Suc.prems(1,2) by blast
  have "list_all canonical (butlast cs)" using Suc.prems(1) by (auto simp: list_all_iff dest: in_set_butlastD)
  moreover have "?sk + 3 * n \<le> q + 1" "?sk \<le> q" "min (?sk + 3 * n) q = min (sk + 3 * Suc n) q" using Suc.prems(3,4) by auto
  moreover have "take (length (butlast cs) - n) (butlast cs) = take (length cs - Suc n) cs"
    by (simp add: butlast_conv_take)
  ultimately show ?case using Suc.IH [of "butlast cs" ?sk] m by simp
qed simp

text \<open>The path below the directory \<open>ds\<close> that a relative one means.\<close>

definition below :: "byte list list \<Rightarrow> byte list list \<Rightarrow> byte list" where
  "below ds cs = render [47] (take (length ds - ups cs) ds @ drop (ups cs) cs)"

lemma render_append:
  "render root (fs @ ns) = render root fs @ (if ns \<noteq> [] \<and> fs \<noteq> [] then [47] else []) @ join_path ns"
  by (auto simp: render_def join_path_append)

text \<open>What \<open>getcwd\<close> stores.\<close>

lemma getcwd_string:
  assumes sl: "length stack = 4097" and cwd: "cwd_contract cwd"
  shows "wp False (getcwd malloc cwd (Some stack) (of_nat (PATH_MAX + 1)) w) (\<lambda>((r, buf), w').
    (\<exists>e. w' = w\<lparr>errno := e\<rparr>) \<and> (r \<noteq> Failed \<longrightarrow> w' = w \<and> (\<exists>ds stack'. cwd = Inr (render [47] ds) \<and> ds = components (render [47] ds)
      \<and> list_all canonical ds \<and> buf = Some stack' \<and> length stack' = 4097 \<and> cstring (render [47] ds) stack')))"
proof (cases cwd)
  case (Inl e)
  then show ?thesis
    by (auto simp: getcwd_def PATH_MAX_def getcwd_into_def sys_getcwd_def)
next
  case (Inr d)
  show ?thesis
  proof (cases "length d + 1 \<le> 4097")
    case False
    with Inr show ?thesis by (auto simp: getcwd_def PATH_MAX_def getcwd_into_def sys_getcwd_def)
  next
    case True
    let ?stack = "overwrite 0 (map Some (d @ [0])) stack"
    have put: "put_cells stack 0 (map Some (d @ [0])) = Done ?stack" using True sl by (simp add: put_cells_def)
    have t: "take (length d + 1) ?stack = map Some d @ [Some 0]"
      using take_overwrite_end [of 0 stack "map Some (d @ [0])"] by simp
    have len: "length ?stack = 4097" using True sl by simp
    have "?stack ! 0 = Some ((d @ [0]) ! 0)" using True sl by (subst nth_overwrite) (simp_all del: map_append)
    then have "read_at ?stack 0 = Done ((d @ [0]) ! 0)" using len by (simp add: read_at_def del: map_append)
    then have get: "getcwd malloc cwd (Some stack) (of_nat (PATH_MAX + 1)) w =
        (if is_absolute d then Done ((In_buffer, Some ?stack), w) else Done ((Failed, Some ?stack), w\<lparr>errno := ENOENT\<rparr>))"
      using Inr True put by (cases d) (auto simp: getcwd_def PATH_MAX_def getcwd_into_def sys_getcwd_def is_absolute_def simp del: map_append)
    show ?thesis
    proof (cases "is_absolute d")
      case True
      with cwd Inr have d: "d = render [47] (components d)" "list_all canonical (components d)"
        by (simp_all add: cwd_contract_def)
      then have "0 \<notin> set d" using render_nonzero [of "[47]" "components d"] by (simp add: path_ok_def)
      with t len have "cstring d ?stack" by (simp add: cstring_def)
      with d True Inr len show ?thesis unfolding get by (auto intro!: exI [of _ "components d"] exI [of _ "errno w"])
    next
      case False
      then show ?thesis unfolding get by auto
    qed
  qed
qed

text \<open>The names of a relative path come after the two dots at its front.\<close>

lemma render_names:
  assumes "path_ok [] cs"
  shows "3 * ups cs \<le> length (render [] cs) + 1"
    "drop (min (3 * ups cs) (length (render [] cs))) (render [] cs) = join_path (names cs)"
    "join_path (names cs) = [] \<longleftrightarrow> names cs = []"
proof -
  have r: "render [] cs = join_path (replicate (ups cs) [46, 46] @ names cs)"
    using ups_names [of cs] by (simp add: render_def)
  have "3 * ups cs \<le> length (render [] cs) + 1
      \<and> drop (min (3 * ups cs) (length (render [] cs))) (render [] cs) = join_path (names cs)"
  proof (cases "names cs = []")
    case True
    then have "render [] cs = join_path (replicate (ups cs) [46, 46])" using r by (simp only: append_Nil2)
    then have "length (render [] cs) = 3 * ups cs - 1" by (simp only: length_join_ups)
    then have "3 * ups cs \<le> length (render [] cs) + 1"
      and "drop (min (3 * ups cs) (length (render [] cs))) (render [] cs) = []" by simp_all
    moreover have "join_path (names cs) = []" by (simp only: True join_path.simps)
    ultimately show ?thesis by simp
  next
    case False
    then show ?thesis using length_join_names [OF False, of "ups cs"] unfolding r by simp
  qed
  then show "3 * ups cs \<le> length (render [] cs) + 1"
    "drop (min (3 * ups cs) (length (render [] cs))) (render [] cs) = join_path (names cs)" by blast+
  show "join_path (names cs) = [] \<longleftrightarrow> names cs = []"
  proof (cases "names cs")
    case (Cons c ds)
    then have "c \<in> set cs" by (metis list.set_intros(1) set_dropWhileD)
    then have "c \<noteq> []" using path_ok_names [OF assms] by blast
    with Cons show ?thesis by (cases ds) simp_all
  next
    case Nil
    then show ?thesis by (simp only: join_path.simps simp_thms)
  qed
qed

text \<open>The directory goes before the output, without the two dots at its front.\<close>

lemma move_string:
  assumes st: "take l stack = map Some a" "length a = l"
    and out: "length out = 4096" "cstring s out" "sk \<le> length s" and fit: "l + (length s - sk) + 1 \<le> 4096" and nz: "0 \<notin> set a"
  shows "cstring (a @ drop sk s) (overwrite 0 (take l stack) (overwrite l (take (length s - sk + 1) (drop sk out)) out))"
proof -
  have "take (length s - sk + 1) (drop sk out) = drop sk (take (length s + 1) out)"
    using out(3) by (simp add: take_drop)
  then have t: "take (length s - sk + 1) (drop sk out) = map Some (drop sk s) @ [Some 0]"
    using out(2,3) by (simp add: cstring_def drop_map)
  have "overwrite 0 (map Some a) (overwrite l (map Some (drop sk s) @ [Some 0]) out)
      = map Some a @ map Some (drop sk s) @ [Some 0] @ drop (l + (length s - sk) + 1) out"
    using out fit st(2) by (simp add: overwrite_def min_def)
  moreover have "0 \<notin> set (drop sk s)" using out(2) by (auto simp: cstring_def dest: in_set_dropD)
  ultimately show ?thesis
    unfolding t st(1) cstring_def using st(2) nz by simp
qed

lemma prepend_cwd_string:
  assumes stack: "length stack = 4097" "cstring (render [47] ds) stack" and ds: "list_all canonical ds"
    and out: "length out = 4096" "cstring (render [] cs) out" and cs: "path_ok [] cs"
  shows "wp False (prepend_cwd stack out (length (render [] cs)) (ups cs)) (\<lambda>x. case x of Inl _ \<Rightarrow> True
    | Inr (out', q') \<Rightarrow> length out' = 4096 \<and> cstring (below ds cs) out' \<and> length (below ds cs) < 4096)"
proof -
  let ?q = "length (render [] cs)" and ?n = "ups cs"
  define front sk l where "front = take (length ds - ?n) ds" and "sk = min (3 * ?n) ?q" and "l = length (render [47] front)"
  have t: "take (length (render [47] ds)) stack = map Some (render [47] ds)"
    using stack(2) take_snocD(3) by (metis cstring_def length_map)
  have sl: "strlen stack = Done (length (render [47] ds))" using stack(2) by (rule strlen_cstring)
  have l: "skip_ups stack ?q ?n (length (render [47] ds)) 0 = Done (l, sk)" "take l stack = map Some (render [47] front)"
    using skip_ups_string [OF ds t, of 0 ?n ?q] render_names(1) [OF cs] by (simp_all add: front_def sk_def l_def)
  have fok: "path_ok [47] front" using ds by (auto simp: path_ok_def front_def list_all_iff dest: in_set_takeD)
  have lp: "1 \<le> l" "l \<le> 4096"
  proof -
    show "1 \<le> l" by (simp add: l_def render_def)
    have "l \<le> length (render [47] ds)"
      using render_append [of "[47]" front "drop (length ds - ?n) ds"] by (simp add: l_def front_def)
    then show "l \<le> 4096" using cstring_length [OF stack(2)] stack(1) by simp
  qed
  have tail: "drop sk (render [] cs) = join_path (names cs)" "?q - sk = length (join_path (names cs))" "sk \<le> ?q"
  proof -
    show "drop sk (render [] cs) = join_path (names cs)" using render_names(2) [OF cs] by (simp add: sk_def)
    then show "?q - sk = length (join_path (names cs))" using length_drop by metis
  qed (simp add: sk_def)
  define slash where "slash \<longleftrightarrow> names cs \<noteq> [] \<and> front \<noteq> []"
  have sd: "(if ?q - sk \<noteq> 0 then obind (read_at stack (l - 1)) (\<lambda>b. Done (b \<noteq> 47)) else Done False) = Done slash"
  proof -
    have "stack ! (l - 1) = Some (last (render [47] front))"
    proof -
      have "stack ! (l - 1) = take l stack ! (l - 1)" using lp by simp
      also have "\<dots> = Some (last (render [47] front))"
        unfolding l(2) using lp by (simp add: l_def last_conv_nth render_def)
      finally show ?thesis .
    qed
    then have "read_at stack (l - 1) = Done (last (render [47] front))" using lp stack(1) by (simp add: read_at_def)
    moreover have "last (render [47] front) = 47 \<longleftrightarrow> front = []" using render_last [OF fok] by (simp add: render_def)
    ultimately show ?thesis using render_names(3) [OF cs] tail(2) by (simp add: slash_def)
  qed
  let ?stack = "if slash then overwrite l [Some 47] stack else stack" and ?l = "if slash then l + 1 else l"
  have put: "(if slash then put_cells stack l [Some 47] else Done stack) = Done ?stack"
    using lp stack(1) by (simp add: put_cells_def)
  have st: "take ?l ?stack = map Some (render [47] front @ (if slash then [47] else []))"
    using take_overwrite_end [of l stack "[Some 47]"] l(2) lp stack(1) by simp
  show ?thesis
  proof (cases "?l + (?q - sk) + 1 \<ge> PATH_MAX")
    case True
    then show ?thesis
      unfolding prepend_cwd_def sl obind.simps l(1) prod.case Let_def size_sub_le [OF lp(1)] size_sub_le [OF tail(3)] sd put
        if_P [OF True] by simp
  next
    case False
    let ?o1 = "overwrite ?l (take (?q - sk + 1) (drop sk out)) out"
    let ?o2 = "overwrite 0 (take ?l ?stack) ?o1"
    have fit: "?l + (?q - sk) + 1 < 4096" using False by (auto simp: PATH_MAX_def)
    have path: "(render [47] front @ (if slash then [47] else [])) @ drop sk (render [] cs) = below ds cs"
      unfolding tail below_def render_append names_drop [symmetric] front_def [symmetric] slash_def by simp
    have "cstring (below ds cs) ?o2"
      unfolding path [symmetric]
      using st fit out tail(3) render_nonzero [OF fok] by (intro move_string) (auto simp: l_def)
    moreover have "length (below ds cs) < 4096" unfolding path [symmetric] using fit by (auto simp: l_def)
    moreover have "length ?o2 = 4096"
    proof -
      have "length (take (?q - sk + 1) (drop sk out)) = ?q - sk + 1" "length (take ?l ?stack) = ?l"
        using cstring_length [OF out(2)] out(1) tail(3) lp stack(1) by simp_all
      with fit out(1) show ?thesis by (subst length_overwrite) simp_all
    qed
    moreover have "prepend_cwd stack out ?q ?n = Done (Inr (?o2, size_sub (?l + ?q) sk))"
      unfolding prepend_cwd_def sl obind.simps l(1) prod.case Let_def size_sub_le [OF lp(1)] size_sub_le [OF tail(3)] sd put
        if_not_P [OF False]
      using out(1) fit stack(1) lp cstring_length [OF out(2)] tail(3)
      by (cases slash) (simp_all add: read_cells_def put_cells_def)
    ultimately show ?thesis by simp
  qed
qed

section \<open>The result\<close>

text \<open>The absolute path of a root and components: without a root it is below the current directory.\<close>

definition full_path :: "sys_path \<Rightarrow> byte list \<Rightarrow> byte list list \<Rightarrow> byte list \<Rightarrow> bool" where
  "full_path cwd root cs path \<longleftrightarrow>
     (if root \<noteq> [] then path = render root cs
      else \<exists>ds. cwd = Inr (render [47] ds) \<and> ds = components (render [47] ds) \<and> list_all canonical ds \<and> path = below ds cs)"

text \<open>
  The path of the root and components to which \<open>resolves\<close> leads: the components are names, after two dots at most
  where there is no root, and every prefix that ends in a name was read as one that is no link.
\<close>

definition resolved_path :: "file_system \<Rightarrow> sys_path \<Rightarrow> byte list \<Rightarrow> byte list \<Rightarrow> bool" where
  "resolved_path fs cwd s path \<longleftrightarrow> (\<exists>root cs. denotes fs s [] [] root cs \<and> path_ok root cs \<and> no_link_prefix fs root cs
     \<and> full_path cwd root cs path \<and> length path < PATH_MAX)"

lemma realpath_absolute_string:
  assumes ok: "realpath_ok s" and o: "out_of s root cs" and cwd: "cwd_contract cwd"
  shows "wp False (realpath_absolute malloc cwd s (overwrite (rp_q s) [Some 0] (rp_output s)) w) (\<lambda>(x, w').
    (\<exists>e. w' = w\<lparr>errno := e\<rparr>) \<and> (case x of Inl _ \<Rightarrow> True
       | Inr (out, q) \<Rightarrow> length out = 4096 \<and> (\<exists>path. cstring path out \<and> full_path cwd root cs path \<and> length path < PATH_MAX)))"
proof -
  let ?out = "overwrite (rp_q s) [Some 0] (rp_output s)" and ?path = "render root cs"
  have q: "take (rp_q s) (rp_output s) = map Some ?path" "rp_q s = length ?path" "rp_pending_up s = ups cs" "path_ok root cs"
    using o unfolding out_of_def by blast+
  have len: "rp_q s < 4096" "length (rp_output s) = 4096" "length (rp_stack s) = 4097"
    using ok by (simp_all add: realpath_ok_def output_ok_def stack_ok_def)
  have ol: "length ?out = 4096" using len by simp
  have "take (rp_q s + 1) ?out = map Some ?path @ [Some 0]"
    using take_overwrite_end [of "rp_q s" "rp_output s" "[Some 0]"] len q(1) by simp
  then have cs: "cstring ?path ?out" using render_nonzero [OF q(4)] q(2) by (simp add: cstring_def)
  have first: "read_at ?out 0 = Done ((?path @ [0]) ! 0)"
  proof -
    have "?out ! 0 = take (Suc (length ?path)) ?out ! 0" by simp
    also have "\<dots> = map Some (?path @ [0]) ! 0" using cs by (simp add: cstring_def)
    finally show ?thesis using ol by (simp add: read_at_def nth_append split: if_splits)
  qed
  have root: "(?path @ [0]) ! 0 = 47 \<longleftrightarrow> root \<noteq> []"
    using render_hd [OF q(4)] render_empty [OF q(4)] by (cases "?path = []") (auto simp: nth_append hd_conv_nth)
  have id: "\<exists>e. w = w\<lparr>errno := e\<rparr>" by (intro exI [of _ "errno w"]) simp
  show ?thesis
  proof (cases "root = []")
    case False
    with root have "(?path @ [0]) ! 0 = 47" by simp
    then have "realpath_absolute malloc cwd s ?out w = Done (Inr (?out, rp_q s), w)"
      using first by (simp add: realpath_absolute_def)
    moreover have "\<exists>path. cstring path ?out \<and> full_path cwd root cs path \<and> length path < PATH_MAX"
      using cs False len q(2) by (intro exI [of _ ?path]) (simp add: full_path_def PATH_MAX_def)
    ultimately show ?thesis using id ol by simp
  next
    case True
    with root have n47: "(?path @ [0]) ! 0 \<noteq> 47" by simp
    show ?thesis
      unfolding realpath_absolute_def first obind.simps if_not_P [OF n47]
    proof (rule wp_bindI [OF getcwd_string [OF len(3) cwd]], assumption, goal_cases)
      case (1 y)
      obtain r buf w1 where y: "y = ((r, buf), w1)" by (metis surj_pair)
      show ?case
      proof (cases "r = Failed")
        case True
        with 1 y show ?thesis by auto
      next
        case ne: False
        with 1 y obtain ds stack where st: "w1 = w" "buf = Some stack" "length stack = 4097" "cstring (render [47] ds) stack"
            and d: "cwd = Inr (render [47] ds)" "ds = components (render [47] ds)" "list_all canonical ds"
          by auto
        have "wp False (prepend_cwd stack ?out (length (render [] cs)) (ups cs)) (\<lambda>x. case x of Inl _ \<Rightarrow> True
            | Inr (out', q') \<Rightarrow> length out' = 4096 \<and> cstring (below ds cs) out' \<and> length (below ds cs) < 4096)"
          using prepend_cwd_string [OF st(3,4) d(3) ol] cs q(4) True by simp
        moreover have "full_path cwd root cs (below ds cs)" using d True by (auto simp: full_path_def)
        ultimately show ?thesis
          unfolding y prod.case if_not_P [OF ne] st option.sel q(2,3) True
          by (elim wp_bindI) (use id True in \<open>auto simp: PATH_MAX_def split: sum.splits\<close>)
      qed
    qed
  qed
qed

lemma start_view:
  assumes name: "cstring s name" "length s < 4096"
  shows "path_view (realpath_start s name e) s [] []"
proof -
  have "take (length s + 1) name = map Some s @ [Some 0]" "0 \<notin> set s" using name(1) by (simp_all add: cstring_def)
  with name(2) have "rest_of (realpath_start s name e) s"
    by (simp add: rest_of_def realpath_start_def drop_overwrite_at)
  moreover have "out_of (realpath_start s name e) [] []"
    by (simp add: out_of_def realpath_start_def render_def path_ok_root(2))
  ultimately show ?thesis by (simp add: path_view_def)
qed

context c_allocator
begin

lemma realpath_resolves_law:
  assumes inv: "inv w" and name: "cstring s name" and fs: "readlink_contract fs" and cwd: "cwd_contract cwd"
  shows "wp (room w = 0) (realpath malloc fs cwd (Some name) None w)
    (\<lambda>((r, _), w'). inv w' \<and> path_returned owned w (resolved_path fs cwd s) r w')"
proof (cases rule: realpath_cases [OF name, of malloc fs cwd w])
  case (1 e)
  with errno_only [OF inv] show ?thesis by (simp add: path_returned_def)
next
  case (2 s')
  have ok: "realpath_ok (realpath_start s name (errno w))"
    using realpath_start_ok [OF name 2(1)] by (simp add: realpath_start_def)
  from realpath_loop_resolves [OF ok start_view [OF name 2(1)] fs 2(3)] obtain root cs where
      o: "out_of s' root cs" and d: "denotes fs s [] [] root cs" by blast
  have nl: "no_link_prefix fs root cs"
    using d resolves_no_link by (fastforce simp: denotes_def no_link_prefix_def [of _ _ "[]"] split: if_splits)
  show ?thesis
    unfolding 2(4)
  proof (rule wp_bindI [OF realpath_absolute_string [OF 2(2) o cwd]], simp, goal_cases)
    case (1 y)
    then obtain x e where y: "y = (x, w\<lparr>errno := e\<rparr>)" "case x of Inl _ \<Rightarrow> True | Inr (out, q) \<Rightarrow>
        length out = 4096 \<and> (\<exists>path. cstring path out \<and> full_path cwd root cs path \<and> length path < PATH_MAX)"
      by (cases y) auto
    show ?case
    proof (cases x)
      case (Inl err)
      with y errno_only [OF inv] show ?thesis by (simp add: path_returned_def)
    next
      case (Inr oq)
      with y(2) obtain out q path where oq: "oq = (out, q)" "length out = 4096" "cstring path out"
          and f: "full_path cwd root cs path" "length path < PATH_MAX"
        by (cases oq) auto
      have good: "resolved_path fs cwd s path" using d nl o f by (auto simp: resolved_path_def out_of_def)
      show ?thesis
        unfolding y(1) prod.case Inr oq(1) sum.case
        by (rule path_returned_law [where good = "resolved_path fs cwd s", OF inv oq(3) _ good]) (simp add: oq(2))
    qed
  qed
qed

end

end
