(* ===== verification/Dirent_Overrides.thy ===== *)
theory Dirent_Overrides
  imports Line_Overrides "HOL-Library.Multiset"
begin

text \<open>
  \<open>src/dirent_overrides.c\<close>: \<open>scandir\<close> and \<open>scandir64\<close>, whose bodies are the same text over two entry types.

  An open directory is the list of the entries \<open>readdir\<close> still returns, each the \<open>d_reclen\<close> bytes of its record,
  and the \<open>errno\<close> of the call that returns null after them, \<open>EOK\<close> at the end of the directory. The
  selection function is a predicate on entries. The array of names is a heap object of \<open>capacity\<close> pointers
  whose content is \<open>nm_items\<close>. libc's \<open>qsort\<close> is a parameter.
\<close>

record scan_names =
  nm_ptr :: ptr
  nm_items :: "ptr list"
  nm_capacity :: size_t

definition no_names :: scan_names where
  "no_names = \<lparr>nm_ptr = NULL, nm_items = [], nm_capacity = 0\<rparr>"

type_synonym directory = "byte list list \<times> errno"
type_synonym qsort_fn = "(ptr \<Rightarrow> ptr \<Rightarrow> int) \<Rightarrow> ptr list \<Rightarrow> ptr list"

text \<open>\<open>sizeof(*names)\<close>\<close>

definition sizeof_pointer :: size_t where [layout]: "sizeof_pointer = 8"

text \<open>Storing a pointer at the end of the array; outside it is undefined.\<close>

definition check_slot :: "scan_names \<Rightarrow> 'a libc_scheme \<Rightarrow> unit outcome" where
  "check_slot nm w =
     (case blocks w (nm_ptr nm) of
        None \<Rightarrow> Undef
      | Some cs \<Rightarrow> if (length (nm_items nm) + 1) * 8 \<le> length cs then Done () else Undef)"

text \<open>Room for one more name: \<open>None\<close> where the loop is left.\<close>

definition grow_names ::
  "'a realloc_fn \<Rightarrow> scan_names \<Rightarrow> 'a libc_scheme \<Rightarrow> ((bool \<times> scan_names) \<times> 'a libc_scheme) outcome" where
  "grow_names realloc nm w =
     (if of_nat (length (nm_items nm)) \<ge> nm_capacity nm
      then let nm = nm\<lparr>nm_capacity := 2 * nm_capacity nm + 1\<rparr>
           in if nm_capacity nm > SIZE_MAX div sizeof_pointer then Done ((False, nm), w)
              else obind (realloc (nm_ptr nm) (nm_capacity nm * sizeof_pointer) w) (\<lambda>(tmp, w).
                     if tmp = NULL then Done ((False, nm), w)
                     else Done ((True, nm\<lparr>nm_ptr := tmp\<rparr>), w))
      else Done ((True, nm), w))"

fun scan_loop ::
  "'a malloc_fn \<Rightarrow> 'a realloc_fn \<Rightarrow> (byte list \<Rightarrow> bool) option \<Rightarrow> byte list list \<Rightarrow> errno \<Rightarrow> scan_names \<Rightarrow> 'a libc_scheme
   \<Rightarrow> (scan_names \<times> 'a libc_scheme) outcome" where
  "scan_loop malloc realloc sel [] end_errno nm w = Done (nm, w\<lparr>errno := end_errno\<rparr>)"
| "scan_loop malloc realloc sel (entry # rest) end_errno nm w =
     (let w = w\<lparr>errno := EOK\<rparr>
      in if sel \<noteq> None \<and> \<not> the sel entry then scan_loop malloc realloc sel rest end_errno nm w
         else obind (grow_names realloc nm w) (\<lambda>((room, nm), w).
           if \<not> room then Done (nm, w)
           else obind (malloc (of_nat (length entry)) w) (\<lambda>(p, w).
                obind (check_slot nm w) (\<lambda>_.
                  if p = NULL then Done (nm, w)
                  else obind (write_cells p 0 (map Some entry) w) (\<lambda>w.
                         scan_loop malloc realloc sel rest end_errno (nm\<lparr>nm_items := nm_items nm @ [p]\<rparr>) w)))))"

text \<open>The error path frees from the last name to the first.\<close>

fun free_all :: "'a free_fn \<Rightarrow> ptr list \<Rightarrow> 'a libc_scheme \<Rightarrow> 'a libc_scheme outcome" where
  "free_all free [] w = Done w"
| "free_all free (p # ps) w = obind (free p w) (free_all free ps)"

text \<open>The result is the value and, where it is not -1, the array stored in \<open>*res\<close>.\<close>

definition scan_directory ::
  "'a malloc_fn \<Rightarrow> 'a realloc_fn \<Rightarrow> 'a free_fn \<Rightarrow> qsort_fn \<Rightarrow> errno + directory \<Rightarrow> (byte list \<Rightarrow> bool) option
   \<Rightarrow> (cell list \<Rightarrow> cell list \<Rightarrow> int) option \<Rightarrow> 'a libc_scheme \<Rightarrow> ((int \<times> scan_names option) \<times> 'a libc_scheme) outcome" where
  "scan_directory malloc realloc free qsort dir sel cmp w =
     (case dir of
        Inl e \<Rightarrow> Done ((-1, None), w\<lparr>errno := e\<rparr>)
      | Inr (entries, end_errno) \<Rightarrow>
          let old_errno = errno w
          in obind (scan_loop malloc realloc sel entries end_errno no_names w) (\<lambda>(nm, w).
               if errno w \<noteq> EOK
               then obind (free_all free (rev (nm_items nm)) w) (\<lambda>w.
                    obind (free (nm_ptr nm) w) (\<lambda>w. Done ((-1, None), w)))
               else let w = w\<lparr>errno := old_errno\<rparr>;
                        nm = (case cmp of
                                None \<Rightarrow> nm
                              | Some c \<Rightarrow> nm\<lparr>nm_items := qsort (\<lambda>p q. c (the (blocks w p)) (the (blocks w q))) (nm_items nm)\<rparr>)
                    in Done ((sint (of_nat (length (nm_items nm)) :: 32 word), Some nm), w)))"

definition scandir ::
  "'a malloc_fn \<Rightarrow> 'a realloc_fn \<Rightarrow> 'a free_fn \<Rightarrow> qsort_fn \<Rightarrow> errno + directory \<Rightarrow> (byte list \<Rightarrow> bool) option
   \<Rightarrow> (cell list \<Rightarrow> cell list \<Rightarrow> int) option \<Rightarrow> 'a libc_scheme \<Rightarrow> ((int \<times> scan_names option) \<times> 'a libc_scheme) outcome" where
  "scandir = scan_directory"

definition scandir64 ::
  "'a malloc_fn \<Rightarrow> 'a realloc_fn \<Rightarrow> 'a free_fn \<Rightarrow> qsort_fn \<Rightarrow> errno + directory \<Rightarrow> (byte list \<Rightarrow> bool) option
   \<Rightarrow> (cell list \<Rightarrow> cell list \<Rightarrow> int) option \<Rightarrow> 'a libc_scheme \<Rightarrow> ((int \<times> scan_names option) \<times> 'a libc_scheme) outcome" where
  "scandir64 = scan_directory"

section \<open>The names collected so far\<close>

text \<open>
  The array and one block per collected entry, all owned and different; compared with the state \<open>w0\<close> before
  the call nothing else changed.
\<close>

definition names_ok ::
  "('a libc_scheme \<Rightarrow> ptr \<Rightarrow> bool) \<Rightarrow> 'a libc_scheme \<Rightarrow> byte list list \<Rightarrow> scan_names \<Rightarrow> 'a libc_scheme \<Rightarrow> bool" where
  "names_ok owned w0 entries nm w \<longleftrightarrow>
     length (nm_items nm) = length entries \<and> distinct (nm_items nm) \<and> nm_ptr nm \<notin> set (nm_items nm) \<and> NULL \<notin> set (nm_items nm)
     \<and> (\<forall>i < length entries. blocks w (nm_items nm ! i) = Some (map Some (entries ! i)))
     \<and> (\<forall>p \<in> set (nm_items nm). owned w p \<and> blocks w0 p = None)
     \<and> (if nm_ptr nm = NULL then nm_items nm = [] \<and> nm_capacity nm = 0
        else owned w (nm_ptr nm) \<and> blocks w0 (nm_ptr nm) = None \<and> length entries \<le> unat (nm_capacity nm)
          \<and> unat (nm_capacity nm) * 8 \<le> SSIZE_MAX
          \<and> (\<exists>cs. blocks w (nm_ptr nm) = Some cs \<and> length cs = unat (nm_capacity nm) * 8))
     \<and> (\<forall>q. blocks w0 q \<noteq> None \<longrightarrow> blocks w q = blocks w0 q \<and> owned w q = owned w0 q)
     \<and> (\<forall>q. blocks w q \<noteq> None \<longrightarrow> blocks w0 q \<noteq> None \<or> q = nm_ptr nm \<or> q \<in> set (nm_items nm))"

lemma names_ok_state: "blocks w' = blocks w \<Longrightarrow> owned w' = owned w \<Longrightarrow> names_ok owned w0 es nm w' = names_ok owned w0 es nm w"
  by (simp add: names_ok_def)

lemma names_ok_start: "blocks w = blocks w0 \<Longrightarrow> owned w = owned w0 \<Longrightarrow> names_ok owned w0 [] no_names w"
  by (simp add: names_ok_def no_names_def)

lemma names_ok_live: "names_ok owned w0 es nm w \<Longrightarrow> q \<in> set (nm_items nm) \<Longrightarrow> blocks w q \<noteq> None"
  by (auto simp: names_ok_def in_set_conv_nth)

text \<open>Moving the array keeps the names.\<close>

lemma names_ok_moved:
  assumes ok: "names_ok owned w0 es nm w" and rep: "replaced owned (nm_ptr nm) w t w'" and t: "t \<noteq> NULL" "owned w' t"
    and cap: "length es \<le> unat c" "unat c * 8 \<le> SSIZE_MAX" "\<exists>cs. blocks w' t = Some cs \<and> length cs = unat c * 8"
    and nul: "blocks w0 NULL = None"
  shows "names_ok owned w0 es (nm\<lparr>nm_capacity := c, nm_ptr := t\<rparr>) w'"
proof -
  have bl: "blocks w' q = ((blocks w)(nm_ptr nm := None, t := blocks w' t)) q" for q
    using rep unfolding replaced_def by metis
  have ow: "q \<noteq> nm_ptr nm \<Longrightarrow> q \<noteq> t \<Longrightarrow> blocks w q \<noteq> None \<Longrightarrow> owned w' q = owned w q" for q
    using rep by (simp add: replaced_def)
  have fresh: "t = nm_ptr nm \<or> blocks w t = None" using rep by (simp add: replaced_def)
  note item = names_ok_live [OF ok]
  have it: "q \<noteq> nm_ptr nm \<and> q \<noteq> t" if "q \<in> set (nm_items nm)" for q
    using ok fresh item [OF that] that by (auto simp: names_ok_def)
  have t0: "blocks w0 t = None"
  proof (rule ccontr)
    assume a: "blocks w0 t \<noteq> None"
    then have "blocks w t \<noteq> None" using ok unfolding names_ok_def by metis
    with fresh have "t = nm_ptr nm" by blast
    with a t(1) ok show False by (simp add: names_ok_def)
  qed
  have old: "q \<noteq> nm_ptr nm \<and> q \<noteq> t" if "blocks w0 q \<noteq> None" for q
    using that t0 ok nul by (auto simp: names_ok_def split: if_splits)
  have w0: "blocks w' q = blocks w0 q \<and> owned w' q = owned w0 q" if "blocks w0 q \<noteq> None" for q
  proof -
    have "blocks w q = blocks w0 q \<and> owned w q = owned w0 q" using ok that unfolding names_ok_def by blast
    with old [OF that] ow [of q] bl [of q] that show ?thesis by simp
  qed
  have new: "blocks w0 q \<noteq> None \<or> q = t \<or> q \<in> set (nm_items nm)" if "blocks w' q \<noteq> None" for q
  proof (cases "q = t")
    case False
    then have "q \<noteq> nm_ptr nm" "blocks w q \<noteq> None" using that bl [of q] by (auto split: if_splits)
    with ok show ?thesis unfolding names_ok_def by blast
  qed simp
  have items: "owned w' q \<and> blocks w' q = blocks w q" if "q \<in> set (nm_items nm)" for q
  proof -
    have "owned w q" using ok that by (simp add: names_ok_def)
    with it [OF that] ow [OF _ _ item [OF that]] bl [of q] show ?thesis by simp
  qed
  then have nth: "blocks w' (nm_items nm ! i) = Some (map Some (es ! i))" if "i < length es" for i
    using ok that by (simp add: names_ok_def)
  have "t \<notin> set (nm_items nm)" using it by blast
  then show ?thesis
    using ok t t0 cap w0 new items nth unfolding names_ok_def by simp
qed

text \<open>A further name.\<close>

lemma names_ok_add:
  assumes ok: "names_ok owned w0 es nm w" and p: "p \<noteq> NULL" "blocks w p = None" and room: "nm_ptr nm \<noteq> NULL" "length es < unat (nm_capacity nm)"
    and w': "blocks w' = (blocks w)(p \<mapsto> map Some e)" "owned w' = (owned w)(p := True)"
  shows "names_ok owned w0 (es @ [e]) (nm\<lparr>nm_items := nm_items nm @ [p]\<rparr>) w'"
proof -
  note o = ok [unfolded names_ok_def]
  have live: "q \<noteq> p" if "blocks w q \<noteq> None" for q using that p(2) by auto
  have p0: "blocks w0 p = None" using o p(2) by metis
  have item: "q \<noteq> p" if "q \<in> set (nm_items nm)" for q
    using live names_ok_live [OF ok that] by blast
  have ptr: "nm_ptr nm \<noteq> p" using o room(1) live by auto
  have nth: "blocks w' ((nm_items nm @ [p]) ! i) = Some (map Some ((es @ [e]) ! i))" if "i < Suc (length es)" for i
  proof (cases "i < length es")
    case True
    moreover from this have "nm_items nm ! i \<noteq> p" using o item by simp
    ultimately show ?thesis using o w'(1) by (simp add: nth_append)
  next
    case False
    with that have "i = length es" by simp
    with o w'(1) show ?thesis by (simp add: nth_append)
  qed
  have w0: "blocks w' q = blocks w0 q \<and> owned w' q = owned w0 q" if "blocks w0 q \<noteq> None" for q
    using o that p0 w' by (auto simp: fun_upd_apply)
  have new: "blocks w0 q \<noteq> None \<or> q = nm_ptr nm \<or> q \<in> set (nm_items nm @ [p])" if "blocks w' q \<noteq> None" for q
    using o that w'(1) by (auto split: if_splits)
  have own: "owned w' q \<and> blocks w0 q = None" if "q \<in> set (nm_items nm @ [p])" for q
    using o that w'(2) p0 by auto
  show ?thesis
    using o p(1) room w' ptr item nth w0 new own unfolding names_ok_def by (auto simp del: nth_append)
qed

lemma names_ok_capacity:
  "names_ok owned w0 es nm w \<Longrightarrow> unat (nm_capacity nm) * 8 \<le> SSIZE_MAX \<and> length es \<le> unat (nm_capacity nm)
     \<and> length (nm_items nm) = length es"
  by (auto simp: names_ok_def split: if_splits)

context c_allocator
begin

lemma replaced_room:
  assumes "inv w" "inv w'" "replaced owned s w t w'"
  shows "room w \<le> Suc (room w')"
proof (rule room_law [OF assms(1,2), of t])
  fix p assume p: "owned w' p"
  then have "blocks w' p \<noteq> None" using owned_live_law assms(2) by blast
  moreover have "blocks w' p = ((blocks w)(s := None, t := blocks w' t)) p"
    using assms(3) unfolding replaced_def by metis
  ultimately have "p = t \<or> p \<noteq> s \<and> blocks w p \<noteq> None" by (auto split: if_splits)
  with assms(3) p show "p = t \<or> owned w p" by (auto simp: replaced_def)
qed

text \<open>The overflow check of the capacity never fires: the allocator refuses such an array before.\<close>

lemma grow_names_law:
  assumes inv: "inv w" and ok: "names_ok owned w0 es nm w" and nul: "blocks w0 NULL = None"
  shows "wp (room w = 0) (grow_names realloc nm w) (\<lambda>((good, nm'), w'). inv w' \<and> room w \<le> Suc (room w') \<and> nm_items nm' = nm_items nm \<and>
    (if good then names_ok owned w0 es nm' w' \<and> nm_ptr nm' \<noteq> NULL \<and> length es < unat (nm_capacity nm')
     else nm_ptr nm' = nm_ptr nm \<and> blocks w' = blocks w \<and> owned w' = owned w \<and> errno w' = ENOMEM))"
proof (cases "of_nat (length (nm_items nm)) \<ge> nm_capacity nm")
  case False
  have n: "unat (nm_capacity nm) * 8 \<le> SSIZE_MAX" "length (nm_items nm) = length es" "length es \<le> unat (nm_capacity nm)"
    using names_ok_capacity [OF ok] by simp_all
  then have "unat (of_nat (length (nm_items nm)) :: size_t) = length es" by (simp add: unat_of_nat_lt)
  with False have lt: "length es < unat (nm_capacity nm)" by (simp add: word_le_nat_alt)
  then have "nm_ptr nm \<noteq> NULL" using ok by (auto simp: names_ok_def)
  with False lt ok inv show ?thesis by (simp add: grow_names_def)
next
  case True
  have n: "unat (nm_capacity nm) * 8 \<le> SSIZE_MAX" "length (nm_items nm) = length es" "length es \<le> unat (nm_capacity nm)"
    using names_ok_capacity [OF ok] by simp_all
  let ?c = "2 * nm_capacity nm + 1"
  have small: "unat (nm_capacity nm) \<le> 1152921504606846975" using n(1) by simp
  then have c: "unat ?c = 2 * unat (nm_capacity nm) + 1" by (simp add: unat_word_ariths)
  have c8: "unat (?c * sizeof_pointer) = unat ?c * 8"
    using c small by (simp add: unat_word_ariths sizeof_pointer_def)
  have nover: "\<not> ?c > SIZE_MAX div sizeof_pointer"
    using c small by (simp add: word_less_nat_alt unat_div sizeof_pointer_def unat_SIZE_MAX)
  have nz: "?c * sizeof_pointer \<noteq> 0" using c8 c by auto
  have s: "nm_ptr nm \<noteq> NULL \<Longrightarrow> owned w (nm_ptr nm) \<and> blocks w (nm_ptr nm) \<noteq> None"
    using ok by (auto simp: names_ok_def)
  have eq: "grow_names realloc nm w = obind (realloc (nm_ptr nm) (?c * sizeof_pointer) w) (\<lambda>(tmp, w).
      if tmp = NULL then Done ((False, nm\<lparr>nm_capacity := ?c\<rparr>), w)
      else Done ((True, nm\<lparr>nm_capacity := ?c, nm_ptr := tmp\<rparr>), w))"
    using True nover by (simp add: grow_names_def Let_def)
  show ?thesis
    unfolding eq
  proof (rule wp_bindI [OF realloc_buffer_law [OF inv nz s]], assumption, simp, goal_cases)
    case (1 x)
    obtain t u where x: "x = (t, u)" by (cases x)
    show ?case
    proof (cases "t = NULL")
      case True
      with 1 x show ?thesis by simp
    next
      case False
      with 1 x have u: "inv u" "replaced owned (nm_ptr nm) w t u" "owned u t" "unat ?c * 8 \<le> SSIZE_MAX"
          "\<exists>cs. blocks u t = Some cs \<and> length cs = unat ?c * 8"
        using c8 by auto
      have "length es < unat ?c" using c n(3) by simp
      then have "names_ok owned w0 es (nm\<lparr>nm_capacity := ?c, nm_ptr := t\<rparr>) u"
        using False u by (intro names_ok_moved [OF ok u(2) False u(3)] nul) simp_all
      with False x u \<open>length es < unat ?c\<close> replaced_room [OF inv u(1,2)] show ?thesis by simp
    qed
  qed
qed

lemma scan_loop_law:
  assumes "inv w" "names_ok owned w0 es nm w" and nul: "blocks w0 NULL = None" and "list_all (\<lambda>e. length e < 65536) rest"
  shows "wp (room w < 2 * length rest) (scan_loop malloc realloc sel rest end_errno nm w) (\<lambda>(nm', w'). inv w' \<and>
    (if errno w' = EOK
     then end_errno = EOK \<and> names_ok owned w0 (es @ filter (\<lambda>e. sel = None \<or> the sel e) rest) nm' w'
     else \<exists>es' c. names_ok owned w0 es' (nm'\<lparr>nm_capacity := c\<rparr>) w'))"
  using assms(1,2,4)
proof (induction rest arbitrary: nm w es)
  case Nil
  have ok: "names_ok owned w0 es nm (w\<lparr>errno := end_errno\<rparr>)"
    using Nil.prems(2) names_ok_state [of "w\<lparr>errno := end_errno\<rparr>" w owned w0 es nm] by (simp add: errno_laws)
  then have "names_ok owned w0 es (nm\<lparr>nm_capacity := nm_capacity nm\<rparr>) (w\<lparr>errno := end_errno\<rparr>)" by simp
  then have "\<exists>es' c. names_ok owned w0 es' (nm\<lparr>nm_capacity := c\<rparr>) (w\<lparr>errno := end_errno\<rparr>)" by blast
  with ok Nil.prems(1) show ?case by (cases "end_errno = EOK") (simp_all add: errno_laws)
next
  case (Cons e rest)
  let ?w = "w\<lparr>errno := EOK\<rparr>"
  have w: "inv ?w" "names_ok owned w0 es nm ?w" "room ?w = room w"
    using Cons.prems(1,2) names_ok_state [of ?w w owned w0 es nm] by (simp_all add: errno_laws)
  have e: "length e < 65536" "list_all (\<lambda>e. length e < 65536) rest" using Cons.prems(3) by simp_all
  show ?case
  proof (cases "sel \<noteq> None \<and> \<not> the sel e")
    case True
    from Cons.IH [OF w(1,2) e(2)] True w(3) show ?thesis by (auto elim!: wp_conseq)
  next
    case False
    have eq: "scan_loop malloc realloc sel (e # rest) end_errno nm w =
        obind (grow_names realloc nm ?w) (\<lambda>((good, nm), w).
           if \<not> good then Done (nm, w)
           else obind (malloc (of_nat (length e)) w) (\<lambda>(p, w).
                obind (check_slot nm w) (\<lambda>_.
                  if p = NULL then Done (nm, w)
                  else obind (write_cells p 0 (map Some e) w) (\<lambda>w.
                         scan_loop malloc realloc sel rest end_errno (nm\<lparr>nm_items := nm_items nm @ [p]\<rparr>) w))))"
      unfolding scan_loop.simps Let_def if_not_P [OF False] by (rule refl)
    show ?thesis
      unfolding eq
    proof (rule wp_bindI [OF grow_names_law [OF w(1,2) nul]], simp add: w(3), goal_cases)
      case (1 x)
      obtain good nm1 u where x: "x = ((good, nm1), u)" by (metis surj_pair)
      note g = 1 [unfolded x prod.case]
      show ?case
      proof (cases good)
        case False
        have nm: "nm1\<lparr>nm_capacity := nm_capacity nm\<rparr> = nm"
          by (rule scan_names.equality) (use g False in simp_all)
        have "names_ok owned w0 es (nm1\<lparr>nm_capacity := nm_capacity nm\<rparr>) u"
          unfolding nm using g False w(2) names_ok_state [of u ?w owned w0 es nm] by (simp add: errno_laws)
        with g False x show ?thesis by auto
      next
        case True
        with g w(3) have u: "inv u" "names_ok owned w0 es nm1 u" "nm_ptr nm1 \<noteq> NULL" "length es < unat (nm_capacity nm1)"
            "room w \<le> Suc (room u)"
          by auto
        show ?thesis
          unfolding x prod.case if_not_P [OF not_not [THEN iffD2, OF True]]
        proof (rule wp_bindI [OF malloc_law [OF u(1)]], use u(5) in simp, goal_cases)
          case (1 y)
          obtain p v where y: "y = (p, v)" by (cases y)
          note m = 1 [unfolded y prod.case malloc_result_def]
          have le: "unat (of_nat (length e) :: size_t) = length e" using e(1) by (intro unat_of_nat_lt) simp
          have slot: "check_slot nm1 v = Done ()"
          proof -
            obtain cs where cs: "blocks u (nm_ptr nm1) = Some cs" "length cs = unat (nm_capacity nm1) * 8"
              using u(2,3) by (auto simp: names_ok_def)
            have "blocks v (nm_ptr nm1) = Some cs"
              using m cs(1) by (cases "p = NULL") auto
            moreover have "length (nm_items nm1) = length es" using u(2) by (simp add: names_ok_def)
            ultimately show ?thesis using cs(2) u(4) by (simp add: check_slot_def)
          qed
          show ?case
          proof (cases "p = NULL")
            case True
            have "names_ok owned w0 es (nm1\<lparr>nm_capacity := nm_capacity nm1\<rparr>) v"
              using True u(2) m names_ok_state [of v u owned w0 es nm1] by simp
            then have "\<exists>es' c. names_ok owned w0 es' (nm1\<lparr>nm_capacity := c\<rparr>) v" by (intro exI)
            with True y slot m show ?thesis by (auto simp del: scan_names.surjective)
          next
            case False
            with m le have v: "inv v" "blocks u p = None" "blocks v = (blocks u)(p \<mapsto> replicate (length e) None)"
                "owned v = (owned u)(p := True)" "room u \<le> Suc (room v)"
              by auto
            have wr: "wp False (write_cells p 0 (map Some e) v) (\<lambda>t. inv t \<and> owned t = owned v \<and> room t = room v
                \<and> blocks t = (blocks v)(p \<mapsto> overwrite 0 (map Some e) (replicate (length e) None)) \<and> errno t = errno v)"
              using v by (intro write_law) simp_all
            show ?thesis
              unfolding y prod.case slot obind.simps if_not_P [OF False]
            proof (rule wp_bindI [OF wr], simp, goal_cases)
              case (1 t)
              then have t: "inv t" "owned t = (owned u)(p := True)" "blocks t = (blocks u)(p \<mapsto> map Some e)" "room t = room v"
                using v by (simp_all add: overwrite_full)
              have "names_ok owned w0 (es @ [e]) (nm1\<lparr>nm_items := nm_items nm1 @ [p]\<rparr>) t"
                by (rule names_ok_add [OF u(2) False v(2) u(3,4) t(3,2)])
              from Cons.IH [OF t(1) this e(2)] show ?case
                using \<open>\<not> (sel \<noteq> None \<and> \<not> the sel e)\<close> t(4) v(5) u(5) by (auto elim!: wp_conseq)
            qed
          qed
        qed
      qed
    qed
  qed
qed

lemma free_all_law:
  assumes "inv w" "distinct ps" "\<And>p. p \<in> set ps \<Longrightarrow> p \<noteq> NULL \<and> owned w p \<and> blocks w p \<noteq> None"
  shows "wp False (free_all free ps w) (\<lambda>w'. inv w' \<and> blocks w' = (\<lambda>q. if q \<in> set ps then None else blocks w q)
    \<and> owned w' = (\<lambda>q. q \<notin> set ps \<and> owned w q) \<and> errno w' = errno w)"
  using assms
proof (induction ps arbitrary: w)
  case (Cons p ps)
  obtain cs where p: "p \<noteq> NULL" "owned w p" "blocks w p = Some cs" using Cons.prems(3) [of p] by auto
  show ?case
    unfolding free_all.simps
  proof (rule wp_bindI [OF free_law [OF Cons.prems(1) p(2,1,3)]], simp, goal_cases)
    case (1 u)
    then have u: "inv u" "blocks u = (blocks w)(p := None)" "owned u = (owned w)(p := False)" "errno u = errno w" by simp_all
    have "q \<noteq> NULL \<and> owned u q \<and> blocks u q \<noteq> None" if "q \<in> set ps" for q
      using Cons.prems(2,3) that u by auto
    from Cons.IH [OF u(1) _ this] Cons.prems(2) show ?case
      by (auto elim!: wp_conseq simp: u fun_eq_iff split: if_splits)
  qed
qed simp

text \<open>Releasing everything collected restores the heap of the state before.\<close>

lemma release_names_law:
  assumes inv: "inv w" "inv w0" and ok: "names_ok owned w0 es nm w"
  shows "wp False (obind (free_all free (rev (nm_items nm)) w) (free (nm_ptr nm)))
    (\<lambda>w'. inv w' \<and> blocks w' = blocks w0 \<and> owned w' = owned w0 \<and> errno w' = errno w)"
proof -
  note o = ok [unfolded names_ok_def]
  have items: "p \<noteq> NULL \<and> owned w p \<and> blocks w p \<noteq> None" if "p \<in> set (rev (nm_items nm))" for p
    using o that names_ok_live [OF ok, of p] by auto
  have d: "distinct (rev (nm_items nm))" using o by simp
  have N: "blocks w NULL = None" "blocks w0 NULL = None" using inv NULL_law by auto
  have fin: "inv w' \<and> blocks w' = blocks w0 \<and> owned w' = owned w0 \<and> errno w' = errno w"
    if w': "inv w'" "\<And>q. blocks w' q = (if q \<in> set (nm_items nm) \<or> q = nm_ptr nm then None else blocks w q)"
      "\<And>q. owned w' q = (q \<notin> set (nm_items nm) \<and> (nm_ptr nm = NULL \<or> q \<noteq> nm_ptr nm) \<and> owned w q)" "errno w' = errno w" for w'
  proof -
    have b: "blocks w' q = blocks w0 q" for q
    proof (cases "q \<in> set (nm_items nm) \<or> q = nm_ptr nm")
      case True
      then have "blocks w0 q = None" using o N by (auto split: if_splits)
      with True w'(2) show ?thesis by simp
    next
      case False
      then have "blocks w q = blocks w0 q" using o by (cases "blocks w q") metis+
      with False w'(2) show ?thesis by simp
    qed
    have "owned w' q = owned w0 q" for q
    proof (cases "blocks w0 q = None")
      case True
      then show ?thesis using b [of q] owned_live_law inv(2) w'(1) by metis
    next
      case False
      then have "q \<notin> set (nm_items nm)" "nm_ptr nm = NULL \<or> q \<noteq> nm_ptr nm" "owned w q = owned w0 q"
        using o by (auto split: if_splits)
      with w'(3) show ?thesis by simp
    qed
    with b w'(1,4) show ?thesis by (simp add: fun_eq_iff)
  qed
  show ?thesis
  proof (rule wp_bindI [OF free_all_law [OF inv(1) d items]], simp, simp, goal_cases)
    case (1 u)
    then have u: "inv u" "blocks u = (\<lambda>q. if q \<in> set (nm_items nm) then None else blocks w q)"
        "owned u = (\<lambda>q. q \<notin> set (nm_items nm) \<and> owned w q)" "errno u = errno w" by simp_all
    show ?case
    proof (cases "nm_ptr nm = NULL")
      case True
      have "inv u \<and> blocks u = blocks w0 \<and> owned u = owned w0 \<and> errno u = errno w"
        by (rule fin) (use u N True in \<open>simp_all add: fun_eq_iff\<close>)
      with True show ?thesis by (simp add: free_NULL_law)
    next
      case False
      then obtain cs where "blocks u (nm_ptr nm) = Some cs" "owned u (nm_ptr nm)" using o u by auto
      note law = free_law [OF u(1) this(2) False this(1)]
      have "inv x \<and> blocks x = blocks w0 \<and> owned x = owned w0 \<and> errno x = errno w"
        if "inv x \<and> blocks x = (blocks u)(nm_ptr nm := None) \<and> owned x = (owned u)(nm_ptr nm := False)
          \<and> errno x = errno u" for x
        by (rule fin) (use that u False in \<open>simp_all add: fun_eq_iff\<close>)
      with law show ?thesis by (auto elim!: wp_conseq)
    qed
  qed
qed

end

text \<open>\<open>qsort\<close> permutes the array.\<close>

definition qsort_contract :: "qsort_fn \<Rightarrow> bool" where
  "qsort_contract qsort \<longleftrightarrow> (\<forall>c xs. mset (qsort c xs) = mset xs)"

text \<open>
  The result of scanning a directory: all selected entries, copied, the array a permutation of
  the order of the directory; or -1 with the heap as before.
\<close>

definition scanned ::
  "('a libc_scheme \<Rightarrow> ptr \<Rightarrow> bool) \<Rightarrow> byte list list \<Rightarrow> errno \<Rightarrow> bool \<Rightarrow> 'a libc_scheme \<Rightarrow> int \<Rightarrow> scan_names option \<Rightarrow> 'a libc_scheme \<Rightarrow> bool" where
  "scanned owned es end_errno reorder w ret res w' \<longleftrightarrow>
     (case res of
        None \<Rightarrow> ret = -1 \<and> blocks w' = blocks w \<and> owned w' = owned w \<and> errno w' \<noteq> EOK
      | Some nm \<Rightarrow> end_errno = EOK \<and> errno w' = errno w \<and> ret = sint (of_nat (length es) :: 32 word)
          \<and> (\<exists>nm0. names_ok owned w es nm0 w' \<and> nm_ptr nm = nm_ptr nm0 \<and> mset (nm_items nm) = mset (nm_items nm0)
               \<and> (\<not> reorder \<longrightarrow> nm_items nm = nm_items nm0)))"

context c_allocator
begin

text \<open>The loop from the empty array.\<close>

lemma scan_start_law:
  assumes "inv w" "list_all (\<lambda>e. length e < 65536) entries"
  shows "wp (room w < 2 * length entries) (scan_loop malloc realloc sel entries end_errno no_names w) (\<lambda>(nm', w'). inv w' \<and>
    (if errno w' = EOK
     then end_errno = EOK \<and> names_ok owned w (filter (\<lambda>e. sel = None \<or> the sel e) entries) nm' w'
     else \<exists>es' c. names_ok owned w es' (nm'\<lparr>nm_capacity := c\<rparr>) w'))"
  by (rule scan_loop_law [where es = "[]", OF assms(1) names_ok_start [OF refl refl] NULL_law [OF assms(1)] assms(2),
        unfolded append.append_Nil])

text \<open>Leaving on an error: everything is released.\<close>

lemma scan_failed_law:
  assumes "inv u" "inv w" "names_ok owned w es (nm\<lparr>nm_capacity := c\<rparr>) u" "errno u \<noteq> EOK"
  shows "wp False (obind (free_all free (rev (nm_items nm)) u) (\<lambda>w. obind (free (nm_ptr nm) w) (\<lambda>w. Done ((-1, None), w))))
    (\<lambda>((ret, res), w'). inv w' \<and> scanned owned es' end_errno reorder w ret res w')"
proof -
  have "wp False (obind (free_all free (rev (nm_items nm)) u) (free (nm_ptr nm)))
      (\<lambda>w'. inv w' \<and> blocks w' = blocks w \<and> owned w' = owned w \<and> errno w' = errno u)"
    using release_names_law [OF assms(1-3)] by simp
  then have "wp False (obind (obind (free_all free (rev (nm_items nm)) u) (free (nm_ptr nm))) (\<lambda>w. Done ((-1, None), w)))
      (\<lambda>((ret, res), w'). inv w' \<and> scanned owned es' end_errno reorder w ret res w')"
    by (rule wp_bindI) (use assms(4) in \<open>simp_all add: scanned_def\<close>)
  then show ?thesis by (simp only: obind_assoc)
qed

text \<open>The order of the names changes, their contents do not.\<close>

lemma scanned_names:
  assumes ok: "names_ok owned w es nm u" and nm': "mset (nm_items nm') = mset (nm_items nm)" "nm_ptr nm' = nm_ptr nm"
    "\<not> reorder \<longrightarrow> nm_items nm' = nm_items nm" and "errno u = errno w"
  shows "scanned owned es EOK reorder w (sint (of_nat (length (nm_items nm')) :: 32 word)) (Some nm') u"
proof -
  have "length (nm_items nm') = length es"
    using mset_eq_length [OF nm'(1)] ok by (simp add: names_ok_def)
  moreover have "\<exists>nm0. names_ok owned w es nm0 u \<and> nm_ptr nm' = nm_ptr nm0 \<and> mset (nm_items nm') = mset (nm_items nm0)
      \<and> (\<not> reorder \<longrightarrow> nm_items nm' = nm_items nm0)"
    using assms by (intro exI [of _ nm] conjI)
  ultimately show ?thesis using assms(5) by (simp only: scanned_def option.case simp_thms)
qed

lemma scan_directory_law:
  assumes inv: "inv w" and short: "list_all (\<lambda>e. length e < 65536) entries" and qs: "qsort_contract qsort"
  shows "wp (room w < 2 * length entries) (scan_directory malloc realloc free qsort (Inr (entries, end_errno)) sel cmp w)
    (\<lambda>((ret, res), w'). inv w' \<and> scanned owned (filter (\<lambda>e. sel = None \<or> the sel e) entries) end_errno (cmp \<noteq> None) w ret res w')"
    (is "wp _ _ ?post")
  unfolding scan_directory_def sum.case prod.case Let_def
proof (rule wp_bindI [OF scan_start_law [OF inv short]], simp, goal_cases)
  case (1 x)
  obtain nm u where x: "x = (nm, u)" by (cases x)
  note g = 1 [unfolded x prod.case]
  show ?case
  proof (cases "errno u = EOK")
    case False
    from g False obtain es' c where u: "inv u" "names_ok owned w es' (nm\<lparr>nm_capacity := c\<rparr>) u" by auto
    show ?thesis
      unfolding x prod.case if_P [OF False]
      by (rule wp_conseq [OF scan_failed_law [OF u(1) inv u(2) False]]) simp_all
  next
    case True
    let ?u = "u\<lparr>errno := errno w\<rparr>"
    let ?nm = "case cmp of None \<Rightarrow> nm
      | Some c \<Rightarrow> nm\<lparr>nm_items := qsort (\<lambda>p q. c (the (blocks ?u p)) (the (blocks ?u q))) (nm_items nm)\<rparr>"
    have u: "inv u" "end_errno = EOK" "names_ok owned w (filter (\<lambda>e. sel = None \<or> the sel e) entries) nm u"
      using g True by simp_all
    have ok: "inv ?u" "names_ok owned w (filter (\<lambda>e. sel = None \<or> the sel e) entries) nm ?u" "errno ?u = errno w"
      using u names_ok_state [of ?u u owned w] by (simp_all add: errno_laws)
    have m: "mset (nm_items ?nm) = mset (nm_items nm)" "nm_ptr ?nm = nm_ptr nm" "\<not> cmp \<noteq> None \<longrightarrow> nm_items ?nm = nm_items nm"
      using qs by (simp_all add: qsort_contract_def split: option.split)
    from ok(1) scanned_names [OF ok(2) m ok(3)]
    show ?thesis unfolding x prod.case if_not_P [OF not_not [THEN iffD2, OF True]] wp.simps u(2) by (rule conjI)
  qed
qed

end

end
