(* ===== verification/Preload.thy ===== *)
theory Preload
  imports Mock_Runs Sched_Overrides Stdio_Overrides Line_Overrides Memstream_Runs Wmemstream_Overrides Scanf_Wrappers
    Realpath_Result Dirent_Overrides
begin

text \<open>
  Both libraries preloaded: \<open>liballoc_return_override.so\<close> calls the \<open>malloc\<close>, \<open>realloc\<close> and \<open>free\<close> of
  \<open>libmock_allocator.so\<close>, and its scanners the allocator bridge. The interpretations give every law of
  the overrides for the mock.
\<close>

interpretation mock_alloc: c_allocator malloc realloc free mock_inv mock_owns mock_room
  by (rule mock_keeps_contract)

interpretation mock_bridge:
  scan_bridge malloc realloc free mock_inv mock_owns mock_room ao_alloc_bridge_owns ao_alloc_bridge_libc_free
proof unfold_locales
  fix w :: mock and p
  assume inv: "mock_inv w" and p: "blocks w p \<noteq> None"
  then have live: "live_key p" by (simp add: mock_inv_def heap_ok_def)
  then have n: "p \<noteq> NULL" "p \<noteq> 1" by (auto simp: live_key_def AO_REGISTRY_EMPTY_def AO_REGISTRY_TOMBSTONE_def)
  show "ao_alloc_bridge_owns p w = Done (mock_owns w p, w)"
    unfolding ao_alloc_bridge_owns_def by (rule is_tracked_eq [OF inv n(2)])
  show "wp False (ao_alloc_bridge_libc_free p w) (\<lambda>w'. mock_inv w' \<and> blocks w' = (blocks w)(p := None)
      \<and> mock_owns w' = mock_owns w \<and> mock_room w' = mock_room w \<and> errno w' = errno w)"
    if "\<not> mock_owns w p"
    using p bridge_libc_free_spec [OF inv n(1) _ that]
    by (auto simp: mock_owns_def mock_room_def tracked_def fun_eq_iff)
qed

text \<open>The allocation functions the overrides are linked to.\<close>

definition mock_fns :: "unit mock_ext allocator_fns" where
  "mock_fns = \<lparr>al_malloc = malloc, al_realloc = realloc, al_free = free\<rparr>"

text \<open>The mock's bridge is among the symbols.\<close>

definition bridge_symbols :: "unit mock_ext scanf_symbols \<Rightarrow> bool" where
  "bridge_symbols dl \<longleftrightarrow> sym_bridge_owns dl = Some ao_alloc_bridge_owns
     \<and> sym_bridge_libc_free dl = Some ao_alloc_bridge_libc_free
     \<and> sym_bridge_libc_realloc dl = Some ao_alloc_bridge_libc_realloc"

lemma resolved_bridge:
  assumes "bridge_symbols dl"
  shows "g_bridge_ready (ao_ensure_scanf_symbols dl (ao_ensure_scanf_symbols dl initial_globals))"
    "g_bridge_owns (ao_ensure_scanf_symbols dl (ao_ensure_scanf_symbols dl initial_globals)) = Some ao_alloc_bridge_owns"
    "g_bridge_libc_free (ao_ensure_scanf_symbols dl (ao_ensure_scanf_symbols dl initial_globals)) = Some ao_alloc_bridge_libc_free"
  using assms
  by (simp_all add: bridge_symbols_def ao_ensure_scanf_symbols_def ao_resolve_scanf_symbols_def initial_globals_def)

lemma ensure_once: "ao_ensure_scanf_symbols dl (ao_ensure_scanf_symbols dl g) = ao_ensure_scanf_symbols dl g"
  by (simp add: ao_ensure_scanf_symbols_def)

end
