(* ===== verification/Process.thy ===== *)
theory Process
  imports Preload
begin

text \<open>
  A whole process with both libraries preloaded: the mock allocator, the memory streams that are open, and the
  state of the scanner overrides. A step is a call of any override, an operation of an open stream, or
  anything the program does itself that leaves the blocks of open streams alone.
\<close>

section \<open>Open streams\<close>

datatype 's open_stream = Byte_stream ptr ao_memstream_cookie | Wide_stream ptr "'s ao_wmemstream_cookie"

primrec stream_cookie :: "'s open_stream \<Rightarrow> ptr" where
  "stream_cookie (Byte_stream k c) = k"
| "stream_cookie (Wide_stream k c) = k"

primrec stream_buffer :: "'s open_stream \<Rightarrow> ptr" where
  "stream_buffer (Byte_stream k c) = ck_buf c"
| "stream_buffer (Wide_stream k c) = wck_buf c"

primrec stream_content_ok :: "'s open_stream \<Rightarrow> mock \<Rightarrow> bool" where
  "stream_content_ok (Byte_stream k c) w \<longleftrightarrow> (\<exists>text. memstream_ok mock_owns c text w)"
| "stream_content_ok (Wide_stream k c) w \<longleftrightarrow> (\<exists>chars. wmemstream_ok mock_owns c chars w)"

definition stream_wf :: "mock \<Rightarrow> 's open_stream \<Rightarrow> bool" where
  "stream_wf w st \<longleftrightarrow> stream_content_ok st w \<and> mock_owns w (stream_cookie st)"

definition stream_blocks :: "'s open_stream list \<Rightarrow> ptr set" where
  "stream_blocks ss = stream_cookie ` set ss \<union> stream_buffer ` set ss"

text \<open>No block belongs to two streams, or twice to one.\<close>

definition streams_apart :: "'s open_stream list \<Rightarrow> bool" where
  "streams_apart ss \<longleftrightarrow> distinct (map stream_cookie ss @ map stream_buffer ss)"

text \<open>One call of a callback on an open stream.\<close>

inductive stream_op :: "'s open_stream \<Rightarrow> mock \<Rightarrow> 's open_stream \<Rightarrow> mock \<Rightarrow> bool" where
  op_write: "length data \<le> SSIZE_MAX \<Longrightarrow> ao_memstream_write realloc c data w = Done ((ret, c'), w') \<Longrightarrow>
    stream_op (Byte_stream k c) w (Byte_stream k c') w'"
| op_seek: "ao_memstream_seek c offset whence w = Done ((ret, pos, c'), w') \<Longrightarrow>
    stream_op (Byte_stream k c) w (Byte_stream k c') w'"
| op_wwrite: "mbsnrtowcs_contract mbsnrtowcs \<Longrightarrow> length data \<le> SSIZE_MAX \<Longrightarrow>
    ao_wmemstream_write realloc mbsnrtowcs c data w = Done ((ret, c'), w') \<Longrightarrow>
    stream_op (Wide_stream k c) w (Wide_stream k c') w'"
| op_wseek: "ao_wmemstream_seek zero_state c offset whence w = Done ((ret, pos, c'), w') \<Longrightarrow>
    stream_op (Wide_stream k c) w (Wide_stream k c') w'"

section \<open>Calls that only give out new blocks\<close>

inductive giving_call :: "mock \<Rightarrow> mock \<Rightarrow> bool" where
  call_strdup: "cstring s cells \<Longrightarrow> length cells < 2 ^ 64 \<Longrightarrow> strdup malloc cells w = Done (p, w') \<Longrightarrow> giving_call w w'"
| call_strndup: "cstring s cells \<Longrightarrow> length cells < 2 ^ 64 \<Longrightarrow> strndup malloc cells n w = Done (p, w') \<Longrightarrow> giving_call w w'"
| call_wcsdup: "wcstring ws cells \<Longrightarrow> length cells < 2 ^ 64 \<Longrightarrow> wcsdup malloc cells w = Done (p, w') \<Longrightarrow> giving_call w w'"
| call_asprintf: "length t \<le> INT_MAX \<Longrightarrow> asprintf malloc (Some t) (Some t) w = Done (r, w') \<Longrightarrow> giving_call w w'"
| call_cpualloc: "sched_cpualloc malloc n w = Done (p, w') \<Longrightarrow> giving_call w w'"
| call_getcwd: "(\<And>d. cwd = Inr d \<Longrightarrow> 0 \<notin> set d) \<Longrightarrow> getcwd malloc cwd None sz w = Done ((r, b), w') \<Longrightarrow> giving_call w w'"
| call_get_current_dir_name: "(\<And>d. cwd = Inr d \<Longrightarrow> 0 \<notin> set d) \<Longrightarrow>
    (\<And>d. pwd = Some d \<Longrightarrow> 0 \<notin> set d \<and> length d + 1 < 2 ^ 64) \<Longrightarrow>
    get_current_dir_name malloc cwd pwd stat w = Done (r, w') \<Longrightarrow> giving_call w w'"
| call_realpath: "cstring s name \<Longrightarrow> realpath malloc fs cwd (Some name) None w = Done ((r, b), w') \<Longrightarrow> giving_call w w'"
| call_tempnam: "(\<And>d. dir = Some d \<Longrightarrow> 0 \<notin> set d) \<Longrightarrow> (\<And>x. pfx = Some x \<Longrightarrow> 0 \<notin> set x) \<Longrightarrow>
    tempnam malloc fs clock dir pfx w = Done (r, w') \<Longrightarrow> giving_call w w'"
| call_scandir: "list_all (\<lambda>e. length e < 65536) entries \<Longrightarrow> qsort_contract qsort \<Longrightarrow>
    scandir malloc realloc free qsort (Inr (entries, end_errno)) sel cmp w = Done ((ret, res), w') \<Longrightarrow> giving_call w w'"

lemma duplicated_grows: "duplicated owned new w p w' \<Longrightarrow> grows owned w w'"
  by (auto simp: duplicated_def grows_def split: if_splits)

lemma duplicated_grows_from: "blocks u = blocks w \<Longrightarrow> owned u = owned w \<Longrightarrow> duplicated owned new u p w' \<Longrightarrow> grows owned w w'"
  using duplicated_grows [of owned new u p w'] by (simp add: grows_def)

lemma path_returned_grows: "path_returned owned w good r w' \<Longrightarrow> grows owned w w'"
  by (auto simp: path_returned_def intro: grows_unchanged duplicated_grows_from)

lemma getcwd_grows: "getcwd_spec owned cwd w r w' \<Longrightarrow> grows owned w w'"
  by (auto simp: getcwd_spec_def intro: grows_unchanged duplicated_grows split: sum.splits if_splits)

lemma tempnam_grows: "tempnam_spec owned fs name w r w' \<Longrightarrow> grows owned w w'"
  by (auto simp: tempnam_spec_def intro: grows_unchanged duplicated_grows_from)

lemma scanned_grows: "scanned owned es e reorder w ret res w' \<Longrightarrow> grows owned w w'"
  by (cases res) (auto simp: scanned_def names_ok_def grows_def)

lemma wrapped_grows: "wrapped malloc g owned parse scan rs vars w ret vars' w' \<Longrightarrow> grows owned w w'"
  by (simp add: wrapped_def)

lemma malloc_result_grows: "malloc_result owned room n w p w' \<Longrightarrow> grows owned w w'"
  by (auto simp: malloc_result_def grows_def split: if_splits)

lemma strdup_grows:
  "mock_inv w \<Longrightarrow> cstring s cells \<Longrightarrow> length cells < 2 ^ 64 \<Longrightarrow> strdup malloc cells w = Done (p, w') \<Longrightarrow>
   mock_inv w' \<and> grows mock_owns w w'"
  using mock_alloc.strdup_law [of w s cells] by (auto intro: duplicated_grows)

lemma getcwd_call_grows:
  "mock_inv w \<Longrightarrow> (\<And>d. cwd = Inr d \<Longrightarrow> 0 \<notin> set d) \<Longrightarrow> getcwd malloc cwd None sz w = Done ((r, b), w') \<Longrightarrow>
   mock_inv w' \<and> grows mock_owns w w'"
  using mock_alloc.getcwd_law [of w cwd sz] by (auto intro: getcwd_grows)

lemma giving_call_grows:
  assumes "giving_call w w'" "mock_inv w"
  shows "mock_inv w' \<and> grows mock_owns w w'"
  using assms
proof (induction rule: giving_call.induct)
  case (call_strdup s cells w p w')
  then show ?case by (intro strdup_grows)
next
  case (call_strndup s cells n w p w')
  with mock_alloc.strndup_law [OF call_strndup.prems call_strndup.hyps(1,2), of n] show ?case by (auto intro: duplicated_grows)
next
  case (call_wcsdup ws cells w p w')
  with mock_alloc.wcsdup_law [OF call_wcsdup.prems call_wcsdup.hyps(1,2)] show ?case by (auto intro: duplicated_grows)
next
  case (call_asprintf t w r w')
  with mock_alloc.vasprintf_law [OF call_asprintf.prems call_asprintf.hyps(1)] show ?case
    by (auto simp: asprintf_def intro: duplicated_grows)
next
  case (call_cpualloc n w p w')
  with mock_alloc.malloc_law [OF call_cpualloc.prems, of "ao_cpu_alloc_size n"] show ?case
    by (auto simp: sched_cpualloc_def intro: malloc_result_grows)
next
  case (call_getcwd cwd sz w r b w')
  then show ?case by (intro getcwd_call_grows)
next
  case (call_get_current_dir_name cwd pwd stat w r w')
  show ?case
  proof (cases "pwd \<noteq> None \<and> the pwd \<noteq> [] \<and> stat (the pwd) \<noteq> None \<and> stat [46] \<noteq> None \<and> stat (the pwd) = stat [46]")
    case True
    then obtain d where d: "pwd = Some d" by auto
    from d call_get_current_dir_name.hyps(2) have "cstring d (map Some (d @ [0]))" "length (map Some (d @ [0 :: byte])) < 2 ^ 64"
      by (simp_all add: cstring_def)
    moreover obtain p where "strdup malloc (map Some (d @ [0])) w = Done (p, w')"
      using call_get_current_dir_name.hyps(3) True d by (auto simp: get_current_dir_name_def obind_eq_Done)
    ultimately show ?thesis using call_get_current_dir_name.prems by (intro strdup_grows)
  next
    case False
    then obtain b where "getcwd malloc cwd None 0 w = Done ((r, b), w')"
      using call_get_current_dir_name.hyps(3) unfolding get_current_dir_name_def if_not_P [OF False]
      by (auto simp: obind_eq_Done)
    with call_get_current_dir_name show ?thesis by (intro getcwd_call_grows)
  qed
next
  case (call_realpath s name fs cwd w r b w')
  with mock_alloc.realpath_law [OF call_realpath.prems call_realpath.hyps(1), of fs cwd] show ?case
    by (auto intro: path_returned_grows)
next
  case (call_tempnam dir pfx fs clock w r w')
  have "0 \<notin> set P_tmpdir" by (simp add: P_tmpdir_def)
  then have "0 \<notin> set (case dir of None \<Rightarrow> P_tmpdir | Some d \<Rightarrow> d)"
    "0 \<notin> set (case pfx of None \<Rightarrow> [116, 101, 109, 112] | Some x \<Rightarrow> x)"
    using call_tempnam.hyps(1,2) by (simp_all split: option.split)
  with mock_alloc.tempnam_law [OF call_tempnam.prems refl _ refl, where fs = fs and clock = clock] call_tempnam.hyps(3)
  show ?case by (fastforce intro: tempnam_grows)
next
  case (call_scandir entries qsort end_errno sel cmp w ret res w')
  with mock_alloc.scan_directory_law [OF call_scandir.prems call_scandir.hyps(1,2), of end_errno sel cmp] show ?case
    by (auto simp: scandir_def intro: scanned_grows)
qed

section \<open>The process\<close>

record 's process =
  mem :: mock
  streams :: "'s open_stream list"
  scan_globals :: "unit mock_ext scanf_globals"

text \<open>What a step must not touch: the blocks of the open streams.\<close>

definition untouched :: "ptr set \<Rightarrow> mock \<Rightarrow> mock \<Rightarrow> bool" where
  "untouched A w w' \<longleftrightarrow> (\<forall>q \<in> A. blocks w' q = blocks w q \<and> mock_owns w' q = mock_owns w q)"

text \<open>\<open>dl\<close> is what \<open>dlsym\<close> answers.\<close>

inductive process_step :: "unit mock_ext scanf_symbols \<Rightarrow> 's process \<Rightarrow> 's process \<Rightarrow> bool" for dl where
  step_program: "mock_step (mem s) w \<Longrightarrow> untouched (stream_blocks (streams s)) (mem s) w \<Longrightarrow>
    process_step dl s (s\<lparr>mem := w\<rparr>)"
| step_giving: "giving_call (mem s) w \<Longrightarrow> process_step dl s (s\<lparr>mem := w\<rparr>)"
| step_line: "line_buffer mock_owns p n (mem s) \<Longrightarrow> p \<notin> stream_blocks (streams s) \<Longrightarrow>
    getdelim realloc (Some p) (Some n) delim f (mem s) = Done (r, f', w) \<Longrightarrow> process_step dl s (s\<lparr>mem := w\<rparr>)"
| step_open: "fopencookie_contract mock_inv mock_owns fopencookie \<Longrightarrow>
    open_memstream malloc free fopencookie (mem s) = Done ((stream, r), w) \<Longrightarrow>
    ss = (if stream = NULL then [] else case r of None \<Rightarrow> [] | Some (k, c) \<Rightarrow> [Byte_stream k c]) \<Longrightarrow>
    process_step dl s (s\<lparr>mem := w, streams := ss @ streams s\<rparr>)"
| step_wopen: "fopencookie_contract mock_inv mock_owns fopencookie \<Longrightarrow>
    open_wmemstream malloc free fopencookie zero_state (mem s) = Done ((stream, r), w) \<Longrightarrow>
    ss = (if stream = NULL then [] else case r of None \<Rightarrow> [] | Some (k, c) \<Rightarrow> [Wide_stream k c]) \<Longrightarrow>
    process_step dl s (s\<lparr>mem := w, streams := ss @ streams s\<rparr>)"
| step_stream: "i < length (streams s) \<Longrightarrow> stream_op (streams s ! i) (mem s) st w \<Longrightarrow>
    process_step dl s (s\<lparr>mem := w, streams := (streams s)[i := st]\<rparr>)"
| step_close: "i < length (streams s) \<Longrightarrow>
    (case streams s ! i of Byte_stream k c \<Rightarrow> ao_memstream_close free k (mem s)
     | Wide_stream k c \<Rightarrow> ao_wmemstream_close free k (mem s)) = Done (ret, w) \<Longrightarrow>
    process_step dl s (s\<lparr>mem := w, streams := take i (streams s) @ drop (Suc i) (streams s)\<rparr>)"
| step_scanf: "format_records narrow_mode format 0 ap = Done rs \<Longrightarrow>
    (\<And>f. real = Some f \<Longrightarrow> scanner_contract mock_inv mock_owns mock_room (f input format ap) vars rs) \<Longrightarrow>
    wrap_scanf (ao_parse_scanf_format realloc) mock_fns dl real input format ap (scan_globals s) vars (mem s)
      = Done ((ret, g, vars'), w) \<Longrightarrow>
    process_step dl s (s\<lparr>mem := w, scan_globals := g\<rparr>)"
| step_wscanf: "format_records wide_mode wformat 0 ap = Done rs \<Longrightarrow>
    (\<And>f. real = Some f \<Longrightarrow> scanner_contract mock_inv mock_owns mock_room (f input wformat ap) vars rs) \<Longrightarrow>
    wrap_scanf (ao_parse_wscanf_format realloc) mock_fns dl real input wformat ap (scan_globals s) vars (mem s)
      = Done ((ret, g, vars'), w) \<Longrightarrow>
    process_step dl s (s\<lparr>mem := w, scan_globals := g\<rparr>)"

inductive process_reachable :: "unit mock_ext scanf_symbols \<Rightarrow> 's process \<Rightarrow> bool" for dl where
  process_start: "mock_reachable w \<Longrightarrow>
    process_reachable dl \<lparr>mem = w, streams = [], scan_globals = initial_globals\<rparr>"
| process_next: "process_reachable dl s \<Longrightarrow> process_step dl s s' \<Longrightarrow> process_reachable dl s'"

definition process_ok :: "unit mock_ext scanf_symbols \<Rightarrow> 's process \<Rightarrow> bool" where
  "process_ok dl s \<longleftrightarrow> mock_inv (mem s) \<and> list_all (stream_wf (mem s)) (streams s) \<and> streams_apart (streams s)
     \<and> scan_globals s \<in> {initial_globals, ao_ensure_scanf_symbols dl initial_globals}"

section \<open>What keeps the streams\<close>

lemma stream_wf_live: "mock_inv w \<Longrightarrow> stream_wf w st \<Longrightarrow> blocks w (stream_cookie st) \<noteq> None \<and> blocks w (stream_buffer st) \<noteq> None"
  by (cases st) (auto simp: stream_wf_def memstream_ok_def wmemstream_ok_def dest: mock_alloc.owned_live_law)

lemma stream_blocks_live:
  "mock_inv w \<Longrightarrow> list_all (stream_wf w) ss \<Longrightarrow> q \<in> stream_blocks ss \<Longrightarrow> blocks w q \<noteq> None"
  using stream_wf_live by (auto simp: stream_blocks_def list_all_iff)

lemma stream_wf_untouched:
  "stream_wf w st \<Longrightarrow> untouched {stream_cookie st, stream_buffer st} w w' \<Longrightarrow> stream_wf w' st"
  by (cases st) (auto simp: stream_wf_def untouched_def memstream_ok_def wmemstream_ok_def)

lemma streams_untouched:
  assumes "list_all (stream_wf w) ss" "untouched (stream_blocks ss) w w'"
  shows "list_all (stream_wf w') ss"
  unfolding list_all_iff
proof
  fix st assume st: "st \<in> set ss"
  then have "{stream_cookie st, stream_buffer st} \<subseteq> stream_blocks ss" by (auto simp: stream_blocks_def)
  then have "untouched {stream_cookie st, stream_buffer st} w w'" using assms(2) unfolding untouched_def by blast
  with assms(1) st show "stream_wf w' st" by (auto simp: list_all_iff intro: stream_wf_untouched)
qed

lemma grows_untouched:
  "grows mock_owns w w' \<Longrightarrow> mock_inv w \<Longrightarrow> list_all (stream_wf w) ss \<Longrightarrow> untouched (stream_blocks ss) w w'"
  unfolding untouched_def grows_def by (meson stream_blocks_live)

lemma process_ok_mem:
  assumes "process_ok dl s" "mock_inv w" "untouched (stream_blocks (streams s)) (mem s) w"
    and "g \<in> {initial_globals, ao_ensure_scanf_symbols dl initial_globals}"
  shows "process_ok dl (s\<lparr>mem := w, scan_globals := g\<rparr>)"
  using assms streams_untouched unfolding process_ok_def by auto

lemma process_ok_open:
  assumes ok: "process_ok dl s" and w: "mock_inv w" "grows mock_owns (mem s) w" and st: "stream_wf w st"
    and new: "blocks (mem s) (stream_cookie st) = None" "blocks (mem s) (stream_buffer st) = None" "stream_cookie st \<noteq> stream_buffer st"
  shows "process_ok dl (s\<lparr>mem := w, streams := st # streams s\<rparr>)"
proof -
  have s: "mock_inv (mem s)" "list_all (stream_wf (mem s)) (streams s)" "streams_apart (streams s)"
    using ok by (simp_all add: process_ok_def)
  have "stream_cookie st \<notin> stream_blocks (streams s)" "stream_buffer st \<notin> stream_blocks (streams s)"
    using stream_blocks_live [OF s(1,2), of "stream_cookie st"] stream_blocks_live [OF s(1,2), of "stream_buffer st"] new
    by blast+
  then have "streams_apart (st # streams s)" using s(3) new(3) by (auto simp: streams_apart_def stream_blocks_def)
  with streams_untouched [OF s(2) grows_untouched [OF w(2) s(1,2)]] w(1) st ok show ?thesis by (simp add: process_ok_def)
qed

section \<open>Every step keeps the process\<close>

lemma wide_position:
  assumes "0 \<le> x" "x \<le> 2305843009213693951"
  shows "(of_int x :: size_t) \<le> max_chars"
proof -
  have "(of_int x :: size_t) = of_nat (nat x)" using assms(1) by simp
  moreover have "unat (of_nat (nat x) :: size_t) = nat x" using assms(2) by (intro unat_of_nat_lt) simp
  ultimately show ?thesis using assms by (simp add: word_le_nat_alt unat_max_chars del: of_nat_nat)
qed

lemma stream_op_law:
  assumes "stream_op st w st' w'" "mock_inv w" "stream_wf w st"
  shows "mock_inv w' \<and> stream_cookie st' = stream_cookie st \<and> stream_content_ok st' w'
    \<and> replaced mock_owns (stream_buffer st) w (stream_buffer st') w'"
  using assms
proof (induction rule: stream_op.induct)
  case (op_write data c w ret c' w' k)
  then obtain t where "memstream_ok mock_owns c t w" by (auto simp: stream_wf_def)
  from mock_alloc.memstream_write_law [OF op_write.prems(1) this op_write.hyps(1)] op_write.hyps(2) this
  show ?case by (auto intro: replaced_unchanged simp: memstream_ok_def)
next
  case (op_seek c offset whence w ret pos c' w' k)
  then obtain t where ok: "memstream_ok mock_owns c t w" by (auto simp: stream_wf_def)
  have "(c' = c \<or> (\<exists>x. c' = c\<lparr>ck_pos := of_int x\<rparr> \<and> 0 \<le> x \<and> x \<le> int SSIZE_MAX)) \<and> (w' = w \<or> (\<exists>e. w' = w\<lparr>errno := e\<rparr>))"
  proof (cases "0 \<le> whence \<and> whence \<le> 2")
    case True
    with op_seek.hyps memstream_seek_eq [OF ok, of whence offset] show ?thesis by (auto split: if_splits)
  next
    case False
    with op_seek.hyps show ?thesis by (auto simp: ao_memstream_seek_def)
  qed
  then show ?case
    using ok memstream_seek_ok(1) [OF ok] op_seek.prems(1) mock_alloc.errno_laws
    by (auto simp: memstream_ok_def intro!: replaced_unchanged)
next
  case (op_wwrite mbsnrtowcs data c w ret c' w' k)
  then obtain t where "wmemstream_ok mock_owns c t w" by (auto simp: stream_wf_def)
  from mock_alloc.wmemstream_write_law [OF op_wwrite.prems(1) this op_wwrite.hyps(2,1)] op_wwrite.hyps(3) this
  show ?case by (auto intro: replaced_unchanged simp: wmemstream_ok_def)
next
  case (op_wseek zero_state c offset whence w ret pos c' w' k)
  then obtain t where ok: "wmemstream_ok mock_owns c t w" by (auto simp: stream_wf_def)
  have "(c' = c \<or> (\<exists>x. c' = c\<lparr>wck_pos := of_int x, wck_state := zero_state\<rparr> \<and> 0 \<le> x \<and> x \<le> 2305843009213693951))
      \<and> (w' = w \<or> (\<exists>e. w' = w\<lparr>errno := e\<rparr>))"
  proof (cases "0 \<le> whence \<and> whence \<le> 2")
    case True
    with op_wseek.hyps wmemstream_seek_eq [OF ok, of whence zero_state offset] show ?thesis by (auto split: if_splits)
  next
    case False
    with op_wseek.hyps show ?thesis by (auto simp: ao_wmemstream_seek_def Let_def)
  qed
  then show ?case
    using ok wide_position op_wseek.prems(1) mock_alloc.errno_laws
    by (auto simp: wmemstream_ok_def intro!: replaced_unchanged)
qed

lemma replaced_untouched:
  assumes "replaced mock_owns b w b' w'" "\<And>q. q \<in> A \<Longrightarrow> blocks w q \<noteq> None \<and> q \<noteq> b"
  shows "untouched A w w'"
  unfolding untouched_def
proof
  fix q assume "q \<in> A"
  then have q: "blocks w q \<noteq> None" "q \<noteq> b" using assms(2) by auto
  with assms(1) have "q \<noteq> b'" by (auto simp: replaced_def)
  moreover have "blocks w' q = ((blocks w)(b := None, b' := blocks w' b')) q"
    using assms(1) unfolding replaced_def by metis
  ultimately show "blocks w' q = blocks w q \<and> mock_owns w' q = mock_owns w q"
    using q assms(1) by (simp add: replaced_def)
qed

lemma streams_apartD:
  assumes "streams_apart ss" "i < length ss" "j < length ss"
  shows "stream_cookie (ss ! i) \<noteq> stream_buffer (ss ! j)"
    "i \<noteq> j \<Longrightarrow> stream_cookie (ss ! i) \<noteq> stream_cookie (ss ! j) \<and> stream_buffer (ss ! i) \<noteq> stream_buffer (ss ! j)"
proof -
  have d: "distinct (map stream_cookie ss)" "distinct (map stream_buffer ss)"
      "set (map stream_cookie ss) \<inter> set (map stream_buffer ss) = {}"
    using assms(1) unfolding streams_apart_def distinct_append by blast+
  have "stream_cookie (ss ! i) \<in> set (map stream_cookie ss)" "stream_buffer (ss ! j) \<in> set (map stream_buffer ss)"
    using assms(2,3) by simp_all
  then show "stream_cookie (ss ! i) \<noteq> stream_buffer (ss ! j)" using d(3) by (metis IntI empty_iff)
  show "stream_cookie (ss ! i) \<noteq> stream_cookie (ss ! j) \<and> stream_buffer (ss ! i) \<noteq> stream_buffer (ss ! j)" if "i \<noteq> j"
    using nth_eq_iff_index_eq [OF d(1)] nth_eq_iff_index_eq [OF d(2)] assms(2,3) that by simp
qed

lemma process_ok_stream:
  assumes ok: "process_ok dl s" and i: "i < length (streams s)" and op: "stream_op (streams s ! i) (mem s) st w"
  shows "process_ok dl (s\<lparr>mem := w, streams := (streams s)[i := st]\<rparr>)"
proof -
  let ?ss = "streams s"
  have s: "mock_inv (mem s)" "list_all (stream_wf (mem s)) ?ss" "streams_apart ?ss"
    using ok by (simp_all add: process_ok_def)
  have wf: "stream_wf (mem s) (?ss ! j)" if "j < length ?ss" for j using s(2) that by (simp add: list_all_length)
  note live = stream_wf_live [OF s(1) wf] and apart = streams_apartD [OF s(3)]
  note l = stream_op_law [OF op s(1) wf [OF i]]
  then have rep: "replaced mock_owns (stream_buffer (?ss ! i)) (mem s) (stream_buffer st) w"
    and ck: "stream_cookie st = stream_cookie (?ss ! i)" by simp_all
  have "stream_wf w (?ss[i := st] ! j)" if j: "j < length ?ss" for j
  proof (cases "j = i")
    case True
    have "untouched {stream_cookie (?ss ! i)} (mem s) w"
      using live [OF i] apart(1) [OF i i] by (intro replaced_untouched [OF rep]) auto
    with True l wf [OF i] i show ?thesis by (simp add: stream_wf_def untouched_def)
  next
    case False
    have "untouched {stream_cookie (?ss ! j), stream_buffer (?ss ! j)} (mem s) w"
      using live [OF j] apart(1) [OF j i] apart(2) [OF j i False] by (intro replaced_untouched [OF rep]) auto
    with False wf [OF j] show ?thesis by (simp add: stream_wf_untouched)
  qed
  then have "list_all (stream_wf w) (?ss[i := st])" by (simp add: list_all_length)
  moreover have "streams_apart (?ss[i := st])"
  proof -
    let ?xs = "map stream_cookie ?ss @ map stream_buffer ?ss"
    have "map stream_cookie (?ss[i := st]) = map stream_cookie ?ss"
      unfolding map_update ck using i by (metis list_update_id nth_map)
    then have e: "map stream_cookie (?ss[i := st]) @ map stream_buffer (?ss[i := st]) = ?xs[length ?ss + i := stream_buffer st]"
      using i by (simp add: map_update list_update_append)
    have n: "?xs ! (length ?ss + i) = stream_buffer (?ss ! i)" using i by (simp add: nth_append)
    have "stream_buffer st = stream_buffer (?ss ! i) \<or> stream_buffer st \<notin> set ?xs"
      using rep stream_blocks_live [OF s(1,2), of "stream_buffer st"] unfolding replaced_def stream_blocks_def by auto
    then have "stream_buffer st \<notin> set ?xs - {?xs ! (length ?ss + i)}" unfolding n by blast
    then show ?thesis
      using s(3) unfolding streams_apart_def e by (intro distinct_list_update)
  qed
  ultimately show ?thesis using l ok by (simp add: process_ok_def)
qed

lemma process_ok_close:
  assumes ok: "process_ok dl s" and i: "i < length (streams s)" and f: "free (stream_cookie (streams s ! i)) (mem s) = Done w"
  shows "process_ok dl (s\<lparr>mem := w, streams := take i (streams s) @ drop (Suc i) (streams s)\<rparr>)"
proof -
  define xs ys where xs: "xs = take i (streams s)" and ys: "ys = drop (Suc i) (streams s)"
  let ?st = "streams s ! i" and ?ss = "xs @ ys"
  have e: "streams s = xs @ ?st # ys" unfolding xs ys using i by (rule id_take_nth_drop)
  have s: "mock_inv (mem s)" "list_all (stream_wf (mem s)) (xs @ ?st # ys)" "streams_apart (xs @ ?st # ys)"
    using ok e by (simp_all add: process_ok_def)
  have wf: "stream_wf (mem s) ?st" and rest: "list_all (stream_wf (mem s)) ?ss" using s(2) by simp_all
  have apart: "streams_apart ?ss" "stream_cookie ?st \<notin> stream_blocks ?ss"
    using s(3) by (auto simp: streams_apart_def stream_blocks_def)
  obtain cs where "blocks (mem s) (stream_cookie ?st) = Some cs" "stream_cookie ?st \<noteq> NULL" "mock_owns (mem s) (stream_cookie ?st)"
    using stream_wf_live [OF s(1) wf] mock_alloc.NULL_law [OF s(1)] wf by (metis not_None_eq stream_wf_def)
  from mock_alloc.free_law [OF s(1) this(3,2,1)] f
  have w: "mock_inv w" "blocks w = (blocks (mem s))(stream_cookie ?st := None)"
    "mock_owns w = (mock_owns (mem s))(stream_cookie ?st := False)" by simp_all
  have "untouched (stream_blocks ?ss) (mem s) w" using apart(2) unfolding untouched_def w(2,3) by auto
  with streams_untouched [OF rest] w(1) apart(1) ok show ?thesis by (simp add: process_ok_def xs [symmetric] ys [symmetric])
qed

lemma process_ok_grows:
  assumes "process_ok dl s" "mock_inv w \<and> grows mock_owns (mem s) w" "g = scan_globals s \<or> g = ao_ensure_scanf_symbols dl (scan_globals s)"
  shows "process_ok dl (s\<lparr>mem := w, scan_globals := g\<rparr>)"
proof -
  have s: "mock_inv (mem s)" "list_all (stream_wf (mem s)) (streams s)" using assms(1) by (simp_all add: process_ok_def)
  have "g \<in> {initial_globals, ao_ensure_scanf_symbols dl initial_globals}"
    using assms(1,3) ensure_once [of dl initial_globals] by (auto simp: process_ok_def)
  with assms(1,2) grows_untouched [OF _ s] show ?thesis by (intro process_ok_mem) auto
qed

text \<open>The scanner overrides, with the wrapper's function pointer resolved or not.\<close>

lemma scan_no_function:
  assumes "mock_inv w" "wrap_scanf parse al dl None input format ap g vars w = Done ((ret, g', vars'), w')"
  shows "mock_inv w' \<and> grows mock_owns w w' \<and> g' = ao_ensure_scanf_symbols dl g"
  using assms mock_alloc.errno_laws by (auto simp: wrap_scanf_def Let_def intro: grows_unchanged)

lemma scan_call_law:
  assumes inv: "mock_inv w" and dl: "bridge_symbols dl" and g: "g \<in> {initial_globals, ao_ensure_scanf_symbols dl initial_globals}"
    and rs: "format_records narrow_mode format 0 ap = Done rs"
    and scan: "\<And>f. real = Some f \<Longrightarrow> scanner_contract mock_inv mock_owns mock_room (f input format ap) vars rs"
    and w': "wrap_scanf (ao_parse_scanf_format realloc) mock_fns dl real input format ap g vars w = Done ((ret, g', vars'), w')"
  shows "mock_inv w' \<and> grows mock_owns w w' \<and> g' = ao_ensure_scanf_symbols dl g"
proof (cases real)
  case None
  with w' show ?thesis by (intro scan_no_function [OF inv]) simp
next
  case (Some f)
  have e: "ao_ensure_scanf_symbols dl g = ao_ensure_scanf_symbols dl (ao_ensure_scanf_symbols dl initial_globals)"
    using g by (auto simp: ensure_once)
  note r = resolved_bridge [OF dl]
  from mock_bridge.wrap_narrow_law [where real = f and dl = dl and g = g, OF inv _ r mock_fns_def rs scan [OF Some]] w' Some e
  show ?thesis by (auto simp: mock_fns_def intro: wrapped_grows)
qed

lemma wscan_call_law:
  assumes inv: "mock_inv w" and dl: "bridge_symbols dl" and g: "g \<in> {initial_globals, ao_ensure_scanf_symbols dl initial_globals}"
    and rs: "format_records wide_mode format 0 ap = Done rs"
    and scan: "\<And>f. real = Some f \<Longrightarrow> scanner_contract mock_inv mock_owns mock_room (f input format ap) vars rs"
    and w': "wrap_scanf (ao_parse_wscanf_format realloc) mock_fns dl real input format ap g vars w = Done ((ret, g', vars'), w')"
  shows "mock_inv w' \<and> grows mock_owns w w' \<and> g' = ao_ensure_scanf_symbols dl g"
proof (cases real)
  case None
  with w' show ?thesis by (intro scan_no_function [OF inv]) simp
next
  case (Some f)
  have e: "ao_ensure_scanf_symbols dl g = ao_ensure_scanf_symbols dl (ao_ensure_scanf_symbols dl initial_globals)"
    using g by (auto simp: ensure_once)
  note r = resolved_bridge [OF dl]
  from mock_bridge.wrap_wide_law [where real = f and dl = dl and g = g, OF inv _ r mock_fns_def rs scan [OF Some]] w' Some e
  show ?thesis by (auto simp: mock_fns_def intro: wrapped_grows)
qed

lemma process_step_ok:
  assumes "process_step dl s s'" "bridge_symbols dl" "process_ok dl s"
  shows "process_ok dl s'"
  using assms
proof (induction rule: process_step.induct)
  case (step_program s w)
  then have "mock_inv w" by (auto simp: process_ok_def intro: mock_step_inv)
  with step_program process_ok_mem [of dl s w "scan_globals s"] show ?case by (simp add: process_ok_def)
next
  case (step_giving s w)
  then have "mock_inv w \<and> grows mock_owns (mem s) w" using giving_call_grows by (auto simp: process_ok_def)
  with step_giving.prems(2) have "process_ok dl (s\<lparr>mem := w, scan_globals := scan_globals s\<rparr>)"
    by (intro process_ok_grows) auto
  then show ?case by simp
next
  case (step_line p n s delim f r f' w)
  then have s: "mock_inv (mem s)" "list_all (stream_wf (mem s)) (streams s)" by (simp_all add: process_ok_def)
  obtain ret p' n' where r: "r = (ret, p', n')" by (cases r)
  have w: "mock_inv w" "replaced mock_owns p (mem s) (the p') w"
    using mock_alloc.getdelim_law [OF s(1) step_line.hyps(1), of delim f] step_line.hyps(3) r by auto
  have "untouched (stream_blocks (streams s)) (mem s) w"
    using stream_blocks_live [OF s] step_line.hyps(2) by (intro replaced_untouched [OF w(2)]) auto
  with w(1) step_line.prems process_ok_mem [of dl s w "scan_globals s"] show ?case by (simp add: process_ok_def)
next
  case (step_open fopencookie s stream r w ss)
  then have s: "mock_inv (mem s)" by (simp add: process_ok_def)
  note l = mock_alloc.open_memstream_law [OF s step_open.hyps(1)]
  show ?case
  proof (cases "stream = NULL \<or> mock_room (mem s) \<le> 1 \<and> r = None")
    case True
    have "mock_inv w \<and> grows mock_owns (mem s) w" using l step_open.hyps(2) by auto
    with step_open.prems(2) have "process_ok dl (s\<lparr>mem := w, scan_globals := scan_globals s\<rparr>)"
      by (intro process_ok_grows) auto
    with True step_open.hyps(3) show ?thesis by auto
  next
    case False
    then obtain k c where r: "r = Some (k, c)" and w: "mock_inv w" "grows mock_owns (mem s) w" "memstream_ok mock_owns c [] w"
        "mock_owns w k" "blocks (mem s) k = None" "blocks (mem s) (ck_buf c) = None" "k \<noteq> ck_buf c"
      using l step_open.hyps(2) by auto
    have "process_ok dl (s\<lparr>mem := w, streams := Byte_stream k c # streams s\<rparr>)"
      using w by (intro process_ok_open [OF step_open.prems(2)]) (auto simp: stream_wf_def)
    with False r step_open.hyps(3) show ?thesis by simp
  qed
next
  case (step_wopen fopencookie zero_state s stream r w ss)
  then have s: "mock_inv (mem s)" by (simp add: process_ok_def)
  note l = mock_alloc.open_wmemstream_law [OF s step_wopen.hyps(1), of zero_state]
  show ?case
  proof (cases "stream = NULL \<or> mock_room (mem s) \<le> 1 \<and> r = None")
    case True
    have "mock_inv w \<and> grows mock_owns (mem s) w" using l step_wopen.hyps(2) by auto
    with step_wopen.prems(2) have "process_ok dl (s\<lparr>mem := w, scan_globals := scan_globals s\<rparr>)"
      by (intro process_ok_grows) auto
    with True step_wopen.hyps(3) show ?thesis by auto
  next
    case False
    then obtain k c where r: "r = Some (k, c)" and w: "mock_inv w" "grows mock_owns (mem s) w" "wmemstream_ok mock_owns c [0] w"
        "mock_owns w k" "blocks (mem s) k = None" "blocks (mem s) (wck_buf c) = None" "k \<noteq> wck_buf c"
      using l step_wopen.hyps(2) by auto
    have "process_ok dl (s\<lparr>mem := w, streams := Wide_stream k c # streams s\<rparr>)"
      using w by (intro process_ok_open [OF step_wopen.prems(2)]) (auto simp: stream_wf_def)
    with False r step_wopen.hyps(3) show ?thesis by simp
  qed
next
  case (step_stream i s st w)
  then show ?case by (intro process_ok_stream)
next
  case (step_close i s ret w)
  then have "free (stream_cookie (streams s ! i)) (mem s) = Done w"
    by (cases "streams s ! i") (auto simp: ao_memstream_close_def ao_wmemstream_close_def obind_eq_Done)
  with step_close show ?case by (intro process_ok_close)
next
  case (step_scanf format ap rs real input vars s ret g vars' w)
  then have "mock_inv (mem s)" "scan_globals s \<in> {initial_globals, ao_ensure_scanf_symbols dl initial_globals}"
    by (simp_all add: process_ok_def)
  then have "mock_inv w \<and> grows mock_owns (mem s) w \<and> g = ao_ensure_scanf_symbols dl (scan_globals s)"
    by (intro scan_call_law [OF _ step_scanf.prems(1) _ step_scanf.hyps(1) _ step_scanf.hyps(3)] step_scanf.hyps(2))
  with step_scanf.prems(2) show ?case by (intro process_ok_grows) auto
next
  case (step_wscanf wformat ap rs real input vars s ret g vars' w)
  then have "mock_inv (mem s)" "scan_globals s \<in> {initial_globals, ao_ensure_scanf_symbols dl initial_globals}"
    by (simp_all add: process_ok_def)
  then have "mock_inv w \<and> grows mock_owns (mem s) w \<and> g = ao_ensure_scanf_symbols dl (scan_globals s)"
    by (intro wscan_call_law [OF _ step_wscanf.prems(1) _ step_wscanf.hyps(1) _ step_wscanf.hyps(3)] step_wscanf.hyps(2))
  with step_wscanf.prems(2) show ?case by (intro process_ok_grows) auto
qed

lemma process_reachable_ok: "process_reachable dl s \<Longrightarrow> bridge_symbols dl \<Longrightarrow> process_ok dl s"
proof (induction rule: process_reachable.induct)
  case (process_start w)
  then show ?case by (simp add: process_ok_def mock_reachable_inv streams_apart_def)
next
  case (process_next s s')
  show ?case by (rule process_step_ok [OF process_next(2,4) process_next(3) [OF process_next(4)]])
qed

end
