(* ===== verification/Stream_Properties.thy ===== *)
theory Stream_Properties
  imports Sample_States Preload
begin

text \<open>
  Memory streams under the mock allocator: the laws of \<open>open_memstream\<close>, \<open>open_wmemstream\<close> and of their
  callbacks, with both libraries preloaded.
\<close>

text \<open>The stream that holds \<open>a\<close> in a buffer of four bytes, and an empty wide stream.\<close>

definition sample_memstream :: ao_memstream_cookie where
  "sample_memstream = \<lparr>ck_pos = 1, ck_buf = 0x100000, ck_len = 1, ck_space = 4, out_buf = 0x100000, out_size = 1\<rparr>"

definition sample_memstream_state :: "ptr option list \<Rightarrow> mock" where
  "sample_memstream_state as = one_block_state (map Some [97, 0, 0, 0]) as"

definition sample_wmemstream :: "unit ao_wmemstream_cookie" where
  "sample_wmemstream = \<lparr>wck_pos = 0, wck_buf = 0x100000, wck_len = 0, wck_space = 0, wck_state = (),
     wout_buf = 0x100000, wout_size = 0\<rparr>"

lemma sample_memstream_inv: "mock_inv (sample_memstream_state as)"
  by (simp add: sample_memstream_state_def one_block_inv)

lemma sample_memstream_ok: "memstream_ok mock_owns sample_memstream [97] (sample_memstream_state as)"
proof -
  have "replicate 3 (Some 0) = [Some 0, Some 0, Some 0 :: cell]" by (simp add: numeral_eq_Suc)
  then show ?thesis
    by (simp add: memstream_ok_def sample_memstream_def sample_memstream_state_def one_block_blocks mock_owns_def
        one_block_inv)
qed

lemma sample_wmemstream_ok: "wmemstream_ok mock_owns sample_wmemstream [0] (one_block_state (wide_cells [0]) as)"
  by (simp add: wmemstream_ok_def sample_wmemstream_def one_block_blocks mock_owns_def one_block_inv)

text \<open>A \<open>fopencookie\<close> that finds no memory, and one whose stream object is not on this heap.\<close>

definition sample_fopencookie :: "ptr \<Rightarrow> ptr \<Rightarrow> mock \<Rightarrow> (ptr \<times> mock) outcome" where
  "sample_fopencookie stream cookie w = Done (stream, w)"

lemma sample_fopencookie_contract: "fopencookie_contract mock_inv mock_owns (sample_fopencookie stream)"
  by (simp add: fopencookie_contract_def sample_fopencookie_def)

text \<open>A converter for a character set with one byte per character.\<close>

definition sample_mbsnrtowcs :: "unit mbsnrtowcs_fn" where
  "sample_mbsnrtowcs st src n = (map ucast (take n src), Some (min n (length src)), ())"

lemma sample_mbsnrtowcs_contract: "mbsnrtowcs_contract sample_mbsnrtowcs"
  by (simp add: mbsnrtowcs_contract_def sample_mbsnrtowcs_def)

section \<open>Byte streams\<close>

text \<open>
  C25: a write to a memory stream is memory-safe and exact: the text becomes the old one with the data
  written at the position (a gap filled with zeros), the buffer stays terminated and zero after the
  text, the caller's variables show the buffer and the position; or there is no memory, the
  return value is 0 and nothing changes. Only the stream's buffer is replaced.
\<close>

theorem memstream_write_exact:
  assumes "mock_inv w" "memstream_ok mock_owns c t w" "length data \<le> SSIZE_MAX"
  shows "wp False (ao_memstream_write realloc c data w) (\<lambda>((ret, c'), w'). mock_inv w' \<and>
    (memstream_ok mock_owns c' (write_at (unat (ck_pos c)) data t) w' \<and> ret = int (length data)
       \<and> replaced mock_owns (ck_buf c) w (ck_buf c') w'
       \<and> unat (ck_pos c') = unat (ck_pos c) + length data \<and> out_size c' = ck_pos c'
     \<or> ret = 0 \<and> c' = c \<and> blocks w' = blocks w \<and> mock_owns w' = mock_owns w \<and> errno w' = ENOMEM))"
  using assms by (rule mock_alloc.memstream_write_law)

theorem memstream_write_exact_witness:
  "\<exists>ret c' w'. ao_memstream_write realloc sample_memstream [98, 99] (sample_memstream_state []) = Done ((ret, c'), w')
     \<and> (ret = 2 \<and> memstream_ok mock_owns c' [97, 98, 99] w' \<or> ret = 0 \<and> c' = sample_memstream)"
proof -
  have "write_at (unat (ck_pos sample_memstream)) [98, 99] [97 :: byte] = [97, 98, 99]"
    by (simp add: write_at_def sample_memstream_def)
  then show ?thesis
    using wp_Done_cases [OF memstream_write_exact [OF sample_memstream_inv sample_memstream_ok, of "[98, 99]" "[]"]]
    by auto
qed

text \<open>
  C26: any sequence of writes and seeks on a memory stream refines a file in memory: the stream represents
  a file that the specification reaches by the same operations, whatever writes fail for lack of memory,
  and no other object of the program changes.
\<close>

theorem memstream_refines_file:
  assumes "mock_inv w" "represents mock_owns c w f" "list_all op_ok xs"
  shows "wp False (memstream_run realloc xs c w) (\<lambda>(c', w'). mock_inv w'
    \<and> replaced mock_owns (ck_buf c) w (ck_buf c') w'
    \<and> (\<exists>f'. represents mock_owns c' w' f' \<and> memfile_run xs f f'))"
  using assms by (rule mock_alloc.memstream_run_law)

theorem memstream_refines_file_witness:
  "\<exists>c' w'. memstream_run realloc [Seek (-1) 1, Write [98]] sample_memstream (sample_memstream_state []) = Done (c', w')
     \<and> (\<exists>f'. represents mock_owns c' w' f' \<and> memfile_run [Seek (-1) 1, Write [98]] ([97], 1) f')"
proof -
  have "represents mock_owns sample_memstream (sample_memstream_state []) ([97], 1)"
    using sample_memstream_ok by (simp add: represents_def sample_memstream_def)
  from wp_Done_cases [OF memstream_refines_file [OF sample_memstream_inv this, of "[Seek (-1) 1, Write [98]]"]]
  show ?thesis by (auto simp del: split_paired_Ex)
qed

text \<open>
  C27: seeking in a memory stream never overflows: the position becomes base plus offset exactly when that
  is between 0 and \<open>SSIZE_MAX\<close>, and otherwise the call fails with \<open>EINVAL\<close> and the stream is unchanged.
\<close>

theorem memstream_seek_exact:
  assumes "memstream_ok owned c t w" "0 \<le> whence" "whence \<le> 2"
  shows "ao_memstream_seek c offset whence w =
    (if 0 \<le> seek_base c whence + offset \<and> seek_base c whence + offset \<le> int SSIZE_MAX
     then Done ((0, seek_base c whence + offset, c\<lparr>ck_pos := of_int (seek_base c whence + offset)\<rparr>), w)
     else Done ((-1, offset, c), w\<lparr>errno := EINVAL\<rparr>))"
  using assms by (rule memstream_seek_eq)

theorem memstream_seek_exact_witness:
  "ao_memstream_seek sample_memstream (- 2) 2 (sample_memstream_state [])
     = Done ((-1, - 2, sample_memstream), (sample_memstream_state [])\<lparr>errno := EINVAL\<rparr>)
   \<and> ao_memstream_seek sample_memstream 3 2 (sample_memstream_state [])
     = Done ((0, 4, sample_memstream\<lparr>ck_pos := 4\<rparr>), sample_memstream_state [])"
  using memstream_seek_exact [OF sample_memstream_ok, of 2 "- 2" "[]"]
    memstream_seek_exact [OF sample_memstream_ok, of 2 3 "[]"]
  by (simp add: seek_base_def sample_memstream_def)

text \<open>
  C28: \<open>open_memstream\<close> leaks nothing: when it fails at any of its three steps every block it took is released,
  and when it succeeds the cookie and the buffer are two fresh blocks of the allocator, the stream is
  empty and well-formed. Either way every object from before is untouched.
\<close>

theorem open_memstream_no_leak:
  assumes "mock_inv w" "fopencookie_contract mock_inv mock_owns fopencookie"
  shows "wp (mock_room w \<le> 1) (open_memstream malloc free fopencookie w) (\<lambda>((stream, r), w'). mock_inv w' \<and> grows mock_owns w w' \<and>
    (if stream = NULL then blocks w' = blocks w
     else \<exists>cookie c. r = Some (cookie, c) \<and> memstream_ok mock_owns c [] w' \<and> mock_owns w' cookie
       \<and> blocks w cookie = None \<and> blocks w (ck_buf c) = None \<and> cookie \<noteq> ck_buf c
       \<and> blocks w \<subseteq>\<^sub>m blocks w'))"
  using assms by (rule mock_alloc.open_memstream_law)

theorem open_memstream_no_leak_witness:
  "\<exists>r w'. open_memstream malloc free (sample_fopencookie NULL) (ready_state [Some 0x100000, Some 0x200000])
       = Done ((NULL, r), w')
     \<and> blocks w' = blocks (ready_state [Some 0x100000, Some 0x200000])"
proof -
  have "fst (fst x) = NULL"
    if "open_memstream malloc free (sample_fopencookie NULL) w = Done x" for w x
    using that by (auto simp: open_memstream_def sample_fopencookie_def obind_eq_Done Let_def split: if_splits)
  then show ?thesis
    using wp_Done_cases [OF open_memstream_no_leak [OF ready_inv [of "[Some 0x100000, Some 0x200000]"]
      sample_fopencookie_contract [of NULL]]]
    by (auto simp: ready_room)
qed

section \<open>Wide streams\<close>

text \<open>
  C29: a write to a wide memory stream, for every converter that keeps the contract of \<open>mbsnrtowcs\<close>,
  never writes outside the buffer: the converted characters are stored at the position of the enlarged
  buffer, and the position and length advance by their number;
  the failed conversions return 0 with position and length kept, and so does a lack of memory.
\<close>

theorem wmemstream_write_safe:
  assumes "mock_inv w" "wmemstream_ok mock_owns c chars w" "length data \<le> SSIZE_MAX" "mbsnrtowcs_contract mbsnrtowcs"
  shows "wp False (ao_wmemstream_write realloc mbsnrtowcs c data w) (\<lambda>((ret, c'), w'). mock_inv w' \<and>
    (replaced mock_owns (wck_buf c) w (wck_buf c') w'
       \<and> (\<exists>chars'. wmemstream_ok mock_owns c' chars' w' \<and> wide_written mbsnrtowcs c chars data ret c' chars')
     \<or> ret = 0 \<and> c' = c \<and> blocks w' = blocks w \<and> mock_owns w' = mock_owns w \<and> errno w' = ENOMEM))"
  using assms by (rule mock_alloc.wmemstream_write_law)

theorem wmemstream_write_safe_witness:
  "\<exists>ret c' w'. ao_wmemstream_write realloc sample_mbsnrtowcs sample_wmemstream [97] (one_block_state (wide_cells [0]) [])
       = Done ((ret, c'), w')
     \<and> ((\<exists>chars'. wmemstream_ok mock_owns c' chars' w' \<and> wide_written sample_mbsnrtowcs sample_wmemstream [0] [97] ret c' chars')
        \<or> ret = 0 \<and> c' = sample_wmemstream)"
proof -
  have "mock_inv (one_block_state (wide_cells [0]) [])" by (simp add: one_block_inv)
  from wp_Done_cases [OF wmemstream_write_safe [OF this sample_wmemstream_ok _ sample_mbsnrtowcs_contract, of "[97]"]]
  show ?thesis by auto
qed

end
