(* ===== verification/Scanf_Properties.thy ===== *)
theory Scanf_Properties
  imports Sample_States Preload
begin

text \<open>
  The scanner overrides under the mock allocator, whose bridge functions they find through \<open>dlsym\<close>.
\<close>

text \<open>What \<open>dlsym\<close> answers when the mock allocator is preloaded too.\<close>

definition mock_symbols ::
  "(byte list, unit mock_ext) scan_fn option \<Rightarrow> (wchar list, unit mock_ext) scan_fn option \<Rightarrow> unit mock_ext scanf_symbols" where
  "mock_symbols narrow wide = \<lparr>sym_vfscanf = narrow, sym_isoc99_vfscanf = None, sym_vsscanf = narrow,
     sym_isoc99_vsscanf = None, sym_vfwscanf = wide, sym_isoc99_vfwscanf = None, sym_vswscanf = wide,
     sym_isoc99_vswscanf = None, sym_bridge_owns = Some ao_alloc_bridge_owns,
     sym_bridge_libc_free = Some ao_alloc_bridge_libc_free,
     sym_bridge_libc_realloc = Some ao_alloc_bridge_libc_realloc, sym_stdin = 0x7000\<rparr>"

text \<open>
  A scanner for the format \<open>%ms\<close> on the input \<open>a\<close>: one block, one conversion. libc's block comes from the system
  allocator, or from the mock where libc's own calls of \<open>malloc\<close> are bound to it.
\<close>

definition sample_scan :: "unit mock_ext malloc_fn \<Rightarrow> ptr \<Rightarrow> ('f, unit mock_ext) scan_fn" where
  "sample_scan alloc var input format ap vars u =
     obind (alloc 2 u) (\<lambda>(p, u).
        if p = NULL then Done (0, vars, u)
        else Done (1, vars(var \<mapsto> p), u\<lparr>blocks := (blocks u)(p \<mapsto> [Some 97, Some 0])\<rparr>))"

definition sample_record :: ao_scanf_record where
  "sample_record = \<lparr>slot = 0x8000, ordinal = 1, mode = AO_REHOME_CHAR_STRING, width = 0\<rparr>"

text \<open>An allocation for the scanner, by either allocator.\<close>

definition scan_block :: "mock \<Rightarrow> ptr \<Rightarrow> mock \<Rightarrow> bool" where
  "scan_block u p w \<longleftrightarrow> mock_inv w \<and> mock_room u \<le> mock_room w + of_bool (p \<noteq> NULL \<and> mock_owns w p)
     \<and> (\<forall>q. q \<noteq> p \<longrightarrow> blocks w q = blocks u q \<and> mock_owns w q = mock_owns u q)
     \<and> blocks u p = None \<and> (if p = NULL then blocks w p = None \<and> \<not> mock_owns w p else blocks w p = Some (replicate 2 None))"

lemma scan_block_mock: "mock_inv u \<Longrightarrow> wp (mock_room u = 0) (malloc 2 u) (\<lambda>(p, w). scan_block u p w)"
  using mock_alloc.NULL_law mock_alloc.owned_live_law
  by (intro wp_conseq [OF mock_alloc.malloc_law])
    (force simp: scan_block_def malloc_result_def split: if_splits)+

lemma scan_block_libc: "mock_inv u \<Longrightarrow> wp E (Done (real_malloc 2 u)) (\<lambda>(p, w). scan_block u p w)"
proof (cases rule: real_malloc_cases [of 2 u])
  case (null u')
  assume inv: "mock_inv u"
  have i: "mock_inv u'" using mock_step_inv [OF step_libc [OF null(1)] inv] .
  moreover have "tracked u' = tracked u" using mock_more_eq(11) [OF null(5)] .
  ultimately show ?thesis
    using null mock_owns_cong [of u' u] mock_alloc.NULL_law [OF inv] mock_alloc.owned_live_law [OF inv, of NULL]
    by (auto simp: scan_block_def mock_room_def)
next
  case (block p u')
  assume inv: "mock_inv u"
  have "mock_inv u'" using mock_step_inv [OF step_libc [OF block(1)] inv] .
  moreover have "tracked u' = tracked u" using mock_more_eq(11) [OF block(6)] .
  ultimately show ?thesis
    using block fresh_blockD [OF block(2)] mock_owns_cong [of u' u] by (auto simp: scan_block_def mock_room_def)
qed

lemma sample_scan_contract:
  assumes alloc: "\<And>u. mock_inv u \<Longrightarrow> wp (mock_room u = 0) (alloc 2 u) (\<lambda>(p, w). scan_block u p w)"
  shows "scanner_contract mock_inv mock_owns mock_room (sample_scan alloc 0x8000 input format ap) vars [sample_record]"
  unfolding scanner_contract_def sample_scan_def
proof (intro allI impI, rule wp_bindI [OF alloc], assumption, simp, goal_cases)
  case (1 u x)
  obtain p w where x: "x = (p, w)" by (cases x)
  with 1 have b: "scan_block u p w" by simp
  show ?case
  proof (cases "p = NULL")
    case True
    have "blocks w q = blocks u q \<and> mock_owns w q = mock_owns u q" for q
      using b True mock_alloc.owned_live_law [OF 1(1), of NULL] by (cases "q = NULL") (auto simp: scan_block_def)
    with True b x show ?thesis by (simp add: scan_block_def)
  next
    case False
    let ?w = "w\<lparr>blocks := (blocks w)(p \<mapsto> [Some 97, Some 0])\<rparr>"
    have "blocks w p = Some (replicate 2 None)" using b False by (simp add: scan_block_def)
    note st = mock_alloc.store_law [OF this, of "[Some 97, Some 0]"]
    have "assigned 1 [sample_record] = [sample_record]" by (simp add: assigned_def sample_record_def)
    moreover have "result_of (vars(0x8000 \<mapsto> p)) sample_record = p" by (simp add: result_of_def sample_record_def)
    moreover have "records_ready mock_owns (vars(0x8000 \<mapsto> p)) ?w [sample_record]"
      by (simp add: records_ready_def record_ready_def result_of_def sample_record_def clone_size_def)
    ultimately show ?thesis
      using b False x st by (auto simp: scan_block_def sample_record_def)
  qed
qed

lemma libc_scan_contract:
  "scanner_contract mock_inv mock_owns mock_room (sample_scan (\<lambda>n u. Done (real_malloc n u)) 0x8000 input format ap) vars [sample_record]"
  by (rule sample_scan_contract) (rule scan_block_libc)

lemma mock_scan_contract:
  "scanner_contract mock_inv mock_owns mock_room (sample_scan malloc 0x8000 input format ap) vars [sample_record]"
  by (rule sample_scan_contract) (rule scan_block_mock)

text \<open>The format \<open>%ms\<close>.\<close>

definition sample_format :: "'c::len word list" where
  "sample_format = [37, 109, 115]"

lemma sample_format_records:
  "format_records narrow_mode sample_format 0 [0x8000] = Done [sample_record]"
  "format_records wide_mode sample_format 0 [0x8000] = Done [sample_record]"
  by (simp_all add: sample_format_def sample_record_def format_records.simps directive_dest_def parse_position_def
      is_digit_def va_arg_def directive_flags_def length_modifier_def directive_spec_def conversion_record_def
      narrow_mode_def wide_mode_def)

section \<open>Reading formats\<close>

text \<open>
  C30: a field width in a scan format is read exactly up to 18446744073709551609 and clamped at \<open>SIZE_MAX\<close> above,
  for any number of digits: the multiplication never wraps.
\<close>

theorem scanf_width_exact:
  "unat (fst (ao_parse_width_char p)) = (if digits_value 0 p \<le> 18446744073709551609 then digits_value 0 p else 2 ^ 64 - 1)
   \<and> snd (ao_parse_width_char p) = dropWhile ao_is_digit_char p"
  using parse_width_exact [of p] by (simp add: ao_parse_width_char_def ao_is_digit_char_def)

text \<open>
  C31: the byte format parser computes the records of the reference function, which has no heap: it
  returns 0 with exactly these records in the plan, or -1 with \<open>ENOMEM\<close>; the plan stays well-formed, only its
  array is replaced, and every access is in bounds.
\<close>

theorem parse_scanf_format_equiv:
  assumes "mock_inv w" "plan_ok mock_owns plan w" "format_records narrow_mode format 0 ap = Done rs"
  shows "wp (records plan = NULL \<and> mock_room w = 0) (ao_parse_scanf_format realloc format ap plan w)
    (\<lambda>((rc, plan'), w'). mock_inv w' \<and> plan_ok mock_owns plan' w'
       \<and> replaced mock_owns (records plan) w (records plan') w'
       \<and> (rc = 0 \<and> items plan' = items plan @ rs \<or> rc = -1 \<and> errno w' = ENOMEM))"
  unfolding ao_parse_scanf_format_def
  by (rule mock_alloc.parse_format_law [OF assms(1,2) narrow_records assms(3)])

theorem parse_scanf_format_equiv_witness:
  "\<exists>rc plan' w'. ao_parse_scanf_format realloc sample_format [0x8000] empty_plan (ready_state [Some 0x100000]) = Done ((rc, plan'), w')
     \<and> (rc = 0 \<and> items plan' = [sample_record] \<or> rc = -1 \<and> errno w' = ENOMEM)"
  using wp_Done_cases [OF parse_scanf_format_equiv [OF ready_inv [of "[Some 0x100000]"] plan_ok_empty sample_format_records(1)]]
  by (auto simp: ready_room empty_plan_def)

text \<open>
  C32: the records of a format of fewer than \<open>2 ^ 31\<close> characters have strictly increasing ordinals, so the loop that
  stops at the first record beyond the number of assigned conversions handles every record
  within it.
\<close>

theorem rehome_break_complete:
  assumes "format_records narrow_mode format 0 ap = Done rs" "length format < 2 ^ 31"
  shows "rehome_loop malloc_fn g ret rs vars w =
    rehome_loop malloc_fn g ret (filter (\<lambda>r. sint (ordinal r) \<le> ret) rs) vars w"
proof -
  have o: "sorted_wrt (<) (map (\<lambda>r. unat (ordinal r)) rs)" "r \<in> set rs \<Longrightarrow> unat (ordinal r) < 2 ^ 31" for r
    using format_records_ordinals [OF _ _ _ assms(1)] assms(2) by auto
  show ?thesis using rehome_loop_assigned assigned_filter [OF o] by metis
qed

theorem rehome_break_complete_witness:
  "rehome_loop malloc initial_globals 0 [sample_record] [0x8000 \<mapsto> NULL] (ready_state []) = Done ([0x8000 \<mapsto> NULL], ready_state [])"
  using rehome_break_complete [OF sample_format_records(1), of malloc initial_globals 0 "[0x8000 \<mapsto> NULL]" "ready_state []"]
  by (simp add: sample_format_def sample_record_def)

section \<open>Whole calls\<close>

text \<open>
  C33: once the symbols are resolved, \<open>vsscanf\<close> returns what libc's scanner returns and the caller's objects are
  untouched. Where the format was read and something was assigned, each assigned \<open>%m\<close> result is moved: its variable holds a
  block of the mock with the same string or array and libc's object is gone. A result the mock owns
  already keeps its place, and one is left to libc, which the source marks as a memory leak, exactly where its
  mode has no copy or \<open>malloc\<close> returned null for the copy. Where reading the format failed for
  lack of memory everything stays as libc left it. The plan is released on every path, and what lives afterwards was
  the caller's, is in an assigned variable, or is libc's own.
\<close>

theorem vsscanf_rehomes:
  assumes "mock_inv w" "bridge_symbols dl" "sym_vsscanf dl = Some real"
    and "format_records narrow_mode format 0 ap = Done rs"
    and "scanner_contract mock_inv mock_owns mock_room (real input format ap) vars rs"
  shows "wp (mock_room w \<le> length rs)
    (ao_plain_vsscanf mock_fns dl input format ap (ao_ensure_scanf_symbols dl initial_globals) vars w)
    (\<lambda>((ret, g', vars'), w'). mock_inv w' \<and> g' = ao_ensure_scanf_symbols dl initial_globals
      \<and> wrapped malloc g' mock_owns (ao_parse_scanf_format realloc format ap empty_plan) (real input format ap)
          rs vars w ret vars' w')"
proof -
  have "g_real_vsscanf (ao_ensure_scanf_symbols dl initial_globals) = Some real"
    using assms(3) by (simp add: ao_ensure_scanf_symbols_def ao_resolve_scanf_symbols_def initial_globals_def)
  then show ?thesis
    using mock_bridge.wrap_narrow_law [where real = real, OF assms(1) refl resolved_bridge [OF assms(2)] mock_fns_def assms(4,5)]
    unfolding ao_plain_vsscanf_def ao_wrap_vsscanf_common_def ensure_once
    by (auto elim!: wp_conseq)
qed

theorem vsscanf_rehomes_witness:
  "\<exists>scan ret g' vars' w'. ao_plain_vsscanf mock_fns (mock_symbols (Some scan) None) 0x9000 sample_format [0x8000]
       (ao_ensure_scanf_symbols (mock_symbols (Some scan) None) initial_globals)
       [0x8000 \<mapsto> NULL] (ready_state [Some 0x100000, Some 0x200000, Some 0x300000]) = Done ((ret, g', vars'), w')
     \<and> wrapped malloc g' mock_owns (ao_parse_scanf_format realloc sample_format [0x8000] empty_plan)
         (scan 0x9000 (sample_format :: byte list) [0x8000]) [sample_record] [0x8000 \<mapsto> NULL]
         (ready_state [Some 0x100000, Some 0x200000, Some 0x300000]) ret vars' w'"
  using wp_Done_cases [OF vsscanf_rehomes [where dl = "mock_symbols (Some (sample_scan (\<lambda>n u. Done (real_malloc n u)) 0x8000)) None"
      and real = "sample_scan (\<lambda>n u. Done (real_malloc n u)) 0x8000" and format = sample_format and ap = "[0x8000]"
      and input = "0x9000" and vars = "[0x8000 \<mapsto> NULL]",
    OF ready_inv [of "[Some 0x100000, Some 0x200000, Some 0x300000]"] _ _ sample_format_records(1)
      libc_scan_contract]]
  by (force simp: ready_room bridge_symbols_def mock_symbols_def)

text \<open>
  C34: the same for the wide scanner \<open>vfwscanf\<close>, whose records may be of the mode that is never moved.
  In the witness libc's scanner allocates through the mock, so that the result takes the early return.
\<close>

theorem vfwscanf_rehomes:
  assumes "mock_inv w" "bridge_symbols dl" "sym_vfwscanf dl = Some real"
    and "format_records wide_mode format 0 ap = Done rs"
    and "scanner_contract mock_inv mock_owns mock_room (real input format ap) vars rs"
  shows "wp (mock_room w \<le> length rs)
    (ao_plain_vfwscanf mock_fns dl input format ap (ao_ensure_scanf_symbols dl initial_globals) vars w)
    (\<lambda>((ret, g', vars'), w'). mock_inv w' \<and> g' = ao_ensure_scanf_symbols dl initial_globals
      \<and> wrapped malloc g' mock_owns (ao_parse_wscanf_format realloc format ap empty_plan) (real input format ap)
          rs vars w ret vars' w')"
proof -
  have "g_real_vfwscanf (ao_ensure_scanf_symbols dl initial_globals) = Some real"
    using assms(3) by (simp add: ao_ensure_scanf_symbols_def ao_resolve_scanf_symbols_def initial_globals_def)
  then show ?thesis
    using mock_bridge.wrap_wide_law [where real = real, OF assms(1) refl resolved_bridge [OF assms(2)] mock_fns_def assms(4,5)]
    unfolding ao_plain_vfwscanf_def ao_wrap_vfwscanf_common_def ensure_once
    by (auto elim!: wp_conseq)
qed

theorem vfwscanf_rehomes_witness:
  "\<exists>ret g' vars' w'. ao_plain_vfwscanf mock_fns (mock_symbols None (Some (sample_scan malloc 0x8000))) 0x9000 sample_format [0x8000]
       (ao_ensure_scanf_symbols (mock_symbols None (Some (sample_scan malloc 0x8000))) initial_globals)
       [0x8000 \<mapsto> NULL] (ready_state [Some 0x100000, Some 0x200000, Some 0x300000]) = Done ((ret, g', vars'), w')
     \<and> wrapped malloc g' mock_owns (ao_parse_wscanf_format realloc sample_format [0x8000] empty_plan)
         (sample_scan malloc 0x8000 0x9000 (sample_format :: wchar list) [0x8000]) [sample_record] [0x8000 \<mapsto> NULL]
         (ready_state [Some 0x100000, Some 0x200000, Some 0x300000]) ret vars' w'"
  using wp_Done_cases [OF vfwscanf_rehomes [where dl = "mock_symbols None (Some (sample_scan malloc 0x8000))"
      and real = "sample_scan malloc 0x8000" and format = sample_format and ap = "[0x8000]" and input = "0x9000"
      and vars = "[0x8000 \<mapsto> NULL]",
    OF ready_inv [of "[Some 0x100000, Some 0x200000, Some 0x300000]"] _ _ sample_format_records(2)
      mock_scan_contract]]
  by (force simp: ready_room bridge_symbols_def mock_symbols_def)

text \<open>
  The 24 entry points. Each with the function of libc of its name, for the \<open>isoc99\<close> forms with the fallback of the
  source, and with the stream or string it scans.
\<close>

type_synonym ('f, 'a) scan_entry =
  "'a allocator_fns \<Rightarrow> 'a scanf_symbols \<Rightarrow> ptr \<Rightarrow> 'f \<Rightarrow> ptr list \<Rightarrow> 'a scanf_globals \<Rightarrow> slots \<Rightarrow> 'a libc_scheme \<Rightarrow> 'a scan_result"

definition byte_entries ::
  "((byte list, 'a) scan_entry \<times> ('a scanf_symbols \<Rightarrow> (byte list, 'a) scan_fn option) \<times> ('a scanf_symbols \<Rightarrow> ptr \<Rightarrow> ptr)) list" where
  "byte_entries =
    [(ao_plain_vfscanf, sym_vfscanf, \<lambda>_ f. f),
     (isoc99_vfscanf, \<lambda>dl. or_else (sym_isoc99_vfscanf dl) (sym_vfscanf dl), \<lambda>_ f. f),
     (\<lambda>al dl _. ao_plain_vscanf al dl, sym_vfscanf, \<lambda>dl _. sym_stdin dl),
     (\<lambda>al dl _. isoc99_vscanf al dl, \<lambda>dl. or_else (sym_isoc99_vfscanf dl) (sym_vfscanf dl), \<lambda>dl _. sym_stdin dl),
     (ao_plain_fscanf, sym_vfscanf, \<lambda>_ f. f),
     (isoc99_fscanf, \<lambda>dl. or_else (sym_isoc99_vfscanf dl) (sym_vfscanf dl), \<lambda>_ f. f),
     (\<lambda>al dl _. ao_plain_scanf al dl, sym_vfscanf, \<lambda>dl _. sym_stdin dl),
     (\<lambda>al dl _. isoc99_scanf al dl, \<lambda>dl. or_else (sym_isoc99_vfscanf dl) (sym_vfscanf dl), \<lambda>dl _. sym_stdin dl),
     (ao_plain_vsscanf, sym_vsscanf, \<lambda>_ s. s),
     (isoc99_vsscanf, \<lambda>dl. or_else (sym_isoc99_vsscanf dl) (sym_vsscanf dl), \<lambda>_ s. s),
     (ao_plain_sscanf, sym_vsscanf, \<lambda>_ s. s),
     (isoc99_sscanf, \<lambda>dl. or_else (sym_isoc99_vsscanf dl) (sym_vsscanf dl), \<lambda>_ s. s)]"

definition wide_entries ::
  "((wchar list, 'a) scan_entry \<times> ('a scanf_symbols \<Rightarrow> (wchar list, 'a) scan_fn option) \<times> ('a scanf_symbols \<Rightarrow> ptr \<Rightarrow> ptr)) list" where
  "wide_entries =
    [(ao_plain_vfwscanf, sym_vfwscanf, \<lambda>_ f. f),
     (isoc99_vfwscanf, \<lambda>dl. or_else (sym_isoc99_vfwscanf dl) (sym_vfwscanf dl), \<lambda>_ f. f),
     (\<lambda>al dl _. ao_plain_vwscanf al dl, sym_vfwscanf, \<lambda>dl _. sym_stdin dl),
     (\<lambda>al dl _. isoc99_vwscanf al dl, \<lambda>dl. or_else (sym_isoc99_vfwscanf dl) (sym_vfwscanf dl), \<lambda>dl _. sym_stdin dl),
     (ao_plain_fwscanf, sym_vfwscanf, \<lambda>_ f. f),
     (isoc99_fwscanf, \<lambda>dl. or_else (sym_isoc99_vfwscanf dl) (sym_vfwscanf dl), \<lambda>_ f. f),
     (\<lambda>al dl _. ao_plain_wscanf al dl, sym_vfwscanf, \<lambda>dl _. sym_stdin dl),
     (\<lambda>al dl _. isoc99_wscanf al dl, \<lambda>dl. or_else (sym_isoc99_vfwscanf dl) (sym_vfwscanf dl), \<lambda>dl _. sym_stdin dl),
     (ao_plain_vswscanf, sym_vswscanf, \<lambda>_ s. s),
     (isoc99_vswscanf, \<lambda>dl. or_else (sym_isoc99_vswscanf dl) (sym_vswscanf dl), \<lambda>_ s. s),
     (ao_plain_swscanf, sym_vswscanf, \<lambda>_ s. s),
     (isoc99_swscanf, \<lambda>dl. or_else (sym_isoc99_vswscanf dl) (sym_vswscanf dl), \<lambda>_ s. s)]"

text \<open>A call of an entry point, and the scan it stands for: the wrapper with libc's function of that name.\<close>

type_synonym 'a scan_call = "'a scanf_globals \<Rightarrow> slots \<Rightarrow> 'a libc_scheme \<Rightarrow> 'a scan_result"

inductive scan_call :: "'a allocator_fns \<Rightarrow> 'a scanf_symbols \<Rightarrow> 'a scan_call \<Rightarrow> 'a scan_call \<Rightarrow> bool" for al dl where
  byte_call: "(entry, real, source) \<in> set byte_entries \<Longrightarrow> scan_call al dl (entry al dl input format ap)
    (wrap_scanf (ao_parse_scanf_format (al_realloc al)) al dl (real dl) (source dl input) format ap)"
| wide_call: "(wentry, wreal, source) \<in> set wide_entries \<Longrightarrow> scan_call al dl (wentry al dl input wformat ap)
    (wrap_scanf (ao_parse_wscanf_format (al_realloc al)) al dl (wreal dl) (source dl input) wformat ap)"

text \<open>Calls one after the other, and their return values.\<close>

fun run_scans :: "'a scan_call list \<Rightarrow> 'a scanf_globals \<Rightarrow> slots \<Rightarrow> 'a libc_scheme
  \<Rightarrow> (int list \<times> 'a scanf_globals \<times> slots \<times> 'a libc_scheme) outcome" where
  "run_scans [] g vars w = Done ([], g, vars, w)"
| "run_scans (c # cs) g vars w =
     obind (c g vars w) (\<lambda>((ret, g, vars), w). obind (run_scans cs g vars w) (\<lambda>(rets, st). Done (ret # rets, st)))"

lemmas scan_entry_defs = ao_plain_vfscanf_def isoc99_vfscanf_def ao_plain_vscanf_def isoc99_vscanf_def ao_plain_fscanf_def
  isoc99_fscanf_def ao_plain_scanf_def isoc99_scanf_def ao_plain_vsscanf_def isoc99_vsscanf_def ao_plain_sscanf_def isoc99_sscanf_def
  ao_plain_vfwscanf_def isoc99_vfwscanf_def ao_plain_vwscanf_def isoc99_vwscanf_def ao_plain_fwscanf_def
  isoc99_fwscanf_def ao_plain_wscanf_def isoc99_wscanf_def ao_plain_vswscanf_def isoc99_vswscanf_def ao_plain_swscanf_def
  isoc99_swscanf_def ao_wrap_vfscanf_common_def ao_wrap_vsscanf_common_def ao_wrap_vfwscanf_common_def ao_wrap_vswscanf_common_def

text \<open>Before the symbols are resolved a call fails; afterwards it is the scan it stands for, and they stay resolved.\<close>

lemma call_unresolved:
  assumes "scan_call al dl c i"
  shows "c initial_globals vars w = Done ((EOF, ao_ensure_scanf_symbols dl initial_globals, vars), w\<lparr>errno := ENOSYS\<rparr>)"
  using assms
  by cases (auto simp: byte_entries_def wide_entries_def scan_entry_defs wrap_scanf_def Let_def initial_globals_def)

lemma resolved_pointers:
  "g_real_vfscanf (ao_ensure_scanf_symbols dl initial_globals) = sym_vfscanf dl"
  "g_real_isoc99_vfscanf (ao_ensure_scanf_symbols dl initial_globals) = or_else (sym_isoc99_vfscanf dl) (sym_vfscanf dl)"
  "g_real_vsscanf (ao_ensure_scanf_symbols dl initial_globals) = sym_vsscanf dl"
  "g_real_isoc99_vsscanf (ao_ensure_scanf_symbols dl initial_globals) = or_else (sym_isoc99_vsscanf dl) (sym_vsscanf dl)"
  "g_real_vfwscanf (ao_ensure_scanf_symbols dl initial_globals) = sym_vfwscanf dl"
  "g_real_isoc99_vfwscanf (ao_ensure_scanf_symbols dl initial_globals) = or_else (sym_isoc99_vfwscanf dl) (sym_vfwscanf dl)"
  "g_real_vswscanf (ao_ensure_scanf_symbols dl initial_globals) = sym_vswscanf dl"
  "g_real_isoc99_vswscanf (ao_ensure_scanf_symbols dl initial_globals) = or_else (sym_isoc99_vswscanf dl) (sym_vswscanf dl)"
  by (simp_all add: ao_ensure_scanf_symbols_def ao_resolve_scanf_symbols_def initial_globals_def)

lemma call_resolved:
  assumes "scan_call al dl c i"
  shows "c (ao_ensure_scanf_symbols dl initial_globals) = i (ao_ensure_scanf_symbols dl initial_globals)"
  using assms
  by cases (auto simp: byte_entries_def wide_entries_def scan_entry_defs resolved_pointers fun_eq_iff)

lemma wrap_scanf_globals:
  "wrap_scanf parse al dl real input format ap g vars w = Done ((ret, g', vars'), w') \<Longrightarrow> g' = ao_ensure_scanf_symbols dl g"
  by (auto simp: wrap_scanf_def Let_def obind_eq_Done split: option.splits)

lemma scan_stays_resolved:
  assumes "scan_call al dl c i" "i (ao_ensure_scanf_symbols dl initial_globals) vars w = Done ((ret, g', vars'), w')"
  shows "g' = ao_ensure_scanf_symbols dl initial_globals"
  using assms by cases (auto dest!: wrap_scanf_globals simp: ensure_once)

lemma run_resolved:
  assumes "list_all2 (scan_call al dl) cs is"
  shows "run_scans cs (ao_ensure_scanf_symbols dl initial_globals) vars w = run_scans is (ao_ensure_scanf_symbols dl initial_globals) vars w"
  using assms
proof (induction arbitrary: vars w rule: list_all2_induct)
  case (Cons c cs i "is")
  show ?case
  proof (cases "i (ao_ensure_scanf_symbols dl initial_globals) vars w")
    case (Done x)
    obtain ret g' vars' w' where "x = ((ret, g', vars'), w')" by (metis surj_pair)
    moreover from this have "g' = ao_ensure_scanf_symbols dl initial_globals"
      using Done scan_stays_resolved [OF Cons.hyps(1)] by simp
    ultimately show ?thesis using Done Cons.IH by (simp add: call_resolved [OF Cons.hyps(1)])
  qed (simp_all add: call_resolved [OF Cons.hyps(1)])
qed simp

text \<open>
  C35: of the calls of the 24 scanner overrides in a process, in any order, the first one fails with \<open>EOF\<close> and \<open>ENOSYS\<close>
  whatever libc provides and without touching the input, because the entry point reads its
  function pointer before the wrapper resolves the symbols; every later one runs the wrapper with libc's function of its
  name, or for the \<open>isoc99\<close> forms the plain one where libc has no other.
\<close>

theorem first_scanf_call_fails:
  assumes "scan_call al dl c i" "list_all2 (scan_call al dl) cs is"
  shows "run_scans (c # cs) initial_globals vars w =
    obind (run_scans is (ao_ensure_scanf_symbols dl initial_globals) vars (w\<lparr>errno := ENOSYS\<rparr>)) (\<lambda>(rets, st). Done (EOF # rets, st))"
  by (simp add: call_unresolved [OF assms(1)] run_resolved [OF assms(2)])

text \<open>Two calls of \<open>vsscanf\<close> with the format \<open>%d\<close>: the first returns -1, the second 1.\<close>

lemma scan_number:
  "wrap_scanf (ao_parse_scanf_format (al_realloc mock_fns)) mock_fns dl (Some (\<lambda>_ _ _ vars u. Done (1, vars, u))) input [37, 100] [dest] g vars w
     = Done ((1, ao_ensure_scanf_symbols dl g, vars), w)"
  by (simp add: wrap_scanf_def Let_def ao_parse_scanf_format_def parse_format.simps directive_dest_def parse_position_def
      is_digit_def va_arg_def directive_flags_def length_modifier_def directive_spec_def ao_scanf_plan_reset_def mock_fns_def
      empty_plan_def ao_rehome_scanf_plan_def mock_alloc.free_NULL_law)

theorem first_scanf_call_fails_witness:
  "\<exists>dl st. run_scans (replicate 2 (ao_plain_vsscanf mock_fns dl 0x9000 [37, 100] [0x8000])) initial_globals Map.empty (ready_state [])
     = Done ([EOF, 1], st)"
proof -
  let ?dl = "mock_symbols (Some (\<lambda>_ _ _ vars u. Done (1, vars, u))) None"
  let ?c = "ao_plain_vsscanf mock_fns ?dl 0x9000 [37, 100] [0x8000]"
  let ?i = "wrap_scanf (ao_parse_scanf_format (al_realloc mock_fns)) mock_fns ?dl (sym_vsscanf ?dl) 0x9000 [37, 100] [0x8000]"
  have c: "scan_call mock_fns ?dl ?c ?i"
    by (rule byte_call [where source = "\<lambda>_ s. s", unfolded byte_entries_def]) simp
  then have "list_all2 (scan_call mock_fns ?dl) [?c] [?i]" by simp
  from first_scanf_call_fails [OF c this, of Map.empty "ready_state []"]
  have "run_scans (replicate 2 ?c) initial_globals Map.empty (ready_state [])
    = obind (run_scans [?i] (ao_ensure_scanf_symbols ?dl initial_globals) Map.empty ((ready_state [])\<lparr>errno := ENOSYS\<rparr>))
        (\<lambda>(rets, st). Done (EOF # rets, st))"
    by (simp only: numeral_2_eq_2 replicate.simps)
  moreover have "sym_vsscanf ?dl = Some (\<lambda>_ _ _ vars u. Done (1, vars, u))" by (simp add: mock_symbols_def)
  ultimately have "run_scans (replicate 2 ?c) initial_globals Map.empty (ready_state [])
    = Done ([EOF, 1], ao_ensure_scanf_symbols ?dl initial_globals, Map.empty, (ready_state [])\<lparr>errno := ENOSYS\<rparr>)"
    by (simp add: scan_number ensure_once)
  then show ?thesis by blast
qed

end
