(* ===== verification/Path_Properties.thy ===== *)
theory Path_Properties
  imports Sample_States Preload
begin

text \<open>
  Paths and directories under the mock allocator: \<open>realpath\<close>, \<open>getcwd\<close>, \<open>tempnam\<close> and \<open>scandir\<close> with
  both libraries preloaded, for every file system.
\<close>

text \<open>A file system without links, and the path \<open>/a\<close>.\<close>

definition no_links :: file_system where
  "no_links k path = Inl EINVAL"

lemma sample_path: "cstring [47, 97] [Some 47, Some 97, Some 0]"
  by (simp add: cstring_def)

section \<open>Paths\<close>

text \<open>
  C36: \<open>realpath\<close> returns on every path and every file system, one that changes between two calls and one with cycles of links
  included, and it is memory-safe: it gives null with the heap unchanged, or a fresh block of the
  preloaded allocator that holds an absolute, terminated path shorter than \<open>PATH_MAX\<close>.
\<close>

theorem realpath_returns:
  assumes "mock_inv w" "cstring s name"
  shows "wp (mock_room w = 0) (realpath malloc fs cwd (Some name) None w) (\<lambda>((r, _), w'). mock_inv w' \<and>
    path_returned mock_owns w (\<lambda>path. path \<noteq> [] \<and> hd path = 47 \<and> 0 \<notin> set path \<and> length path < PATH_MAX) r w')"
  using assms by (rule mock_alloc.realpath_law)

theorem realpath_returns_witness:
  "\<exists>r b w'. realpath malloc no_links (Inr [47]) (Some [Some 47, Some 97, Some 0]) None (ready_state [Some 0x100000])
       = Done ((r, b), w')
     \<and> mock_inv w' \<and> (r = Failed \<or> (\<exists>p. r = Allocated p \<and> p \<noteq> NULL))"
proof -
  have "\<not> mock_room (ready_state [Some 0x100000]) = 0" by (simp add: ready_room)
  from wp_Done_cases [OF realpath_returns [OF ready_inv sample_path] this, of no_links "Inr [47]"]
  show ?thesis by (auto simp: path_returned_def)
qed

text \<open>
  C37: what \<open>realpath\<close> returns is the resolved path of its argument, absolute or relative: the root and names to which the
  rules of \<open>resolves\<close> lead (a dot stays, two dots go to the parent, a link is replaced by its target), without a dot or an
  empty component, and every prefix of it was read by \<open>readlink\<close> as no link. A path that stays relative is put below
  the current directory, and the two dots at its front take as many names off the directory.
  \<open>readlink_contract\<close> says of \<open>readlink\<close> that targets are strings and that neither the empty path nor one ending in
  a slash or in two dots is a link, \<open>cwd_contract\<close> of \<open>getcwd\<close> that an absolute result is a slash and names.
\<close>

theorem realpath_resolves:
  assumes "mock_inv w" "cstring s name" "readlink_contract fs" "cwd_contract cwd"
  shows "wp (mock_room w = 0) (realpath malloc fs cwd (Some name) None w)
    (\<lambda>((r, _), w'). mock_inv w' \<and> path_returned mock_owns w (resolved_path fs cwd s) r w')"
  using assms by (rule mock_alloc.realpath_resolves_law)

text \<open>
  A file system in which \<open>/l\<close> is the only link, to \<open>b/.\<close>; the path \<open>a/../../l\<close> leads to \<open>/b\<close> from the directory \<open>/d\<close>.
\<close>

definition one_link :: file_system where
  "one_link k path = (if path = [47, 108] \<or> path = [46, 46, 47, 108] then Inr [98, 47, 46] else Inl EINVAL)"

definition up_link :: "byte list" where
  "up_link = [97, 47, 46, 46, 47, 46, 46, 47, 108]"

lemma one_link_contract: "readlink_contract one_link" "cwd_contract (Inr [47, 100])"
  by (simp_all add: readlink_contract_def one_link_def cwd_contract_def render_def canonical_def)

lemma one_link_resolved:
  assumes "resolved_path one_link (Inr [47, 100]) up_link path"
  shows "path = [47, 98]"
proof -
  have "resolves one_link [] [] [[97], [46, 46], [46, 46], [108]] [] [[46, 46], [98]]"
    by (simp add: resolves_canonical canonical_def resolves_Cons [of _ _ _ "[46, 46]"] resolves_Cons [of _ _ _ "[46]"]
        resolves_Nil one_link_def render_def is_absolute_def parent_def keeps_up_def)
  moreover have "unchanging one_link" by (simp add: unchanging_def one_link_def)
  moreover obtain root cs where rc: "full_path (Inr [47, 100]) root cs path"
      "resolves one_link [] [] [[97], [46, 46], [46, 46], [108]] root cs"
    using assms by (auto simp: resolved_path_def denotes_def is_absolute_def up_link_def)
  ultimately have "root = []" "cs = [[46, 46], [98]]" using resolves_unique by blast+
  with rc(1) obtain ds where "[47, 100] = render [47] ds" "ds = components (render [47] ds)" "path = below ds [[46, 46], [98]]"
    unfolding full_path_def by auto
  then have "ds = components [47, 100]" by argo
  then have "path = below [[100]] [[46, 46], [98]]" using \<open>path = _\<close> by simp
  then show ?thesis by (simp add: below_def ups_def render_def)
qed

theorem realpath_resolves_witness:
  "\<exists>r b w'. realpath malloc one_link (Inr [47, 100]) (Some (map Some (up_link @ [0]))) None
       (ready_state [Some 0x100000]) = Done ((r, b), w')
     \<and> (r = Failed \<or> (\<exists>p. r = Allocated p \<and> blocks w' p = Some [Some 47, Some 98, Some 0]))"
proof -
  have "\<not> mock_room (ready_state [Some 0x100000]) = 0" by (simp add: ready_room)
  moreover have "cstring up_link (map Some (up_link @ [0]))" by (simp add: cstring_def up_link_def)
  ultimately show ?thesis
    using wp_Done_cases [OF realpath_resolves [OF ready_inv _ one_link_contract]]
    by (fastforce simp: path_returned_def duplicated_def dest!: one_link_resolved)
qed

text \<open>
  C38: \<open>getcwd\<close> without a buffer returns the current directory in a fresh block, or null with the reason in
  \<open>errno\<close>: the kernel's error, \<open>ERANGE\<close> for a path of \<open>PATH_MAX\<close> or more bytes, \<open>ENOENT\<close> for one that is not
  absolute, \<open>ENOMEM\<close>; then nothing else changed.
\<close>

theorem getcwd_allocates:
  assumes "mock_inv w" "\<And>d. cwd = Inr d \<Longrightarrow> 0 \<notin> set d"
  shows "wp (mock_room w = 0) (getcwd malloc cwd None sz w)
    (\<lambda>((r, _), w'). mock_inv w' \<and> getcwd_spec mock_owns cwd w r w')"
  using assms by (rule mock_alloc.getcwd_law)

theorem getcwd_allocates_witness:
  "\<exists>p b w'. getcwd malloc (Inr [47, 97]) None 0 (ready_state [Some 0x100000]) = Done ((fresh_path p, b), w')
     \<and> duplicated mock_owns [Some 47, Some 97, Some 0] (ready_state [Some 0x100000]) p w'"
proof -
  have "\<not> mock_room (ready_state [Some 0x100000]) = 0" by (simp add: ready_room)
  from wp_Done_cases [OF getcwd_allocates [OF ready_inv, of "Inr [47, 97]"] this, of 0]
  show ?thesis by (auto simp: getcwd_spec_def PATH_MAX_def simp del: split_paired_Ex)
qed

text \<open>
  C39: \<open>tempnam\<close> returns, in a fresh block, the directory, the prefix and six characters of the alphabet, a name that
  did not exist when it was tried; or null with the heap unchanged, after at most 100 tries or for a name
  that is too long. It never writes outside its buffer.
\<close>

theorem tempnam_fresh_name:
  assumes "mock_inv w" "d = (case dir of None \<Rightarrow> P_tmpdir | Some d \<Rightarrow> d)" "0 \<notin> set d"
    and "x = (case pfx of None \<Rightarrow> [116, 101, 109, 112] | Some x \<Rightarrow> x)" "0 \<notin> set x"
  shows "wp (mock_room w = 0) (tempnam malloc fs clock dir pfx w)
    (\<lambda>(r, w'). mock_inv w' \<and> tempnam_spec mock_owns fs (temp_name d x) w r w')"
  using assms by (rule mock_alloc.tempnam_law)

text \<open>A file system without files.\<close>

definition no_files :: file_system where
  "no_files k path = Inl ENOENT"

theorem tempnam_fresh_name_witness:
  "\<exists>r w'. tempnam malloc no_files (\<lambda>k. (0, of_nat k, 7)) None (Some [97]) (ready_state [Some 0x100000]) = Done (r, w')
     \<and> tempnam_spec mock_owns no_files (temp_name P_tmpdir [97]) (ready_state [Some 0x100000]) r w'"
proof -
  have "\<not> mock_room (ready_state [Some 0x100000]) = 0" by (simp add: ready_room)
  moreover have "0 \<notin> set P_tmpdir" by (simp add: P_tmpdir_def)
  ultimately show ?thesis
    using wp_Done_cases [OF tempnam_fresh_name [OF ready_inv, of P_tmpdir None "[97]" "Some [97]"],
        of "[Some 0x100000]" no_files "\<lambda>k. (0, of_nat k, 7)"]
    by auto
qed

section \<open>Directories\<close>

text \<open>
  C40: \<open>scandir\<close>, for every selection, every comparison and every \<open>qsort\<close> that permutes: on success the result is the
  number of selected entries, each copied exactly into a fresh block of the allocator, in an array of
  the allocator in directory order (any order when sorted), and \<open>errno\<close> is as before; on any error
  \<open>-1\<close>, and every block taken is released. No access leaves the array.
\<close>

theorem scandir_collects:
  assumes "mock_inv w" "list_all (\<lambda>e. length e < 65536) entries" "qsort_contract qsort"
  shows "wp (mock_room w < 2 * length entries) (scandir malloc realloc free qsort (Inr (entries, end_errno)) sel cmp w)
    (\<lambda>((ret, res), w'). mock_inv w'
      \<and> scanned mock_owns (filter (\<lambda>e. sel = None \<or> the sel e) entries) end_errno (cmp \<noteq> None) w ret res w')"
  unfolding scandir_def using assms by (rule mock_alloc.scan_directory_law)

text \<open>A \<open>qsort\<close> that reverses.\<close>

definition reverse_qsort :: qsort_fn where
  "reverse_qsort c ps = rev ps"

theorem scandir_collects_witness:
  "\<exists>ret res w'. scandir malloc realloc free reverse_qsort (Inr ([[1], [2, 3]], EOK)) (Some (\<lambda>e. length e = 2)) None
       (ready_state [Some 0x100000, Some 0x200000]) = Done ((ret, res), w')
     \<and> scanned mock_owns [[2, 3]] EOK False (ready_state [Some 0x100000, Some 0x200000]) ret res w'"
proof -
  have "qsort_contract reverse_qsort" by (simp add: qsort_contract_def reverse_qsort_def)
  from wp_Done_cases [OF scandir_collects [OF ready_inv _ this, of "[[1], [2, 3]]" "[Some 0x100000, Some 0x200000]"
        EOK "Some (\<lambda>e. length e = 2)" None]]
  show ?thesis by (auto simp: ready_room)
qed

end
