(* ===== verification/Mock_Threads.thy ===== *)
theory Mock_Threads
  imports Mock_Runs
begin

text \<open>
  Several threads in \<open>libmock_allocator.so\<close> (\<open>src/mock_allocator.c\<close>). A thread inside one of the entry points is
  a \<open>phase\<close>, the place it has reached with the local variables it still needs, and \<open>thread_step\<close> is
  its next access to shared memory: one call of libc, one atomic operation, or the registry operation of a
  critical section. A thread that finds the lock taken stays where it is and tries again. The symbols are
  resolved and \<open>g_in_resolver\<close>, which is thread-local, is false. Run without interruption a call does what the
  sequential functions say; that is the last section.
\<close>

section \<open>Counters, one atomic operation at a time\<close>

datatype counter =
    Malloc_calls | Calloc_calls | Realloc_calls | Free_calls | Successful_allocations
  | Successful_allocation_bytes | Failed_allocations | Bypass_realloc_calls | Bypass_free_calls
  | Live_blocks | Live_bytes

fun counter_add :: "counter \<Rightarrow> 64 word \<Rightarrow> ao_atomic_stats \<Rightarrow> ao_atomic_stats" where
  "counter_add Malloc_calls x st = st\<lparr>malloc_calls := malloc_calls st + x\<rparr>"
| "counter_add Calloc_calls x st = st\<lparr>calloc_calls := calloc_calls st + x\<rparr>"
| "counter_add Realloc_calls x st = st\<lparr>realloc_calls := realloc_calls st + x\<rparr>"
| "counter_add Free_calls x st = st\<lparr>free_calls := free_calls st + x\<rparr>"
| "counter_add Successful_allocations x st = st\<lparr>successful_allocations := successful_allocations st + x\<rparr>"
| "counter_add Successful_allocation_bytes x st = st\<lparr>successful_allocation_bytes := successful_allocation_bytes st + x\<rparr>"
| "counter_add Failed_allocations x st = st\<lparr>failed_allocations := failed_allocations st + x\<rparr>"
| "counter_add Bypass_realloc_calls x st = st\<lparr>bypass_realloc_calls := bypass_realloc_calls st + x\<rparr>"
| "counter_add Bypass_free_calls x st = st\<lparr>bypass_free_calls := bypass_free_calls st + x\<rparr>"
| "counter_add Live_blocks x st = st\<lparr>live_blocks := live_blocks st + x\<rparr>"
| "counter_add Live_bytes x st = st\<lparr>live_bytes := live_bytes st + x\<rparr>"

fun counter_store :: "counter \<Rightarrow> 64 word \<Rightarrow> ao_atomic_stats \<Rightarrow> ao_atomic_stats" where
  "counter_store Malloc_calls x st = st\<lparr>malloc_calls := x\<rparr>"
| "counter_store Calloc_calls x st = st\<lparr>calloc_calls := x\<rparr>"
| "counter_store Realloc_calls x st = st\<lparr>realloc_calls := x\<rparr>"
| "counter_store Free_calls x st = st\<lparr>free_calls := x\<rparr>"
| "counter_store Successful_allocations x st = st\<lparr>successful_allocations := x\<rparr>"
| "counter_store Successful_allocation_bytes x st = st\<lparr>successful_allocation_bytes := x\<rparr>"
| "counter_store Failed_allocations x st = st\<lparr>failed_allocations := x\<rparr>"
| "counter_store Bypass_realloc_calls x st = st\<lparr>bypass_realloc_calls := x\<rparr>"
| "counter_store Bypass_free_calls x st = st\<lparr>bypass_free_calls := x\<rparr>"
| "counter_store Live_blocks x st = st\<lparr>live_blocks := x\<rparr>"
| "counter_store Live_bytes x st = st\<lparr>live_bytes := x\<rparr>"

type_synonym additions = "(counter \<times> 64 word) list"

definition fetch_add :: "counter \<Rightarrow> 64 word \<Rightarrow> mock \<Rightarrow> mock" where
  "fetch_add c x w = w\<lparr>g_stats := counter_add c x (g_stats w)\<rparr>"

definition store_zero :: "counter \<Rightarrow> mock \<Rightarrow> mock" where
  "store_zero c w = w\<lparr>g_stats := counter_store c 0 (g_stats w)\<rparr>"

text \<open>The stores of \<open>ao_mock_reset\<close>, in its order.\<close>

definition reset_counters :: "counter list" where
  "reset_counters = [Malloc_calls, Calloc_calls, Realloc_calls, Free_calls, Successful_allocations,
     Successful_allocation_bytes, Failed_allocations, Bypass_realloc_calls, Bypass_free_calls]"

text \<open>What the recording functions add, after the check of the capture depth where they have one.\<close>

definition failed_adds :: additions where
  "failed_adds = [(Failed_allocations, 1)]"

definition successful_adds :: "nat \<Rightarrow> size_t \<Rightarrow> additions" where
  "successful_adds kind n =
     (if kind = 0 then [(Malloc_calls, 1)] else if kind = 1 then [(Calloc_calls, 1)]
      else if kind = 2 then [(Realloc_calls, 1)] else [])
     @ [(Successful_allocations, 1), (Successful_allocation_bytes, n)]"

definition free_adds :: "bool \<Rightarrow> additions" where
  "free_adds bypass = (Free_calls, 1) # (if bypass then [(Bypass_free_calls, 1)] else [])"

definition realloc_adds :: "bool \<Rightarrow> additions" where
  "realloc_adds bypass = (Realloc_calls, 1) # (if bypass then [(Bypass_realloc_calls, 1)] else [])"

definition live_adds :: "size_t \<Rightarrow> additions" where
  "live_adds n = [(Live_blocks, 1), (Live_bytes, n)]"

definition live_update_adds :: "size_t \<Rightarrow> size_t \<Rightarrow> additions" where
  "live_update_adds old new =
     (if old < new then [(Live_bytes, new - old)] else if new < old then [(Live_bytes, - (old - new))] else [])"

definition live_removes :: "size_t \<Rightarrow> additions" where
  "live_removes n = [(Live_blocks, - 1), (Live_bytes, - n)]"

section \<open>Phases of a call\<close>

type_synonym entry = "size_t \<times> 64 word"

datatype phase =
    Returned ptr | Answered bool
  | Return ptr
  | Abort
  | Check additions phase
  | Count additions phase
  | Call_malloc size_t
  | Call_calloc size_t size_t
  | Call_realloc_null size_t
  | Track_lock nat ptr size_t
  | Track_insert nat ptr size_t
  | Track_unlock nat ptr size_t bool
  | Free_lock ptr
  | Free_remove ptr
  | Free_unlock ptr "entry option"
  | Call_free ptr
  | Realloc_lock ptr size_t
  | Realloc_lookup ptr size_t
  | Realloc_unlock ptr size_t "entry option"
  | Call_realloc ptr size_t "entry option"
  | Exchange_lock ptr ptr size_t entry
  | Exchange ptr ptr size_t entry
  | Exchange_unlock ptr size_t size_t bool
  | Contains_lock ptr
  | Contains_lookup ptr
  | Contains_unlock bool
  | End_sub
  | Clear "counter list"
  | Bridge_realloc ptr size_t

text \<open>The calls of a program.\<close>

datatype api_call =
    Malloc size_t | Calloc size_t size_t | Realloc ptr size_t | Free ptr | Is_tracked ptr | Begin_capture | End_capture
  | Reset | Bridge_free ptr | Bridge_realloc_call ptr size_t

text \<open>A call up to its first access to shared memory, for pointers outside the bootstrap heap.\<close>

fun call_start :: "api_call \<Rightarrow> mock \<Rightarrow> phase \<times> mock" where
  "call_start (Malloc n) w = (Call_malloc n, w)"
| "call_start (Calloc m n) w = (Call_calloc m n, w)"
| "call_start (Realloc p n) w = (if p = NULL then Call_realloc_null n else Realloc_lock p n, w)"
| "call_start (Free p) w = (if p = NULL then Returned NULL else Free_lock p, w)"
| "call_start (Is_tracked p) w = (if p = NULL then Answered False else Contains_lock p, w)"
| "call_start Begin_capture w = (Returned NULL, ao_mock_begin_capture w)"
| "call_start End_capture w = (if 0 < sint (g_capture_depth w) then End_sub else Returned NULL, w)"
| "call_start Reset w = (Clear reset_counters, w)"
| "call_start (Bridge_free p) w = (if p = NULL then Returned NULL else Call_free p, w)"
| "call_start (Bridge_realloc_call p n) w = (Bridge_realloc p n, w)"

text \<open>\<open>atomic_flag_test_and_set\<close>: where the flag was set, the loop goes round.\<close>

definition acquire :: "phase \<Rightarrow> phase \<Rightarrow> mock \<Rightarrow> (phase \<times> mock) outcome" where
  "acquire spin k w = (if g_registry_lock w then Done (spin, w) else Done (k, w\<lparr>g_registry_lock := True\<rparr>))"

fun thread_step :: "phase \<Rightarrow> mock \<Rightarrow> (phase \<times> mock) outcome" where
  "thread_step (Returned p) w = Done (Returned p, w)"
| "thread_step (Answered b) w = Done (Answered b, w)"
| "thread_step (Return p) w = Done (Returned p, w)"
| "thread_step Abort w = Exit 127"
| "thread_step (Check adds k) w = Done (if ao_capture_enabled w then Count adds k else k, w)"
| "thread_step (Count [] k) w = Done (k, w)"
| "thread_step (Count ((c, x) # adds) k) w = Done (Count adds k, fetch_add c x w)"
| "thread_step (Call_malloc n) w =
     (case real_malloc n w of (p, w) \<Rightarrow>
        Done (if p = NULL then Check failed_adds (Return NULL) else Track_lock 0 p n, w))"
| "thread_step (Call_calloc m n) w =
     (if m \<noteq> 0 \<and> SIZE_MAX div m < n then Done (Check failed_adds (Return NULL), w\<lparr>errno := ENOMEM\<rparr>)
      else case real_calloc m n w of (p, w) \<Rightarrow>
        Done (if p = NULL then Check failed_adds (Return NULL) else Track_lock 1 p (m * n), w))"
| "thread_step (Call_realloc_null n) w =
     obind (real_realloc NULL n w) (\<lambda>(p, w).
        Done (if p = NULL then Check failed_adds (Return NULL) else Track_lock 2 p n, w))"
| "thread_step (Track_lock kind p n) w = acquire (Track_lock kind p n) (Track_insert kind p n) w"
| "thread_step (Track_insert kind p n) w =
     (case ao_next_allocation_id w of (aid, w) \<Rightarrow>
        case ao_registry_insert_locked p n aid (g_registry w) of
          None \<Rightarrow> Done (Track_unlock kind p n False, w)
        | Some reg \<Rightarrow> Done (Track_unlock kind p n True, w\<lparr>g_registry := reg\<rparr>))"
| "thread_step (Track_unlock kind p n inserted) w =
     Done (if inserted then Count (live_adds n) (Check (successful_adds kind n) (Return p)) else Abort, ao_registry_unlock w)"
| "thread_step (Free_lock p) w = acquire (Free_lock p) (Free_remove p) w"
| "thread_step (Free_remove p) w =
     (case ao_registry_remove_locked p (g_registry w) of
        None \<Rightarrow> Done (Free_unlock p None, w)
      | Some (entry, reg) \<Rightarrow> Done (Free_unlock p (Some entry), w\<lparr>g_registry := reg\<rparr>))"
| "thread_step (Free_unlock p entry) w =
     Done (Check (free_adds (entry = None))
             (case entry of None \<Rightarrow> Call_free p | Some (sz, _) \<Rightarrow> Count (live_removes sz) (Call_free p)), ao_registry_unlock w)"
| "thread_step (Call_free p) w = obind (real_free p w) (\<lambda>w. Done (Return NULL, w))"
| "thread_step (Realloc_lock p n) w = acquire (Realloc_lock p n) (Realloc_lookup p n) w"
| "thread_step (Realloc_lookup p n) w = Done (Realloc_unlock p n (ao_registry_lookup_locked p (g_registry w)), w)"
| "thread_step (Realloc_unlock p n entry) w =
     Done (if entry = None then Check (realloc_adds True) (Call_realloc p n None) else Call_realloc p n entry, ao_registry_unlock w)"
| "thread_step (Call_realloc p n entry) w =
     obind (real_realloc p n w) (\<lambda>(q, w). case entry of
         None \<Rightarrow> Done (if q = NULL \<and> n \<noteq> 0 then Check failed_adds (Return NULL) else Return q, w)
       | Some e \<Rightarrow>
           Done (if q = NULL \<and> n \<noteq> 0 then Check (realloc_adds False) (Check failed_adds (Return NULL))
                 else Exchange_lock p q n e, w))"
| "thread_step (Exchange_lock p q n e) w = acquire (Exchange_lock p q n e) (Exchange p q n e) w"
| "thread_step (Exchange p q n e) w =
     (let w = (case ao_registry_remove_locked p (g_registry w) of None \<Rightarrow> w | Some (_, reg) \<Rightarrow> w\<lparr>g_registry := reg\<rparr>)
      in if q = NULL then Done (Exchange_unlock q n (fst e) True, w)
         else case ao_registry_insert_locked q n (snd e) (g_registry w) of
                None \<Rightarrow> Done (Exchange_unlock q n (fst e) False, w)
              | Some reg \<Rightarrow> Done (Exchange_unlock q n (fst e) True, w\<lparr>g_registry := reg\<rparr>))"
| "thread_step (Exchange_unlock q n old inserted) w =
     Done (if inserted
           then Check (realloc_adds False) (Count (if q \<noteq> NULL then live_update_adds old n else live_removes old) (Return q))
           else Abort, ao_registry_unlock w)"
| "thread_step (Contains_lock p) w = acquire (Contains_lock p) (Contains_lookup p) w"
| "thread_step (Contains_lookup p) w = Done (Contains_unlock (ao_registry_lookup_locked p (g_registry w) \<noteq> None), w)"
| "thread_step (Contains_unlock found) w = Done (Answered found, ao_registry_unlock w)"
| "thread_step End_sub w = Done (Returned NULL, w\<lparr>g_capture_depth := g_capture_depth w - 1\<rparr>)"
| "thread_step (Clear []) w = Done (Returned NULL, w)"
| "thread_step (Clear (c # cs)) w = Done (Clear cs, store_zero c w)"
| "thread_step (Bridge_realloc p n) w = obind (real_realloc p n w) (\<lambda>(q, w). Done (Return q, w))"

section \<open>A call alone\<close>

text \<open>How many steps a call still takes at most, the waiting for the lock aside.\<close>

primrec steps_left :: "phase \<Rightarrow> nat" where
  "steps_left (Returned p) = 0"
| "steps_left (Answered b) = 0"
| "steps_left (Return p) = 1"
| "steps_left Abort = 1"
| "steps_left (Check adds k) = length adds + steps_left k + 2"
| "steps_left (Count adds k) = length adds + steps_left k + 1"
| "steps_left (Call_malloc n) = 13"
| "steps_left (Call_calloc m n) = 13"
| "steps_left (Call_realloc_null n) = 13"
| "steps_left (Track_lock kind p n) = 12"
| "steps_left (Track_insert kind p n) = 11"
| "steps_left (Track_unlock kind p n inserted) = 10"
| "steps_left (Free_lock p) = 12"
| "steps_left (Free_remove p) = 11"
| "steps_left (Free_unlock p entry) = 10"
| "steps_left (Call_free p) = 2"
| "steps_left (Realloc_lock p n) = 20"
| "steps_left (Realloc_lookup p n) = 19"
| "steps_left (Realloc_unlock p n entry) = 18"
| "steps_left (Call_realloc p n entry) = 13"
| "steps_left (Exchange_lock p q n e) = 12"
| "steps_left (Exchange p q n e) = 11"
| "steps_left (Exchange_unlock q n old inserted) = 10"
| "steps_left (Contains_lock p) = 3"
| "steps_left (Contains_lookup p) = 2"
| "steps_left (Contains_unlock found) = 1"
| "steps_left End_sub = 1"
| "steps_left (Clear cs) = length cs + 1"
| "steps_left (Bridge_realloc p n) = 2"

lemmas adds_defs = failed_adds_def successful_adds_def free_adds_def realloc_adds_def live_adds_def
  live_update_adds_def live_removes_def

lemma thread_step_left:
  "thread_step ph w = Done (ph', w') \<Longrightarrow> ph' = ph \<and> w' = w \<or> steps_left ph' < steps_left ph"
  by (cases "(ph, w)" rule: thread_step.cases)
    (auto simp: acquire_def adds_defs obind_eq_Done Let_def split: prod.splits option.splits if_splits)

text \<open>The value of a call that has returned; of \<open>Answered\<close> it is the \<open>int\<close> of the source.\<close>

fun returned :: "phase \<Rightarrow> ptr option" where
  "returned (Returned p) = Some p"
| "returned (Answered b) = Some (if b then 1 else 0)"
| "returned _ = None"

function run_alone :: "phase \<Rightarrow> mock \<Rightarrow> (ptr \<times> mock) outcome" where
  "run_alone ph w =
     (case returned ph of
        Some p \<Rightarrow> Done (p, w)
      | None \<Rightarrow> obind (thread_step ph w) (\<lambda>(ph', w'). if ph' = ph then Spin else run_alone ph' w'))"
  by pat_completeness auto

termination
  by (relation "measure (\<lambda>(ph, w). steps_left ph)") (auto dest!: thread_step_left)

declare run_alone.simps [simp del]

text \<open>One step, where it moves on.\<close>

lemma run_alone_step:
  "thread_step ph w = Done (ph', w') \<Longrightarrow> returned ph = None \<Longrightarrow> ph' \<noteq> ph \<Longrightarrow> run_alone ph w = run_alone ph' w'"
  by (subst run_alone.simps) simp

lemma run_alone_returned [simp]: "run_alone (Returned p) w = Done (p, w)" "run_alone (Answered b) w = Done (if b then 1 else 0, w)"
  by (simp_all add: run_alone.simps)

lemma run_alone_Return [simp]: "run_alone (Return p) w = Done (p, w)" "run_alone Abort w = Exit 127"
  by (simp_all add: run_alone.simps [of "Return p"] run_alone.simps [of Abort])

fun add_all :: "additions \<Rightarrow> mock \<Rightarrow> mock" where
  "add_all [] w = w"
| "add_all ((c, x) # adds) w = add_all adds (fetch_add c x w)"

lemma Count_neq [simp]: "Count adds k \<noteq> k" "Check adds k \<noteq> k" "k \<noteq> Count adds k" "k \<noteq> Check adds k"
  by (induction k arbitrary: adds) auto

lemma run_alone_Count [simp]: "run_alone (Count adds k) w = run_alone k (add_all adds w)"
proof (induction adds arbitrary: w)
  case Nil
  show ?case by (subst run_alone.simps) simp
next
  case (Cons a adds)
  obtain c x where a: "a = (c, x)" by (cases a)
  then have "run_alone (Count (a # adds) k) w = run_alone (Count adds k) (fetch_add c x w)"
    by (intro run_alone_step) simp_all
  with Cons a show ?case by simp
qed

lemma run_alone_Check [simp]:
  "run_alone (Check adds k) w = run_alone k (if ao_capture_enabled w then add_all adds w else w)"
proof -
  have "run_alone (Check adds k) w = (if ao_capture_enabled w then run_alone (Count adds k) w else run_alone k w)"
    by (subst run_alone.simps) simp
  then show ?thesis by simp
qed

text \<open>The additions are what the sequential recording functions do.\<close>

lemma adds_sequential:
  "ao_record_failed_allocation w = (if ao_capture_enabled w then add_all failed_adds w else w)"
  "ao_record_successful_allocation kind n w = (if ao_capture_enabled w then add_all (successful_adds kind n) w else w)"
  "ao_record_free b w = (if ao_capture_enabled w then add_all (free_adds b) w else w)"
  "ao_record_realloc b w = (if ao_capture_enabled w then add_all (realloc_adds b) w else w)"
  "ao_live_add n w = add_all (live_adds n) w"
  "ao_live_update old n w = add_all (live_update_adds old n) w"
  "ao_live_remove n w = add_all (live_removes n) w"
  by (auto simp: ao_record_failed_allocation_def ao_record_successful_allocation_def ao_record_free_def
      ao_record_realloc_def ao_live_add_def ao_live_update_def ao_live_remove_def adds_defs fetch_add_def Let_def)

definition run_call :: "api_call \<Rightarrow> mock \<Rightarrow> (ptr \<times> mock) outcome" where
  "run_call c w = (case call_start c w of (ph, w) \<Rightarrow> run_alone ph w)"

fun sequential_call :: "api_call \<Rightarrow> mock \<Rightarrow> (ptr \<times> mock) outcome" where
  "sequential_call (Malloc n) w = malloc n w"
| "sequential_call (Calloc m n) w = calloc m n w"
| "sequential_call (Realloc p n) w = realloc p n w"
| "sequential_call (Free p) w = obind (free p w) (\<lambda>w. Done (NULL, w))"
| "sequential_call (Is_tracked p) w = obind (ao_mock_is_tracked_allocation p w) (\<lambda>(b, w). Done (if b then 1 else 0, w))"
| "sequential_call Begin_capture w = Done (NULL, ao_mock_begin_capture w)"
| "sequential_call End_capture w = Done (NULL, ao_mock_end_capture w)"
| "sequential_call Reset w = Done (NULL, ao_mock_reset w)"
| "sequential_call (Bridge_free p) w = obind (ao_alloc_bridge_libc_free p w) (\<lambda>w. Done (NULL, w))"
| "sequential_call (Bridge_realloc_call p n) w = ao_alloc_bridge_libc_realloc p n w"

text \<open>With the lock free the critical sections are those of the sequential functions.\<close>

lemma run_alone_acquire:
  assumes "thread_step ph w = acquire ph k w" "\<not> g_registry_lock w" "returned ph = None" "k \<noteq> ph"
  shows "run_alone ph w = run_alone k (w\<lparr>g_registry_lock := True\<rparr>)"
  using assms by (intro run_alone_step) (simp_all add: acquire_def)

lemma run_alone_track:
  assumes "\<not> g_registry_lock w"
  shows "run_alone (Track_lock kind p n) w =
    obind (ao_track_allocation_or_die p n w) (\<lambda>w. Done (p, ao_record_successful_allocation kind n w))"
proof -
  let ?l = "w\<lparr>g_registry_lock := True\<rparr>"
  have 1: "run_alone (Track_lock kind p n) w = run_alone (Track_insert kind p n) ?l"
    using assms by (intro run_alone_acquire) simp_all
  show ?thesis
  proof (cases "ao_registry_insert_locked p n (g_next_allocation_id w) (g_registry w)")
    case None
    let ?u = "?l\<lparr>g_next_allocation_id := g_next_allocation_id w + 1\<rparr>"
    have "run_alone (Track_insert kind p n) ?l = run_alone (Track_unlock kind p n False) ?u"
      using None by (intro run_alone_step) (simp_all add: ao_next_allocation_id_def)
    also have "\<dots> = run_alone Abort (ao_registry_unlock ?u)" by (intro run_alone_step) simp_all
    finally show ?thesis
      using None assms 1 by (simp add: ao_track_allocation_or_die_def ao_registry_lock_def ao_next_allocation_id_def ao_fatal_def)
  next
    case (Some reg)
    let ?u = "?l\<lparr>g_next_allocation_id := g_next_allocation_id w + 1, g_registry := reg\<rparr>"
    have "run_alone (Track_insert kind p n) ?l = run_alone (Track_unlock kind p n True) ?u"
      using Some by (intro run_alone_step) (simp_all add: ao_next_allocation_id_def)
    also have "\<dots> = run_alone (Count (live_adds n) (Check (successful_adds kind n) (Return p))) (ao_registry_unlock ?u)"
      by (intro run_alone_step) simp_all
    finally show ?thesis
      using Some assms 1
      by (simp add: ao_track_allocation_or_die_def ao_registry_lock_def ao_next_allocation_id_def adds_sequential)
  qed
qed

lemma real_malloc_lock: "real_malloc n w = (p, w') \<Longrightarrow> g_registry_lock w' = g_registry_lock (w :: mock)"
  by (auto simp: real_malloc_def split: list.splits option.splits if_splits)

lemma run_call_malloc:
  assumes "mock_ready w"
  shows "run_call (Malloc n) w = malloc n w"
proof -
  obtain p w' where r: "real_malloc n w = (p, w')" by (cases "real_malloc n w")
  then have "run_alone (Call_malloc n) w =
      run_alone (if p = NULL then Check failed_adds (Return NULL) else Track_lock 0 p n) w'"
    by (intro run_alone_step) simp_all
  with assms r real_malloc_lock [OF r] show ?thesis
    by (simp add: run_call_def malloc_def malloc_body_def mock_ready_def ao_ensure_real_functions_def pthread_once_def run_alone_track adds_sequential)
qed

lemma run_call_calloc:
  assumes "mock_ready w"
  shows "run_call (Calloc m n) w = calloc m n w"
proof (cases "m \<noteq> 0 \<and> SIZE_MAX div m < n")
  case True
  have "run_alone (Call_calloc m n) w = run_alone (Check failed_adds (Return NULL)) (w\<lparr>errno := ENOMEM\<rparr>)"
    using True by (intro run_alone_step) simp_all
  with assms True show ?thesis by (simp add: run_call_def calloc_def calloc_body_def mock_ready_def adds_sequential)
next
  case False
  obtain p w' where r: "real_calloc m n w = (p, w')" by (cases "real_calloc m n w")
  then have "run_alone (Call_calloc m n) w =
      run_alone (if p = NULL then Check failed_adds (Return NULL) else Track_lock 1 p (m * n)) w'"
    using False by (intro run_alone_step) (simp_all only: thread_step.simps if_False prod.case returned.simps phase.distinct split: if_split, auto)
  moreover have "g_registry_lock w' = g_registry_lock w"
    using r real_malloc_lock [of "m * n" w] by (auto simp: real_calloc_def split: prod.splits if_splits)
  ultimately show ?thesis
    using assms r False
    unfolding run_call_def calloc_def calloc_body_def call_start.simps prod.case if_not_P [OF False]
    by (simp add: mock_ready_def ao_ensure_real_functions_def pthread_once_def run_alone_track adds_sequential Let_def)
qed

lemma run_call_free:
  assumes "mock_ready w" "\<not> ao_bootstrap_contains p w"
  shows "run_call (Free p) w = obind (free p w) (\<lambda>w. Done (NULL, w))"
proof (cases "p = NULL")
  case True
  then show ?thesis by (simp add: run_call_def free_def free_body_def)
next
  case p: False
  let ?l = "w\<lparr>g_registry_lock := True\<rparr>"
  have 1: "run_alone (Free_lock p) w = run_alone (Free_remove p) ?l"
    using assms(1) by (intro run_alone_acquire) (simp_all add: mock_ready_def)
  have f: "run_alone (Call_free p) u = obind (real_free p u) (\<lambda>w. Done (NULL, w))" for u
    by (subst run_alone.simps) (cases "real_free p u"; simp)
  have un: "run_alone (Free_unlock p e) u = run_alone (Check (free_adds (e = None))
      (case e of None \<Rightarrow> Call_free p | Some (sz, _) \<Rightarrow> Count (live_removes sz) (Call_free p))) (ao_registry_unlock u)" for e u
    by (intro run_alone_step) simp_all
  show ?thesis
  proof (cases "ao_registry_remove_locked p (g_registry w)")
    case None
    have "run_alone (Free_remove p) ?l = run_alone (Free_unlock p None) ?l" using None by (intro run_alone_step) simp_all
    with 1 None p assms show ?thesis
      by (simp add: run_call_def free_def free_body_def un f mock_ready_def ao_ensure_real_functions_def pthread_once_def ao_registry_lock_def adds_sequential)
  next
    case (Some x)
    obtain sz aid reg where x: "x = ((sz, aid), reg)" by (metis surj_pair)
    have "run_alone (Free_remove p) ?l = run_alone (Free_unlock p (Some (sz, aid))) (?l\<lparr>g_registry := reg\<rparr>)"
      using Some x by (intro run_alone_step) simp_all
    with 1 Some x p assms show ?thesis
      by (simp add: run_call_def free_def free_body_def un f mock_ready_def ao_ensure_real_functions_def pthread_once_def ao_registry_lock_def adds_sequential)
  qed
qed

lemma real_realloc_lock: "real_realloc p n w = Done (q, w') \<Longrightarrow> g_registry_lock w' = g_registry_lock (w :: mock)"
  by (auto simp: real_realloc_def real_malloc_def split: list.splits option.splits if_splits)

lemma run_alone_call_realloc:
  "run_alone (Call_realloc p n entry) w = obind (real_realloc p n w) (\<lambda>(q, w). case entry of
      None \<Rightarrow> run_alone (if q = NULL \<and> n \<noteq> 0 then Check failed_adds (Return NULL) else Return q) w
    | Some e \<Rightarrow> run_alone (if q = NULL \<and> n \<noteq> 0 then Check (realloc_adds False) (Check failed_adds (Return NULL))
                 else Exchange_lock p q n e) w)"
  by (subst run_alone.simps) (cases "real_realloc p n w"; cases entry; auto)

lemma run_alone_exchange:
  assumes "\<not> g_registry_lock w"
  shows "run_alone (Exchange_lock p q n (old, aid)) w =
    obind (realloc_exchange p q n aid w) (\<lambda>w.
      let w = ao_record_realloc False w
      in Done (q, if q \<noteq> NULL then ao_live_update old n w else ao_live_remove old w))"
proof -
  let ?l = "w\<lparr>g_registry_lock := True\<rparr>"
  let ?r = "case ao_registry_remove_locked p (g_registry w) of None \<Rightarrow> ?l | Some (_, reg) \<Rightarrow> ?l\<lparr>g_registry := reg\<rparr>"
  have 1: "run_alone (Exchange_lock p q n (old, aid)) w = run_alone (Exchange p q n (old, aid)) ?l"
    using assms by (intro run_alone_acquire) simp_all
  have un: "run_alone (Exchange_unlock q n old b) u = (if b
      then run_alone (Check (realloc_adds False) (Count (if q \<noteq> NULL then live_update_adds old n else live_removes old) (Return q))) (ao_registry_unlock u)
      else Exit 127)" for b u
    by (subst run_alone.simps) simp
  have ex: "run_alone (Exchange p q n (old, aid)) ?l =
      (if q = NULL then run_alone (Exchange_unlock q n old True) ?r
       else case ao_registry_insert_locked q n aid (g_registry ?r) of
              None \<Rightarrow> run_alone (Exchange_unlock q n old False) ?r
            | Some reg \<Rightarrow> run_alone (Exchange_unlock q n old True) (?r\<lparr>g_registry := reg\<rparr>))"
    by (subst run_alone.simps) (auto simp: Let_def split: option.split)
  show ?thesis
    unfolding 1 ex un realloc_exchange_def
    using assms by (auto simp: ao_registry_lock_def Let_def ao_fatal_def adds_sequential split: option.split)
qed

lemma run_call_realloc:
  assumes "mock_ready w" "\<not> ao_bootstrap_contains p w"
  shows "run_call (Realloc p n) w = realloc p n w"
proof (cases "p = NULL")
  case True
  have "run_alone (Call_realloc_null n) w = obind (real_realloc NULL n w) (\<lambda>(p, w).
      run_alone (if p = NULL then Check failed_adds (Return NULL) else Track_lock 2 p n) w)"
    by (subst run_alone.simps) (cases "real_realloc NULL n w"; auto)
  moreover have "\<not> g_registry_lock w'" if "real_realloc NULL n w = Done (q, w')" for q w'
    using real_realloc_lock [OF that] assms(1) by (simp add: mock_ready_def)
  ultimately show ?thesis
    using True assms
    by (cases "real_realloc NULL n w")
      (auto simp: run_call_def realloc_def realloc_body_def mock_ready_def ao_ensure_real_functions_def pthread_once_def run_alone_track adds_sequential)
next
  case p: False
  let ?l = "w\<lparr>g_registry_lock := True\<rparr>"
  define e where "e = ao_registry_lookup_locked p (g_registry w)"
  have lk: "\<not> g_registry_lock w" using assms(1) by (simp add: mock_ready_def)
  have "run_alone (Realloc_lock p n) w = run_alone (Realloc_lookup p n) ?l"
    using lk by (intro run_alone_acquire) simp_all
  also have "\<dots> = run_alone (Realloc_unlock p n e) ?l" by (intro run_alone_step) (simp_all add: e_def)
  also have "\<dots> = run_alone (if e = None then Check (realloc_adds True) (Call_realloc p n None) else Call_realloc p n e) (ao_registry_unlock ?l)"
    by (intro run_alone_step) simp_all
  also have "ao_registry_unlock ?l = w" using lk by (cases w) (simp add: ao_registry_unlock_def)
  finally have run: "run_call (Realloc p n) w =
      run_alone (if e = None then Check (realloc_adds True) (Call_realloc p n None) else Call_realloc p n e) w"
    using p by (simp add: run_call_def)
  have look: "realloc_lookup p w = Done (e, w)"
    using lk by (cases w) (simp add: realloc_lookup_def ao_registry_lock_def ao_registry_unlock_def e_def)
  have seq: "realloc p n w = (case e of
      None \<Rightarrow> obind (real_realloc p n (ao_record_realloc True w)) (\<lambda>(new_ptr, w).
                Done (new_ptr, if new_ptr = NULL \<and> n \<noteq> 0 then ao_record_failed_allocation w else w))
    | Some (old_size, aid) \<Rightarrow> obind (real_realloc p n w) (\<lambda>(new_ptr, w).
                if new_ptr = NULL \<and> n \<noteq> 0
                then Done (NULL, ao_record_failed_allocation (ao_record_realloc False w))
                else obind (realloc_exchange p new_ptr n aid w) (\<lambda>w.
                  let w = ao_record_realloc False w
                  in Done (new_ptr, if new_ptr \<noteq> NULL then ao_live_update old_size n w
                                    else ao_live_remove old_size w))))"
    using assms p look by (simp add: realloc_def realloc_body_def mock_ready_def ao_ensure_real_functions_def pthread_once_def)
  show ?thesis
  proof (cases e)
    case None
    then show ?thesis unfolding run seq
      by (simp add: run_alone_call_realloc adds_sequential [symmetric])
        (cases "real_realloc p n (ao_record_realloc True w)"; auto simp: adds_sequential)
  next
    case (Some x)
    obtain old aid where x: "x = (old, aid)" by (cases x)
    have "run_alone (Call_realloc p n e) w = realloc p n w"
    proof (cases "real_realloc p n w")
      case (Done y)
      obtain q w' where y: "y = (q, w')" by (cases y)
      have "\<not> g_registry_lock w'" using real_realloc_lock Done y lk by simp
      then show ?thesis
        unfolding seq using Some x Done y
        by (simp add: run_alone_call_realloc run_alone_exchange adds_sequential cong: if_cong)
    qed (simp_all add: seq Some x run_alone_call_realloc)
    then show ?thesis unfolding run using Some by simp
  qed
qed

lemma run_call_is_tracked:
  assumes "mock_ready w"
  shows "run_call (Is_tracked p) w = obind (ao_mock_is_tracked_allocation p w) (\<lambda>(b, w). Done (if b then 1 else 0, w))"
proof (cases "p = NULL")
  case True
  then show ?thesis by (simp add: run_call_def ao_mock_is_tracked_allocation_def)
next
  case False
  let ?l = "w\<lparr>g_registry_lock := True\<rparr>"
  define e where "e \<longleftrightarrow> ao_registry_lookup_locked p (g_registry w) \<noteq> None"
  have lk: "\<not> g_registry_lock w" using assms(1) by (simp add: mock_ready_def)
  have "run_alone (Contains_lock p) w = run_alone (Contains_lookup p) ?l"
    using lk by (intro run_alone_acquire) simp_all
  also have "\<dots> = run_alone (Contains_unlock e) ?l" by (intro run_alone_step) (simp_all add: e_def)
  also have "\<dots> = run_alone (Answered e) (ao_registry_unlock ?l)" by (intro run_alone_step) simp_all
  finally show ?thesis
    using False lk
    by (simp add: run_call_def ao_mock_is_tracked_allocation_def ao_registry_contains_def ao_registry_lock_def e_def Let_def)
qed

lemma run_alone_Clear [simp]: "run_alone (Clear cs) w = Done (NULL, fold store_zero cs w)"
proof (induction cs arbitrary: w)
  case Nil
  show ?case by (subst run_alone.simps) simp
next
  case (Cons c cs)
  have "run_alone (Clear (c # cs)) w = run_alone (Clear cs) (store_zero c w)" by (intro run_alone_step) simp_all
  with Cons show ?case by simp
qed

lemma reset_stores: "fold store_zero reset_counters w = ao_mock_reset w"
  by (simp add: reset_counters_def store_zero_def ao_mock_reset_def)

lemma run_call_bridge:
  assumes "mock_ready w"
  shows "run_call (Bridge_free p) w = obind (ao_alloc_bridge_libc_free p w) (\<lambda>w. Done (NULL, w))"
    "run_call (Bridge_realloc_call p n) w = ao_alloc_bridge_libc_realloc p n w"
proof -
  have e: "ao_ensure_real_functions w = Done w" using assms by (simp add: mock_ready_def ao_ensure_real_functions_def pthread_once_def)
  have "run_alone (Call_free p) w = obind (real_free p w) (\<lambda>w. Done (NULL, w))"
    by (subst run_alone.simps) (cases "real_free p w"; simp)
  then show "run_call (Bridge_free p) w = obind (ao_alloc_bridge_libc_free p w) (\<lambda>w. Done (NULL, w))"
    using e by (simp add: run_call_def ao_alloc_bridge_libc_free_def)
  have "run_alone (Bridge_realloc p n) w = real_realloc p n w"
    by (subst run_alone.simps) (cases "real_realloc p n w"; auto)
  then show "run_call (Bridge_realloc_call p n) w = ao_alloc_bridge_libc_realloc p n w"
    using e by (simp add: run_call_def ao_alloc_bridge_libc_realloc_def)
qed

text \<open>A call that runs without interruption is the sequential one.\<close>

fun outside_bootstrap :: "api_call \<Rightarrow> mock \<Rightarrow> bool" where
  "outside_bootstrap (Realloc p n) w \<longleftrightarrow> \<not> ao_bootstrap_contains p w"
| "outside_bootstrap (Free p) w \<longleftrightarrow> \<not> ao_bootstrap_contains p w"
| "outside_bootstrap _ w \<longleftrightarrow> True"

lemma run_call_sequential:
  assumes "mock_ready w" "outside_bootstrap c w"
  shows "run_call c w = sequential_call c w"
proof (cases c)
  case End_capture
  have "run_alone End_sub w = Done (NULL, w\<lparr>g_capture_depth := g_capture_depth w - 1\<rparr>)"
    by (subst run_alone.simps) simp
  with End_capture show ?thesis by (simp add: run_call_def ao_mock_end_capture_def)
next
  case Begin_capture
  then show ?thesis by (simp add: run_call_def)
next
  case Reset
  then show ?thesis by (simp add: run_call_def reset_stores)
qed (use assms run_call_bridge [OF assms(1)] in \<open>simp_all add: run_call_malloc run_call_calloc run_call_realloc run_call_free run_call_is_tracked\<close>)

end
