(* ===== verification/Mock_Interleaving.thy ===== *)
theory Mock_Interleaving
  imports Mock_Threads
begin

text \<open>
  All interleavings of the calls of several threads: a system is a list of phases over one memory, a step of it
  a step of one of them, the begin of a call by a thread that is outside the library, a store of the
  program into a block of its own, or an allocation by libc itself. \<open>threads_safe\<close> holds in every state
  that is reached, and from each the calls can be run to their ends.
\<close>

section \<open>What a thread has in hand\<close>

text \<open>The block that only this thread may name, from the call to the return.\<close>

definition nonnull :: "ptr \<Rightarrow> ptr option" where
  "nonnull p = (if p = NULL then None else Some p)"

primrec hand :: "phase \<Rightarrow> ptr option" where
  "hand (Returned p) = None"
| "hand (Answered b) = None"
| "hand (Return p) = nonnull p"
| "hand Abort = None"
| "hand (Check adds k) = hand k"
| "hand (Count adds k) = hand k"
| "hand (Call_malloc n) = None"
| "hand (Call_calloc m n) = None"
| "hand (Call_realloc_null n) = None"
| "hand (Track_lock kind p n) = Some p"
| "hand (Track_insert kind p n) = Some p"
| "hand (Track_unlock kind p n inserted) = Some p"
| "hand (Free_lock p) = Some p"
| "hand (Free_remove p) = Some p"
| "hand (Free_unlock p entry) = Some p"
| "hand (Call_free p) = Some p"
| "hand (Realloc_lock p n) = Some p"
| "hand (Realloc_lookup p n) = Some p"
| "hand (Realloc_unlock p n entry) = Some p"
| "hand (Call_realloc p n entry) = Some p"
| "hand (Exchange_lock p q n e) = nonnull q"
| "hand (Exchange p q n e) = nonnull q"
| "hand (Exchange_unlock q n old inserted) = nonnull q"
| "hand (Contains_lock p) = None"
| "hand (Contains_lookup p) = None"
| "hand (Contains_unlock found) = None"
| "hand End_sub = None"
| "hand (Clear cs) = None"
| "hand (Bridge_realloc p n) = nonnull p"

text \<open>Inside a critical section.\<close>

fun holds :: "phase \<Rightarrow> bool" where
  "holds (Track_insert kind p n) = True"
| "holds (Track_unlock kind p n inserted) = True"
| "holds (Free_remove p) = True"
| "holds (Free_unlock p entry) = True"
| "holds (Realloc_lookup p n) = True"
| "holds (Realloc_unlock p n entry) = True"
| "holds (Exchange p q n e) = True"
| "holds (Exchange_unlock q n old inserted) = True"
| "holds (Contains_lookup p) = True"
| "holds (Contains_unlock found) = True"
| "holds _ = False"

text \<open>The address that an exchange removes was a block's.\<close>

fun key_ok :: "phase \<Rightarrow> bool" where
  "key_ok (Exchange_lock p q n e) \<longleftrightarrow> live_key p"
| "key_ok (Exchange p q n e) \<longleftrightarrow> live_key p"
| "key_ok (Check adds k) \<longleftrightarrow> \<not> holds k \<and> key_ok k"
| "key_ok (Count adds k) \<longleftrightarrow> \<not> holds k \<and> key_ok k"
| "key_ok _ \<longleftrightarrow> True"

section \<open>The system\<close>

type_synonym threads = "phase list \<times> mock"

text \<open>A block the program may name: no call of another thread has it in hand.\<close>

definition program_owns :: "phase list \<Rightarrow> mock \<Rightarrow> ptr \<Rightarrow> bool" where
  "program_owns ts w p \<longleftrightarrow> blocks w p \<noteq> None \<and> (\<forall>ph \<in> set ts. hand ph \<noteq> Some p)"

definition call_allowed :: "phase list \<Rightarrow> mock \<Rightarrow> api_call \<Rightarrow> bool" where
  "call_allowed ts w c \<longleftrightarrow>
     (case c of
        Free p \<Rightarrow> p = NULL \<or> program_owns ts w p
      | Realloc p n \<Rightarrow> p = NULL \<or> program_owns ts w p
      | Bridge_free p \<Rightarrow> p = NULL \<or> program_owns ts w p \<and> tracked w p = None
      | Bridge_realloc_call p n \<Rightarrow> p = NULL \<or> program_owns ts w p \<and> tracked w p = None
      | _ \<Rightarrow> True)"

text \<open>\<open>may\<close> restricts the calls the program makes.\<close>

inductive threads_step :: "(api_call \<Rightarrow> bool) \<Rightarrow> threads \<Rightarrow> threads \<Rightarrow> bool" for may where
  step_call: "i < length ts \<Longrightarrow> returned (ts ! i) \<noteq> None \<Longrightarrow> may c \<Longrightarrow> call_allowed ts w c \<Longrightarrow> call_start c w = (ph, w') \<Longrightarrow>
    threads_step may (ts, w) (ts[i := ph], w')"
| step_run: "i < length ts \<Longrightarrow> returned (ts ! i) = None \<Longrightarrow> thread_step (ts ! i) w = Done (ph, w') \<Longrightarrow>
    threads_step may (ts, w) (ts[i := ph], w')"
| step_program: "program_owns ts w p \<Longrightarrow> blocks w p = Some cs \<Longrightarrow> length cs' = length cs \<Longrightarrow>
    threads_step may (ts, w) (ts, w\<lparr>blocks := (blocks w)(p \<mapsto> cs')\<rparr>)"
| step_system: "real_malloc n w = (p, w') \<Longrightarrow> threads_step may (ts, w) (ts, w')"

inductive threads_reach :: "(api_call \<Rightarrow> bool) \<Rightarrow> threads \<Rightarrow> bool" for may where
  reach_start: "mock_reachable w \<Longrightarrow> threads_reach may (replicate n (Returned NULL), w)"
| reach_step: "threads_reach may s \<Longrightarrow> threads_step may s s' \<Longrightarrow> threads_reach may s'"

section \<open>Safety of every interleaving\<close>

definition lock_ok :: "phase list \<Rightarrow> mock \<Rightarrow> bool" where
  "lock_ok ts w \<longleftrightarrow> (g_registry_lock w \<longleftrightarrow> (\<exists>i < length ts. holds (ts ! i)))
     \<and> (\<forall>i < length ts. \<forall>j < length ts. holds (ts ! i) \<longrightarrow> holds (ts ! j) \<longrightarrow> i = j)"

definition hands_ok :: "phase list \<Rightarrow> mock \<Rightarrow> bool" where
  "hands_ok ts w \<longleftrightarrow> (\<forall>i < length ts. \<forall>p. hand (ts ! i) = Some p \<longrightarrow> blocks w p \<noteq> None)
     \<and> (\<forall>i < length ts. \<forall>j < length ts. \<forall>p. hand (ts ! i) = Some p \<longrightarrow> hand (ts ! j) = Some p \<longrightarrow> i = j)"

text \<open>Everything of \<open>mock_ready\<close> but the lock.\<close>

definition resolved_ok :: "mock \<Rightarrow> bool" where
  "resolved_ok w \<longleftrightarrow> mock_ready (w\<lparr>g_registry_lock := False\<rparr>) \<and> registry_ok (g_registry w) \<and> heap_ok w"

definition threads_safe :: "threads \<Rightarrow> bool" where
  "threads_safe s \<longleftrightarrow> (case s of (ts, w) \<Rightarrow>
     lock_ok ts w \<and> hands_ok ts w \<and> resolved_ok w \<and> list_all key_ok ts)"

text \<open>What one step of a thread does to the lock, to the heap and to its hand.\<close>

definition lock_effect :: "phase \<Rightarrow> mock \<Rightarrow> phase \<Rightarrow> mock \<Rightarrow> bool" where
  "lock_effect ph w ph' w' \<longleftrightarrow>
     holds ph' = holds ph \<and> g_registry_lock w' = g_registry_lock w
     \<or> \<not> g_registry_lock w \<and> \<not> holds ph \<and> holds ph' \<and> g_registry_lock w'
     \<or> holds ph \<and> \<not> holds ph' \<and> \<not> g_registry_lock w'"

definition hand_effect :: "phase \<Rightarrow> mock \<Rightarrow> phase \<Rightarrow> mock \<Rightarrow> bool" where
  "hand_effect ph w ph' w' \<longleftrightarrow>
     (\<forall>p. hand ph' = Some p \<longrightarrow> blocks w' p \<noteq> None \<and> (hand ph = Some p \<or> blocks w p = None))
     \<and> (\<forall>p. blocks w p \<noteq> None \<longrightarrow> hand ph \<noteq> Some p \<longrightarrow> blocks w' p = blocks w p)"

lemma lock_ok_step:
  assumes "lock_ok ts w" "i < length ts" "lock_effect (ts ! i) w ph w'"
  shows "lock_ok (ts[i := ph]) w'"
  using assms(3) unfolding lock_effect_def
proof (elim disjE conjE)
  assume "holds ph = holds (ts ! i)" "g_registry_lock w' = g_registry_lock w"
  then have "holds (ts[i := ph] ! j) = holds (ts ! j)" for j
    using assms(2) by (cases "i = j") simp_all
  with assms(1) show ?thesis by (simp add: lock_ok_def \<open>g_registry_lock w' = g_registry_lock w\<close>)
next
  assume a: "\<not> g_registry_lock w" "holds ph" "g_registry_lock w'"
  then have "\<not> holds (ts ! j)" if "j < length ts" for j using assms(1) that by (auto simp: lock_ok_def)
  with a assms(2) show ?thesis by (auto simp: lock_ok_def nth_list_update)
next
  assume a: "holds (ts ! i)" "\<not> holds ph" "\<not> g_registry_lock w'"
  then have "\<not> holds (ts ! j)" if "j < length ts" "j \<noteq> i" for j using assms(1,2) that by (auto simp: lock_ok_def)
  with a assms(2) show ?thesis by (auto simp: lock_ok_def nth_list_update)
qed

lemma hands_okD:
  assumes "hands_ok ts w" "j < length ts" "hand (ts ! j) = Some p"
  shows "blocks w p \<noteq> None" "i < length ts \<Longrightarrow> i \<noteq> j \<Longrightarrow> hand (ts ! i) \<noteq> Some p"
proof -
  note A = conjunct1 [OF assms(1) [unfolded hands_ok_def]] and B = conjunct2 [OF assms(1) [unfolded hands_ok_def]]
  show "blocks w p \<noteq> None" using A assms(2,3) by simp
  show "hand (ts ! i) \<noteq> Some p" if "i < length ts" "i \<noteq> j"
    using B [rule_format, OF that(1) assms(2), of p] assms(3) that(2) by auto
qed

lemma hands_ok_step:
  assumes ok: "hands_ok ts w" and i: "i < length ts" and e: "hand_effect (ts ! i) w ph w'"
  shows "hands_ok (ts[i := ph]) w'"
proof -
  have live: "blocks w' p \<noteq> None" if j: "j < length ts" "hand (ts[i := ph] ! j) = Some p" for j p
  proof (cases "j = i")
    case True
    with j i e show ?thesis by (simp add: hand_effect_def)
  next
    case False
    then have h: "hand (ts ! j) = Some p" using j by simp
    have b: "blocks w p \<noteq> None" by (rule hands_okD(1) [OF ok j(1) h])
    have "hand (ts ! i) \<noteq> Some p" using hands_okD(2) [OF ok j(1) h i] False by simp
    with b e show ?thesis by (simp add: hand_effect_def)
  qed
  have new: "hand ph \<noteq> Some p" if j: "j < length ts" "j \<noteq> i" "hand (ts ! j) = Some p" for j p
  proof
    assume "hand ph = Some p"
    then have "hand (ts ! i) = Some p \<or> blocks w p = None" using e by (simp add: hand_effect_def)
    moreover have "blocks w p \<noteq> None" by (rule hands_okD(1) [OF ok j(1,3)])
    moreover have "hand (ts ! i) \<noteq> Some p" using hands_okD(2) [OF ok j(1,3) i] j(2) by simp
    ultimately show False by simp
  qed
  have "j = k" if jk: "j < length ts" "k < length ts" "hand (ts[i := ph] ! j) = Some p" "hand (ts[i := ph] ! k) = Some p" for j k p
  proof (cases "j = i \<or> k = i")
    case True
    show ?thesis
    proof (rule ccontr)
      assume ne: "j \<noteq> k"
      show False
      proof (cases "j = i")
        case True
        then have "hand ph = Some p" "hand (ts ! k) = Some p" using jk ne i by auto
        with new [of k p] jk(2) ne True show False by simp
      next
        case False
        then have "hand ph = Some p" "hand (ts ! j) = Some p" using jk i \<open>j = i \<or> k = i\<close> by auto
        with new [of j p] jk(1) False show False by simp
      qed
    qed
  next
    case False
    then have "hand (ts ! j) = Some p" "hand (ts ! k) = Some p" using jk by auto
    then show ?thesis using hands_okD(2) [OF ok jk(2) _ jk(1), of p] by auto
  qed
  then show ?thesis unfolding hands_ok_def length_list_update using live by (intro conjI allI impI)
qed

definition safe_effect :: "phase \<Rightarrow> mock \<Rightarrow> phase \<Rightarrow> mock \<Rightarrow> bool" where
  "safe_effect ph w ph' w' \<longleftrightarrow> lock_effect ph w ph' w' \<and> hand_effect ph w ph' w' \<and> resolved_ok w' \<and> key_ok ph'"

lemma hand_effect_same:
  "blocks w' = blocks w \<Longrightarrow> hand ph' = hand ph \<or> hand ph' = None \<Longrightarrow> (\<And>p. hand ph = Some p \<Longrightarrow> blocks w p \<noteq> None) \<Longrightarrow>
   hand_effect ph w ph' w'"
  by (auto simp: hand_effect_def)

lemma hand_effect_new:
  "blocks w q = None \<Longrightarrow> blocks w' = (blocks w)(q \<mapsto> cs) \<Longrightarrow> hand ph' = Some q \<Longrightarrow> hand_effect ph w ph' w'"
  by (auto simp: hand_effect_def)

lemma resolved_ok_registry:
  "resolved_ok w \<Longrightarrow> registry_ok r \<Longrightarrow> resolved_ok (w\<lparr>g_registry := r\<rparr>)"
  by (simp add: resolved_ok_def mock_ready_def heap_ok_def)

lemma resolved_ok_simps [simp]:
  "resolved_ok (w\<lparr>g_registry_lock := b\<rparr>) = resolved_ok w" "resolved_ok (ao_registry_unlock w) = resolved_ok w"
  "resolved_ok (fetch_add c x w) = resolved_ok w" "resolved_ok (store_zero c w) = resolved_ok w"
  "resolved_ok (w\<lparr>g_capture_depth := d\<rparr>) = resolved_ok w"
  "resolved_ok (w\<lparr>g_next_allocation_id := a\<rparr>) = resolved_ok w" "resolved_ok (w\<lparr>errno := e\<rparr>) = resolved_ok w"
  by (simp_all add: resolved_ok_def mock_ready_def heap_ok_def ao_registry_unlock_def fetch_add_def store_zero_def)

lemma resolved_ok_libc:
  assumes "resolved_ok w" "libc.more w' = libc.more w" "static_base w' = static_base w"
    and "\<And>p. blocks w' p \<noteq> None \<Longrightarrow> blocks w p \<noteq> None \<or> live_key p \<and> \<not> in_static (static_base w) p"
  shows "resolved_ok w'"
proof -
  have "heap_ok w'" using assms(1,3,4) unfolding resolved_ok_def heap_ok_def by metis
  with assms(1) mock_more_eq [OF assms(2)] show ?thesis by (simp add: resolved_ok_def mock_ready_def)
qed

lemma resolved_live: "resolved_ok w \<Longrightarrow> blocks w p \<noteq> None \<Longrightarrow> live_key p"
  by (simp add: resolved_ok_def heap_ok_def)

lemma acquire_safe:
  assumes "resolved_ok w" "hand k = hand ph" "\<not> holds ph" "holds k" "key_ok ph" "key_ok k"
    "\<And>p. hand ph = Some p \<Longrightarrow> blocks w p \<noteq> None"
  shows "wp False (acquire ph k w) (\<lambda>(ph', w'). safe_effect ph w ph' w')"
  using assms by (auto simp: acquire_def safe_effect_def lock_effect_def hand_effect_def)

text \<open>The three ways to a new block.\<close>

lemma fresh_safe:
  assumes r: "resolved_ok w" and f: "fresh_block w q n" "blocks w' = (blocks w)(q \<mapsto> cs)" "static_base w' = static_base w"
      "libc.more w' = libc.more w"
    and ph: "\<not> holds ph" "\<not> holds ph'" "hand ph' = Some q" "key_ok ph'"
  shows "safe_effect ph w ph' w'"
proof -
  have "resolved_ok w'"
    using f fresh_blockD [OF f(1)] fresh_block_live [OF f(1)] by (intro resolved_ok_libc [OF r]) (auto split: if_splits)
  moreover have "hand_effect ph w ph' w'" using f fresh_blockD(3) [OF f(1)] ph(3) by (intro hand_effect_new)
  moreover have "lock_effect ph w ph' w'" using ph mock_more_eq(2) [OF f(4)] by (simp add: lock_effect_def)
  ultimately show ?thesis using ph(4) by (simp add: safe_effect_def)
qed

lemma quiet_safe:
  assumes r: "resolved_ok w" and f: "blocks w' = blocks w" "static_base w' = static_base w" "libc.more w' = libc.more w"
    and ph: "\<not> holds ph" "\<not> holds ph'" "hand ph' = None \<or> hand ph' = hand ph" "key_ok ph'"
    and h: "\<And>p. hand ph = Some p \<Longrightarrow> blocks w p \<noteq> None"
  shows "safe_effect ph w ph' w'"
proof -
  have "resolved_ok w'" using f by (intro resolved_ok_libc [OF r]) simp_all
  then show ?thesis
    using ph f mock_more_eq(2) [OF f(3)] hand_effect_same [of w' w ph' ph] h
    by (auto simp: safe_effect_def lock_effect_def)
qed

lemma real_malloc_safe:
  assumes "resolved_ok w" "hand ph = None" "\<not> holds ph"
  shows "case real_malloc n w of (p, w') \<Rightarrow>
    safe_effect ph w (if p = NULL then Check failed_adds (Return NULL) else Track_lock kind p n) w'"
proof (cases rule: real_malloc_cases [of n w])
  case (null w')
  have "safe_effect ph w (Check failed_adds (Return NULL)) w'"
    by (rule quiet_safe [OF assms(1) null(2,3,5)]) (use assms in \<open>simp_all add: nonnull_def\<close>)
  with null show ?thesis by simp
next
  case (block p w')
  then have "safe_effect ph w (Track_lock kind p n) w'"
    using assms by (intro fresh_safe [OF assms(1) block(2,3,4,6)]) simp_all
  with block fresh_blockD(1) [OF block(2)] show ?thesis by simp
qed

lemma real_calloc_safe:
  assumes "resolved_ok w" "hand ph = None" "\<not> holds ph"
  shows "case real_calloc m n w of (p, w') \<Rightarrow>
    safe_effect ph w (if p = NULL then Check failed_adds (Return NULL) else Track_lock kind p (m * n)) w'"
proof (cases "unat m * unat n < 2 ^ 64")
  case False
  then show ?thesis
    using quiet_safe [OF assms(1), of "w\<lparr>errno := ENOMEM\<rparr>" ph "Check failed_adds (Return NULL)"] assms
    by (simp add: real_calloc_def nonnull_def)
next
  case True
  show ?thesis
  proof (cases rule: real_malloc_cases [of "m * n" w])
    case (null w')
    have "safe_effect ph w (Check failed_adds (Return NULL)) w'"
      by (rule quiet_safe [OF assms(1) null(2,3,5)]) (use assms in \<open>simp_all add: nonnull_def\<close>)
    with null True show ?thesis by (simp add: real_calloc_def)
  next
    case (block p w')
    let ?w = "w'\<lparr>blocks := (blocks w')(p \<mapsto> replicate (unat (m * n)) (Some 0))\<rparr>"
    have "safe_effect ph w (Track_lock kind p (m * n)) ?w"
      using assms block by (intro fresh_safe [OF assms(1) block(2)]) simp_all
    with True block fresh_blockD(1) [OF block(2)] show ?thesis by (simp add: real_calloc_def)
  qed
qed

lemma registry_safe:
  assumes "resolved_ok w" "registry_ok r" "holds ph" "holds ph'" "hand ph' = hand ph" "key_ok ph'"
    "\<And>p. hand ph = Some p \<Longrightarrow> blocks w p \<noteq> None"
  shows "safe_effect ph w ph' (w\<lparr>g_registry := r\<rparr>)"
  using assms resolved_ok_registry by (auto simp: safe_effect_def lock_effect_def hand_effect_def)

lemma stay_safe:
  assumes "resolved_ok w'" "blocks w' = blocks w" "g_registry_lock w' = g_registry_lock w" "holds ph' = holds ph"
    "hand ph' = hand ph \<or> hand ph' = None" "key_ok ph'" "\<And>p. hand ph = Some p \<Longrightarrow> blocks w p \<noteq> None"
  shows "safe_effect ph w ph' w'"
  using assms hand_effect_same by (auto simp: safe_effect_def lock_effect_def)

lemma release_safe:
  assumes "resolved_ok w" "holds ph" "\<not> holds ph'" "hand ph' = hand ph \<or> hand ph' = None" "key_ok ph'"
    "\<And>p. hand ph = Some p \<Longrightarrow> blocks w p \<noteq> None"
  shows "safe_effect ph w ph' (ao_registry_unlock w)"
  using assms by (auto simp: safe_effect_def lock_effect_def hand_effect_def ao_registry_unlock_def)

lemma real_realloc_safe:
  assumes r: "resolved_ok w" and ph: "hand ph = Some p" "\<not> holds ph" and b: "blocks w p \<noteq> None"
    and ph': "\<not> holds (k NULL)" "hand (k NULL) = None" "key_ok (k NULL)"
      "\<And>q. q \<noteq> NULL \<Longrightarrow> \<not> holds (k q) \<and> hand (k q) = Some q \<and> key_ok (k q)"
  shows "wp False (real_realloc p n w) (\<lambda>(q, w'). safe_effect ph w (k q) w')"
proof -
  obtain cs where cs: "blocks w p = Some cs" using b by blast
  have "live_key p" by (rule resolved_live [OF r b])
  then have "p \<noteq> NULL" by (auto simp: live_key_def AO_REGISTRY_EMPTY_def)
  from this cs show ?thesis
  proof (cases rule: real_realloc_cases [where n = n])
    case (moved q w')
    have "\<not> in_static (static_base w) p" using r b by (simp add: resolved_ok_def heap_ok_def)
    then have q: "live_key q \<and> \<not> in_static (static_base w) q"
      using moved(3) \<open>live_key p\<close> fresh_block_live [of w q n] by (auto dest: fresh_blockD)
    have "resolved_ok w'"
      using moved q by (intro resolved_ok_libc [OF r]) (auto split: if_splits)
    moreover have "q = p \<or> blocks w q = None" using moved(3) by (auto dest: fresh_blockD)
    then have "hand_effect ph w (k q) w'"
      using moved ph'(4) [OF moved(2)] ph by (auto simp: hand_effect_def)
    moreover have "lock_effect ph w (k q) w'" using ph(2) ph'(4) [OF moved(2)] mock_more_eq(2) [OF moved(8)] by (simp add: lock_effect_def)
    ultimately show ?thesis using moved(1) ph'(4) [OF moved(2)] by (simp add: safe_effect_def)
  next
    case (failed w')
    have "safe_effect ph w (k NULL) w'"
      by (rule quiet_safe [OF r failed(3,4,6)]) (use ph ph' b in simp_all)
    with failed show ?thesis by simp
  next
    case (freed w')
    have "resolved_ok w'" using freed by (intro resolved_ok_libc [OF r]) (auto split: if_splits)
    moreover have "hand_effect ph w (k NULL) w'" using freed ph ph' by (auto simp: hand_effect_def)
    moreover have "lock_effect ph w (k NULL) w'" using ph(2) ph'(1) mock_more_eq(2) [OF freed(6)] by (simp add: lock_effect_def)
    ultimately show ?thesis using freed(1) ph' by (simp add: safe_effect_def)
  qed
qed

lemma thread_step_safe:
  assumes r: "resolved_ok w" and k: "key_ok ph" and h: "\<And>p. hand ph = Some p \<Longrightarrow> blocks w p \<noteq> None"
  shows "wp (ph = Abort) (thread_step ph w) (\<lambda>(ph', w'). safe_effect ph w ph' w')"
proof (cases ph)
  case (Check adds k')
  with assms show ?thesis by (auto intro!: stay_safe)
next
  case (Count adds k')
  with assms show ?thesis
    by (cases adds) (auto intro!: stay_safe simp: fetch_add_def [of _ _ w] simp del: resolved_ok_simps
      simp: resolved_ok_simps(3) [unfolded fetch_add_def])
next
  case (Call_malloc n)
  then show ?thesis using real_malloc_safe [where ph = ph and n = n and kind = 0, OF r] by (auto split: prod.splits)
next
  case (Call_calloc m n)
  have "safe_effect ph w (Check failed_adds (Return NULL)) (w\<lparr>errno := ENOMEM\<rparr>)"
    using r by (intro stay_safe) (simp_all add: Call_calloc nonnull_def)
  then show ?thesis using real_calloc_safe [where ph = ph and m = m and n = n and kind = 1, OF r] Call_calloc by (auto split: prod.splits)
next
  case (Call_realloc_null n)
  then show ?thesis using real_malloc_safe [where ph = ph and n = n and kind = 2, OF r] by (auto simp: real_realloc_def split: prod.splits)
next
  case (Track_insert kind p n)
  then have p: "live_key p" using h resolved_live [OF r] by simp
  have reg: "registry_ok (g_registry w)" using r by (simp add: resolved_ok_def)
  let ?u = "w\<lparr>g_next_allocation_id := g_next_allocation_id w + 1\<rparr>"
  show ?thesis
  proof (cases "ao_registry_insert_locked p n (g_next_allocation_id w) (g_registry w)")
    case None
    then show ?thesis
      using r h by (auto simp: Track_insert ao_next_allocation_id_def intro!: stay_safe)
  next
    case (Some r')
    then have "resolved_ok (?u\<lparr>g_registry := r'\<rparr>)"
      using reg.insrt_Some [OF reg p Some] r by (intro resolved_ok_registry) simp_all
    with Some h show ?thesis
      by (auto simp: Track_insert ao_next_allocation_id_def intro!: stay_safe)
  qed
next
  case (Free_remove p)
  then have p: "live_key p" using h resolved_live [OF r] by simp
  have reg: "registry_ok (g_registry w)" using r by (simp add: resolved_ok_def)
  then show ?thesis
    using r h reg.remov_Some [OF reg p] Free_remove
    by (auto split: option.splits intro!: stay_safe registry_safe)
next
  case (Call_free p)
  then have p: "blocks w p \<noteq> None" "p \<noteq> NULL" using h resolved_live [OF r] by (auto simp: live_key_def AO_REGISTRY_EMPTY_def)
  have "resolved_ok (w\<lparr>blocks := (blocks w)(p := None)\<rparr>)" by (rule resolved_ok_libc [OF r]) (auto split: if_splits)
  with p Call_free show ?thesis
    by (auto simp: real_free_def safe_effect_def lock_effect_def hand_effect_def nonnull_def)
next
  case (Call_realloc p n entry)
  then have b: "blocks w p \<noteq> None" and lp: "live_key p" using h resolved_live [OF r] by simp_all
  let ?k = "\<lambda>q. case entry of
      None \<Rightarrow> if q = NULL \<and> n \<noteq> 0 then Check failed_adds (Return NULL) else Return q
    | Some e \<Rightarrow> if q = NULL \<and> n \<noteq> 0 then Check (realloc_adds False) (Check failed_adds (Return NULL)) else Exchange_lock p q n e"
  have "wp False (real_realloc p n w) (\<lambda>(q, w'). safe_effect ph w (?k q) w')"
    by (rule real_realloc_safe [OF r _ _ b]) (auto simp: Call_realloc nonnull_def lp split: option.split)
  then show ?thesis
    by (cases "real_realloc p n w"; cases entry) (auto simp: Call_realloc)
next
  case (Exchange p q n e)
  have p: "live_key p" using k by (simp add: Exchange)
  have reg: "registry_ok (g_registry w)" using r by (simp add: resolved_ok_def)
  let ?u = "case ao_registry_remove_locked p (g_registry w) of None \<Rightarrow> w | Some (_, reg) \<Rightarrow> w\<lparr>g_registry := reg\<rparr>"
  have u: "resolved_ok ?u" "blocks ?u = blocks w" "g_registry_lock ?u = g_registry_lock w" "registry_ok (g_registry ?u)"
    using r reg reg.remov_Some [OF reg p] resolved_ok_registry by (auto split: option.splits)
  show ?thesis
  proof (cases "q = NULL")
    case True
    have "safe_effect ph w (Exchange_unlock q n (fst e) True) ?u"
      using u h by (intro stay_safe) (simp_all add: Exchange True nonnull_def)
    with True show ?thesis by (simp add: Exchange Let_def)
  next
    case False
    then have q: "live_key q" using h resolved_live [OF r] by (simp add: Exchange nonnull_def)
    show ?thesis
    proof (cases "ao_registry_insert_locked q n (snd e) (g_registry ?u)")
      case None
      have "safe_effect ph w (Exchange_unlock q n (fst e) False) ?u"
        using u h by (intro stay_safe) (simp_all add: Exchange nonnull_def)
      with False None show ?thesis by (simp add: Exchange Let_def)
    next
      case (Some r')
      have "resolved_ok (?u\<lparr>g_registry := r'\<rparr>)"
        using reg.insrt_Some [OF u(4) q Some] u(1) by (intro resolved_ok_registry) simp_all
      then have "safe_effect ph w (Exchange_unlock q n (fst e) True) (?u\<lparr>g_registry := r'\<rparr>)"
        using u h by (intro stay_safe) (simp_all add: Exchange nonnull_def)
      with False Some show ?thesis by (simp add: Exchange Let_def)
    qed
  qed
next
  case (Clear cs)
  have "blocks (store_zero c w) = blocks w" "g_registry_lock (store_zero c w) = g_registry_lock w" for c
    by (simp_all add: store_zero_def)
  with Clear r show ?thesis by (cases cs) (auto intro!: stay_safe)
next
  case (Bridge_realloc p n)
  show ?thesis
  proof (cases "p = NULL")
    case True
    have "case real_malloc n w of (q, w') \<Rightarrow> safe_effect ph w (Return q) w'"
    proof (cases rule: real_malloc_cases [of n w])
      case (null w')
      have "safe_effect ph w (Return NULL) w'"
        by (rule quiet_safe [OF r null(2,3,5)]) (simp_all add: Bridge_realloc True nonnull_def)
      with null show ?thesis by simp
    next
      case (block q w')
      have "safe_effect ph w (Return q) w'"
        using fresh_blockD(1) [OF block(2)]
        by (intro fresh_safe [OF r block(2,3,4,6)]) (simp_all add: Bridge_realloc nonnull_def)
      with block show ?thesis by simp
    qed
    with True Bridge_realloc show ?thesis by (simp add: real_realloc_def split: prod.splits)
  next
    case False
    then have "blocks w p \<noteq> None" using h by (simp add: Bridge_realloc nonnull_def)
    then have "wp False (real_realloc p n w) (\<lambda>(q, w'). safe_effect ph w (Return q) w')"
      by (intro real_realloc_safe [OF r]) (simp_all add: Bridge_realloc False nonnull_def)
    then show ?thesis by (cases "real_realloc p n w") (auto simp: Bridge_realloc)
  qed
qed (use assms in \<open>auto intro!: stay_safe acquire_safe [THEN wp_conseq] release_safe simp: nonnull_def split: option.splits if_splits\<close>)

lemma hands_ok_call:
  assumes ok: "hands_ok ts w" and i: "i < length ts" and b: "blocks w' = blocks w"
    and own: "\<And>p. hand ph = Some p \<Longrightarrow> program_owns ts w p"
  shows "hands_ok (ts[i := ph]) w'"
proof -
  note h = own [unfolded program_owns_def]
  have new: "hand (ts ! j) \<noteq> Some p" if "j < length ts" "hand ph = Some p" for j p
    using h [OF that(2)] nth_mem [OF that(1)] by blast
  have eq: "j = k" if jk: "j < length ts" "k < length ts" "hand (ts[i := ph] ! j) = Some p" "hand (ts[i := ph] ! k) = Some p" for j k p
  proof -
    consider "j = k" | "j \<noteq> k" "j \<noteq> i" "k \<noteq> i" | "j = i" "k \<noteq> i" | "k = i" "j \<noteq> i" by blast
    then show ?thesis
    proof cases
      case 2
      then have "hand (ts ! j) = Some p" "hand (ts ! k) = Some p" using jk by simp_all
      with hands_okD(2) [OF ok jk(2) _ jk(1), of p] show ?thesis by blast
    qed (use jk new [of k p] new [of j p] i in simp_all)
  qed
  have "blocks w p \<noteq> None" if "j < length ts" "hand (ts[i := ph] ! j) = Some p" for j p
    using that h [of p] hands_okD(1) [OF ok that(1), of p] i by (cases "j = i") simp_all
  then show ?thesis unfolding hands_ok_def length_list_update b using eq by (intro conjI allI impI)
qed

lemma returned_hand: "returned ph \<noteq> None \<Longrightarrow> hand ph = None \<and> \<not> holds ph \<and> steps_left ph = 0"
  by (cases ph) simp_all

lemma call_start_effect:
  assumes "call_start c w = (ph, w')" "call_allowed ts w c"
  shows "blocks w' = blocks w" "g_registry_lock w' = g_registry_lock w" "resolved_ok w' = resolved_ok w" "\<not> holds ph" "key_ok ph"
    "hand ph = Some p \<Longrightarrow> program_owns ts w p"
  using assms
  by (cases c; auto simp: ao_mock_begin_capture_def call_allowed_def nonnull_def split: if_splits)+

lemma real_malloc_grows:
  fixes w :: mock
  assumes "real_malloc n w = (p, w')"
  shows "libc.more w' = libc.more w" "static_base w' = static_base w"
    "\<And>q. blocks w q \<noteq> None \<Longrightarrow> blocks w' q = blocks w q"
    "\<And>q. blocks w' q \<noteq> None \<Longrightarrow> blocks w q \<noteq> None \<or> live_key q \<and> \<not> in_static (static_base w) q"
proof -
  have 1: "libc.more w' = libc.more w \<and> static_base w' = static_base w
    \<and> (blocks w' = blocks w \<or> (\<exists>p cs. blocks w' = (blocks w)(p \<mapsto> cs) \<and> fresh_block w p n))"
    by (cases rule: real_malloc_cases [of n w]) (use assms in auto)
  then consider "blocks w' = blocks w" | p cs where "blocks w' = (blocks w)(p \<mapsto> cs)" "fresh_block w p n" by blast
  then have "(blocks w q \<noteq> None \<longrightarrow> blocks w' q = blocks w q)
    \<and> (blocks w' q \<noteq> None \<longrightarrow> blocks w q \<noteq> None \<or> live_key q \<and> \<not> in_static (static_base w) q)" for q
  proof cases
    case (2 p cs)
    with fresh_blockD(3,4) [OF 2(2)] fresh_block_live [OF 2(2)] show ?thesis by (cases "q = p") simp_all
  qed simp
  with 1 show "libc.more w' = libc.more w" "static_base w' = static_base w"
    "\<And>q. blocks w q \<noteq> None \<Longrightarrow> blocks w' q = blocks w q"
    "\<And>q. blocks w' q \<noteq> None \<Longrightarrow> blocks w q \<noteq> None \<or> live_key q \<and> \<not> in_static (static_base w) q"
    by simp_all
qed

lemma threads_step_safe:
  assumes "threads_step may s s'" "threads_safe s"
  shows "threads_safe s'"
  using assms
proof (induction rule: threads_step.induct)
  case (step_call i ts c w ph w')
  then have safe: "lock_ok ts w" "hands_ok ts w" "resolved_ok w" "list_all key_ok ts" by (simp_all add: threads_safe_def)
  note e = call_start_effect [OF step_call.hyps(5,4)]
  have "lock_effect (ts ! i) w ph w'" using e(2,4) returned_hand [OF step_call.hyps(2)] by (simp add: lock_effect_def)
  then have "lock_ok (ts[i := ph]) w'" by (rule lock_ok_step [OF safe(1) step_call.hyps(1)])
  moreover have "hands_ok (ts[i := ph]) w'" by (rule hands_ok_call [OF safe(2) step_call.hyps(1) e(1,6)])
  moreover have "list_all key_ok (ts[i := ph])"
    using safe(4) e(5) by (auto simp: list_all_iff dest: set_update_subset_insert [THEN subsetD])
  ultimately show ?case using safe(3) e(3) by (simp add: threads_safe_def)
next
  case (step_run i ts w ph w')
  then have safe: "lock_ok ts w" "hands_ok ts w" "resolved_ok w" "list_all key_ok ts" by (simp_all add: threads_safe_def)
  have "safe_effect (ts ! i) w ph w'"
    using thread_step_safe [OF safe(3), of "ts ! i"] step_run.hyps safe(4) hands_okD(1) [OF safe(2)]
    by (simp add: list_all_length)
  then have e: "lock_effect (ts ! i) w ph w'" "hand_effect (ts ! i) w ph w'" "resolved_ok w'" "key_ok ph"
    by (simp_all add: safe_effect_def)
  have "list_all key_ok (ts[i := ph])"
    using safe(4) e(4) by (auto simp: list_all_iff dest: set_update_subset_insert [THEN subsetD])
  then show ?case
    using lock_ok_step [OF safe(1) step_run.hyps(1) e(1)] hands_ok_step [OF safe(2) step_run.hyps(1) e(2)] e(3)
    by (simp add: threads_safe_def)
next
  case (step_program ts w p cs cs')
  have "heap_ok (w\<lparr>blocks := (blocks w)(p \<mapsto> cs')\<rparr>)" if "heap_ok w"
    using that step_program.hyps(2) by (auto simp: heap_ok_def)
  then show ?case
    using step_program by (simp add: threads_safe_def resolved_ok_def lock_ok_def hands_ok_def mock_ready_def)
next
  case (step_system n w p w' ts)
  note e = real_malloc_grows [OF step_system.hyps]
  have s: "lock_ok ts w" "hands_ok ts w" "resolved_ok w" "list_all key_ok ts"
    using step_system.prems by (simp_all add: threads_safe_def)
  have "resolved_ok w'" by (rule resolved_ok_libc [OF s(3) e(1,2,4)])
  moreover have "hands_ok ts w'" using s(2) e(3) unfolding hands_ok_def by simp
  moreover have "lock_ok ts w'" using s(1) mock_more_eq(2) [OF e(1)] unfolding lock_ok_def by simp
  ultimately show ?case using s(4) by (simp add: threads_safe_def)
qed

lemma threads_start_safe:
  assumes "mock_inv w"
  shows "threads_safe (replicate n (Returned NULL), w)"
  using assms by (simp add: threads_safe_def lock_ok_def hands_ok_def resolved_ok_def mock_inv_def mock_ready_def
      list_all_iff)

lemma threads_reach_safe: "threads_reach may s \<Longrightarrow> threads_safe s"
proof (induction rule: threads_reach.induct)
  case (reach_start w n)
  then show ?case by (intro threads_start_safe mock_reachable_inv)
qed (rule threads_step_safe)

section \<open>Progress\<close>

text \<open>Only a thread at the lock can fail to move on, and only while another holds it.\<close>

fun at_lock :: "phase \<Rightarrow> bool" where
  "at_lock (Track_lock kind p n) = True"
| "at_lock (Free_lock p) = True"
| "at_lock (Realloc_lock p n) = True"
| "at_lock (Exchange_lock p q n e) = True"
| "at_lock (Contains_lock p) = True"
| "at_lock _ = False"

lemma thread_step_moves:
  assumes "thread_step ph w = Done (ph', w')" "returned ph = None" "at_lock ph \<Longrightarrow> \<not> g_registry_lock w"
  shows "steps_left ph' < steps_left ph"
proof -
  have "ph' \<noteq> ph"
    using assms
    by (cases "(ph, w)" rule: thread_step.cases)
      (auto simp: acquire_def obind_eq_Done Let_def split: prod.splits option.splits if_splits)
  with thread_step_left [OF assms(1)] show ?thesis by blast
qed

lemma holds_moves: "holds ph \<Longrightarrow> \<not> at_lock ph \<and> returned ph = None"
  by (cases ph) simp_all

lemma threads_progress:
  assumes safe: "threads_safe (ts, w)" and i: "i < length ts" "returned (ts ! i) = None"
  shows "Abort \<in> set ts \<or> (\<exists>j ph w'. j < length ts \<and> returned (ts ! j) = None \<and> thread_step (ts ! j) w = Done (ph, w')
    \<and> steps_left ph < steps_left (ts ! j))"
proof -
  have s: "lock_ok ts w" "hands_ok ts w" "resolved_ok w" "list_all key_ok ts" using safe by (simp_all add: threads_safe_def)
  have run: "Abort \<in> set ts \<or> (\<exists>ph w'. thread_step (ts ! j) w = Done (ph, w') \<and> steps_left ph < steps_left (ts ! j))"
    if j: "j < length ts" "returned (ts ! j) = None" "at_lock (ts ! j) \<Longrightarrow> \<not> g_registry_lock w" for j
  proof (cases "ts ! j = Abort")
    case True
    then show ?thesis using j(1) by (metis nth_mem)
  next
    case False
    have "wp (ts ! j = Abort) (thread_step (ts ! j) w) (\<lambda>(ph, w'). safe_effect (ts ! j) w ph w')"
      using s(4) j(1) hands_okD(1) [OF s(2) j(1)] by (intro thread_step_safe [OF s(3)]) (simp_all add: list_all_length)
    then obtain ph w' where "thread_step (ts ! j) w = Done (ph, w')"
      using wp_Done_cases False by fastforce
    with thread_step_moves [OF this j(2,3)] show ?thesis by blast
  qed
  show ?thesis
  proof (cases "g_registry_lock w")
    case True
    then obtain j where j: "j < length ts" "holds (ts ! j)" using s(1) by (auto simp: lock_ok_def)
    with holds_moves [OF j(2)] run [of j] show ?thesis by blast
  next
    case False
    with run [OF i] i show ?thesis by blast
  qed
qed

lemma sum_list_update_less:
  "i < length xs \<Longrightarrow> x < xs ! i \<Longrightarrow> sum_list (xs[i := x]) < sum_list (xs :: nat list)"
proof (induction xs arbitrary: i)
  case (Cons y ys)
  then show ?case by (cases i) simp_all
qed simp

lemma threads_finish:
  assumes "threads_safe (ts, w)"
  shows "\<exists>ts' w'. (threads_step may)\<^sup>*\<^sup>* (ts, w) (ts', w') \<and> ((\<forall>ph \<in> set ts'. returned ph \<noteq> None) \<or> Abort \<in> set ts')"
  using assms
proof (induction "sum_list (map steps_left ts)" arbitrary: ts w rule: less_induct)
  case less
  show ?case
  proof (cases "(\<forall>ph \<in> set ts. returned ph \<noteq> None) \<or> Abort \<in> set ts")
    case True
    then show ?thesis by blast
  next
    case False
    then obtain i where "i < length ts" "returned (ts ! i) = None" by (auto simp: in_set_conv_nth)
    with threads_progress [OF less.prems] False obtain j ph w' where
        j: "j < length ts" "returned (ts ! j) = None" "thread_step (ts ! j) w = Done (ph, w')" "steps_left ph < steps_left (ts ! j)"
      by blast
    have step: "threads_step may (ts, w) (ts[j := ph], w')" by (rule step_run [OF j(1-3)])
    have "sum_list (map steps_left (ts[j := ph])) < sum_list (map steps_left ts)"
      using j by (simp add: map_update sum_list_update_less)
    from less.hyps [OF this threads_step_safe [OF step less.prems]] step show ?thesis
      by (meson converse_rtranclp_into_rtranclp)
  qed
qed

end
