(* ===== verification/Mock_Accounting.thy ===== *)
theory Mock_Accounting
  imports Mock_Interleaving
begin

text \<open>
  Exact accounting under concurrency: as long as no thread calls \<open>realloc\<close> on a block, the live counters differ
  from what the registry holds by exactly the additions that threads still have to make, and when all
  threads are outside the library they are exact.
\<close>

section \<open>What a thread still owes\<close>

definition adds_of :: "counter \<Rightarrow> additions \<Rightarrow> 64 word" where
  "adds_of c adds = sum_list (map (\<lambda>(d, x). if d = c then x else 0) adds)"

primrec due :: "counter \<Rightarrow> phase \<Rightarrow> 64 word" where
  "due c (Returned p) = 0"
| "due c (Answered b) = 0"
| "due c (Return p) = 0"
| "due c Abort = 0"
| "due c (Check adds k) = due c k"
| "due c (Count adds k) = adds_of c adds + due c k"
| "due c (Call_malloc n) = 0"
| "due c (Call_calloc m n) = 0"
| "due c (Call_realloc_null n) = 0"
| "due c (Track_lock kind p n) = 0"
| "due c (Track_insert kind p n) = 0"
| "due c (Track_unlock kind p n inserted) = (if inserted then adds_of c (live_adds n) else 0)"
| "due c (Free_lock p) = 0"
| "due c (Free_remove p) = 0"
| "due c (Free_unlock p entry) = (case entry of None \<Rightarrow> 0 | Some (sz, _) \<Rightarrow> adds_of c (live_removes sz))"
| "due c (Call_free p) = 0"
| "due c (Realloc_lock p n) = 0"
| "due c (Realloc_lookup p n) = 0"
| "due c (Realloc_unlock p n entry) = 0"
| "due c (Call_realloc p n entry) = 0"
| "due c (Exchange_lock p q n e) = 0"
| "due c (Exchange p q n e) = 0"
| "due c (Exchange_unlock q n old inserted) = 0"
| "due c (Contains_lock p) = 0"
| "due c (Contains_lookup p) = 0"
| "due c (Contains_unlock found) = 0"
| "due c End_sub = 0"
| "due c (Clear cs) = 0"
| "due c (Bridge_realloc p n) = 0"

text \<open>The block in hand is not in the registry: not yet, or no more.\<close>

fun bare :: "phase \<Rightarrow> bool" where
  "bare (Track_lock kind p n) = True"
| "bare (Track_insert kind p n) = True"
| "bare (Track_unlock kind p n inserted) = (\<not> inserted)"
| "bare (Free_unlock p entry) = True"
| "bare (Call_free p) = True"
| "bare (Bridge_realloc p n) = True"
| "bare (Check adds k) = bare k"
| "bare (Count adds k) = bare k"
| "bare _ = False"

text \<open>Not in \<open>realloc\<close> of a block; only call counters are checked for or cleared.\<close>

fun plain :: "phase \<Rightarrow> bool" where
  "plain (Check adds k) \<longleftrightarrow> adds_of Live_blocks adds = 0 \<and> adds_of Live_bytes adds = 0 \<and> plain k"
| "plain (Count adds k) \<longleftrightarrow> plain k"
| "plain (Clear cs) \<longleftrightarrow> Live_blocks \<notin> set cs \<and> Live_bytes \<notin> set cs"
| "plain (Realloc_lock p n) \<longleftrightarrow> False"
| "plain (Realloc_lookup p n) \<longleftrightarrow> False"
| "plain (Realloc_unlock p n entry) \<longleftrightarrow> False"
| "plain (Call_realloc p n entry) \<longleftrightarrow> False"
| "plain (Exchange_lock p q n e) \<longleftrightarrow> False"
| "plain (Exchange p q n e) \<longleftrightarrow> False"
| "plain (Exchange_unlock q n old inserted) \<longleftrightarrow> False"
| "plain _ \<longleftrightarrow> True"

definition block_size :: "mock \<Rightarrow> ptr \<Rightarrow> size_t \<Rightarrow> bool" where
  "block_size w p n \<longleftrightarrow> (\<exists>cs. blocks w p = Some cs \<and> length cs = unat n)"

fun size_ok :: "phase \<Rightarrow> mock \<Rightarrow> bool" where
  "size_ok (Track_lock kind p n) w \<longleftrightarrow> block_size w p n"
| "size_ok (Track_insert kind p n) w \<longleftrightarrow> block_size w p n"
| "size_ok (Check adds k) w \<longleftrightarrow> size_ok k w"
| "size_ok (Count adds k) w \<longleftrightarrow> size_ok k w"
| "size_ok _ w \<longleftrightarrow> True"

definition owed :: "counter \<Rightarrow> phase list \<Rightarrow> 64 word" where
  "owed c ts = sum_list (map (due c) ts)"

definition threads_exact :: "threads \<Rightarrow> bool" where
  "threads_exact s \<longleftrightarrow> (case s of (ts, w) \<Rightarrow>
     list_all plain ts \<and> tracking_ok w
     \<and> (\<forall>i < length ts. size_ok (ts ! i) w \<and> (\<forall>p. bare (ts ! i) \<longrightarrow> hand (ts ! i) = Some p \<longrightarrow> tracked w p = None))
     \<and> live_blocks (g_stats w) + owed Live_blocks ts = of_nat (card (dom (tracked w)))
     \<and> live_bytes (g_stats w) + owed Live_bytes ts = total_size (tracked w))"

text \<open>Calls that are not \<open>realloc\<close> of a block.\<close>

definition no_realloc :: "api_call \<Rightarrow> bool" where
  "no_realloc c \<longleftrightarrow> (case c of Realloc p n \<Rightarrow> p = NULL | _ \<Rightarrow> True)"

lemma adds_of_simps [simp]:
  "adds_of c [] = 0" "adds_of c ((d, x) # adds) = (if d = c then x else 0) + adds_of c adds"
  by (simp_all add: adds_of_def)

lemma sum_list_update_group:
  fixes xs :: "'a::ab_group_add list"
  shows "i < length xs \<Longrightarrow> sum_list (xs[i := x]) = sum_list xs + x - xs ! i"
proof (induction xs arbitrary: i)
  case (Cons y ys)
  then show ?case by (cases i) (simp_all add: algebra_simps)
qed simp

lemma owed_update: "i < length ts \<Longrightarrow> owed c (ts[i := ph]) = owed c ts + due c ph - due c (ts ! i)"
  by (simp add: owed_def map_update sum_list_update_group)

section \<open>One step of one thread\<close>

text \<open>What the counter shows of the registry, with what the thread owes.\<close>

definition balance_blocks :: "phase \<Rightarrow> mock \<Rightarrow> 64 word" where
  "balance_blocks ph w = live_blocks (g_stats w) + due Live_blocks ph - of_nat (card (dom (tracked w)))"

definition balance_bytes :: "phase \<Rightarrow> mock \<Rightarrow> 64 word" where
  "balance_bytes ph w = live_bytes (g_stats w) + due Live_bytes ph - total_size (tracked w)"

definition exact_effect :: "phase \<Rightarrow> mock \<Rightarrow> phase \<Rightarrow> mock \<Rightarrow> bool" where
  "exact_effect ph w ph' w' \<longleftrightarrow> plain ph' \<and> tracking_ok w' \<and> size_ok ph' w'
     \<and> (\<forall>p. bare ph' \<longrightarrow> hand ph' = Some p \<longrightarrow> tracked w' p = None)
     \<and> (\<forall>p. hand ph \<noteq> Some p \<longrightarrow> tracked w' p = tracked w p)
     \<and> balance_blocks ph' w' = balance_blocks ph w \<and> balance_bytes ph' w' = balance_bytes ph w"

lemma tracked_simps [simp]:
  "tracked (w\<lparr>g_registry_lock := b\<rparr>) = tracked w" "tracked (ao_registry_unlock w) = tracked w"
  "tracked (fetch_add c x w) = tracked w" "tracked (w\<lparr>g_capture_depth := d\<rparr>) = tracked w"
  "tracked (w\<lparr>g_next_allocation_id := a\<rparr>) = tracked w" "tracked (w\<lparr>errno := e\<rparr>) = tracked w"
  "tracked (w\<lparr>blocks := bs\<rparr>) = tracked w"
  by (simp_all add: tracked_def ao_registry_unlock_def fetch_add_def)

lemma counter_add_live [simp]:
  "live_blocks (counter_add c x st) = live_blocks st + (if c = Live_blocks then x else 0)"
  "live_bytes (counter_add c x st) = live_bytes st + (if c = Live_bytes then x else 0)"
  by (cases c; simp)+

lemma counter_store_live [simp]:
  "Live_blocks \<noteq> c \<Longrightarrow> live_blocks (counter_store c x st) = live_blocks st"
  "Live_bytes \<noteq> c \<Longrightarrow> live_bytes (counter_store c x st) = live_bytes st"
  by (cases c; simp)+

lemma tracking_ok_same: "blocks w' = blocks w \<Longrightarrow> tracked w' = tracked w \<Longrightarrow> tracking_ok w' = tracking_ok w"
  by (simp add: tracking_ok_def)

lemma size_ok_same:
  "(\<And>p. hand ph = Some p \<Longrightarrow> blocks w' p = blocks w p) \<Longrightarrow> size_ok ph w' = size_ok ph w"
  by (induction ph) (simp_all add: block_size_def)

lemma adds_of_live:
  "adds_of Live_blocks failed_adds = 0" "adds_of Live_bytes failed_adds = 0"
  "adds_of Live_blocks (successful_adds kind n) = 0" "adds_of Live_bytes (successful_adds kind n) = 0"
  "adds_of Live_blocks (free_adds b) = 0" "adds_of Live_bytes (free_adds b) = 0"
  "adds_of Live_blocks (live_adds n) = 1" "adds_of Live_bytes (live_adds n) = n"
  "adds_of Live_blocks (live_removes n) = - 1" "adds_of Live_bytes (live_removes n) = - n"
  by (simp_all add: adds_defs)

text \<open>A step that leaves heap and registry alone.\<close>

lemma exact_quiet:
  assumes "tracking_ok w" "blocks w' = blocks w" "tracked w' = tracked w" "plain ph'" "size_ok ph' w"
    and "\<And>p. bare ph' \<Longrightarrow> hand ph' = Some p \<Longrightarrow> tracked w p = None"
    and "live_blocks (g_stats w') + due Live_blocks ph' = live_blocks (g_stats w) + due Live_blocks ph"
    and "live_bytes (g_stats w') + due Live_bytes ph' = live_bytes (g_stats w) + due Live_bytes ph"
  shows "exact_effect ph w ph' w'"
  using assms size_ok_same [of ph' w' w] tracking_ok_same [OF assms(2,3)]
  by (auto simp: exact_effect_def balance_blocks_def balance_bytes_def)

lemma tracking_okD:
  "tracking_ok w \<Longrightarrow> tracked w p = Some (sz, aid) \<Longrightarrow> \<exists>cs. blocks w p = Some cs \<and> length cs = unat sz"
  by (auto simp: tracking_ok_def)

lemma tracked_live: "tracking_ok w \<Longrightarrow> blocks w p = None \<Longrightarrow> tracked w p = None"
  unfolding tracking_ok_def by (cases "tracked w p") force+

text \<open>A new block of the system allocator, to be tracked.\<close>

lemma exact_fresh:
  assumes t: "tracking_ok w" and f: "blocks w p = None" "blocks w' = (blocks w)(p \<mapsto> cs)" "length cs = unat n"
    and m: "libc.more w' = libc.more w" and ph: "due Live_blocks ph = 0" "due Live_bytes ph = 0"
  shows "exact_effect ph w (Track_lock kind p n) w'"
proof -
  note e = mock_more_eq [OF m]
  have "tracked w p = None" by (rule tracked_live [OF t f(1)])
  then have "tracking_ok w'" using t unfolding tracking_ok_def e f(2) by auto
  then show ?thesis
    using f ph \<open>tracked w p = None\<close> e by (simp add: exact_effect_def balance_blocks_def balance_bytes_def block_size_def)
qed

lemma exact_malloc:
  assumes t: "tracking_ok w" and ph: "due Live_blocks ph = 0" "due Live_bytes ph = 0"
  shows "case real_malloc n w of (p, w') \<Rightarrow>
    exact_effect ph w (if p = NULL then Check failed_adds (Return NULL) else Track_lock kind p n) w'"
proof (cases rule: real_malloc_cases [of n w])
  case (null w')
  have "exact_effect ph w (Check failed_adds (Return NULL)) w'"
    using null ph mock_more_eq [OF null(5)] by (intro exact_quiet [OF t]) (simp_all add: adds_of_live)
  with null show ?thesis by simp
next
  case (block p w')
  have "exact_effect ph w (Track_lock kind p n) w'"
    by (rule exact_fresh [OF t fresh_blockD(3) [OF block(2)] block(3) length_replicate block(6) ph])
  with block fresh_blockD(1) [OF block(2)] show ?thesis by simp
qed

lemma exact_calloc:
  assumes t: "tracking_ok w" and ph: "due Live_blocks ph = 0" "due Live_bytes ph = 0"
  shows "case real_calloc m n w of (p, w') \<Rightarrow>
    exact_effect ph w (if p = NULL then Check failed_adds (Return NULL) else Track_lock kind p (m * n)) w'"
proof (cases "unat m * unat n < 2 ^ 64")
  case False
  have "exact_effect ph w (Check failed_adds (Return NULL)) (w\<lparr>errno := ENOMEM\<rparr>)"
    using ph by (intro exact_quiet [OF t]) (simp_all add: adds_of_live)
  with False show ?thesis by (simp add: real_calloc_def)
next
  case True
  show ?thesis
  proof (cases rule: real_malloc_cases [of "m * n" w])
    case (null w')
    have "exact_effect ph w (Check failed_adds (Return NULL)) w'"
      using null ph mock_more_eq [OF null(5)] by (intro exact_quiet [OF t]) (simp_all add: adds_of_live)
    with null True show ?thesis by (simp add: real_calloc_def)
  next
    case (block p w')
    let ?w = "w'\<lparr>blocks := (blocks w')(p \<mapsto> replicate (unat (m * n)) (Some 0))\<rparr>"
    have "exact_effect ph w (Track_lock kind p (m * n)) ?w"
      by (rule exact_fresh [OF t fresh_blockD(3) [OF block(2)] _ length_replicate _ ph]) (simp_all add: block)
    with True block fresh_blockD(1) [OF block(2)] show ?thesis by (simp add: real_calloc_def)
  qed
qed

lemma thread_step_exact:
  assumes r: "resolved_ok w" and t: "tracking_ok w" and pl: "plain ph" and sz: "size_ok ph w"
    and b: "\<And>p. bare ph \<Longrightarrow> hand ph = Some p \<Longrightarrow> tracked w p = None"
    and h: "\<And>p. hand ph = Some p \<Longrightarrow> blocks w p \<noteq> None" and x: "thread_step ph w = Done (ph', w')"
  shows "exact_effect ph w ph' w'"
proof (cases ph)
  case (Check adds k)
  then have "w' = w" "ph' = (if ao_capture_enabled w then Count adds k else k)" using x by auto
  with Check pl sz b show ?thesis by (intro exact_quiet [OF t]) (simp_all split: if_splits)
next
  case (Count adds k)
  show ?thesis
  proof (cases adds)
    case Nil
    then have "w' = w" "ph' = k" using x Count by auto
    with Count Nil pl sz b show ?thesis by (intro exact_quiet [OF t]) simp_all
  next
    case (Cons a adds')
    obtain c y where a: "a = (c, y)" by (cases a)
    have "ph' = Count adds' k" "w' = fetch_add c y w" using x Count Cons a by simp_all
    then show ?thesis
      using Count Cons a pl sz b by (auto intro!: exact_quiet [OF t] simp: fetch_add_def tracked_def)
  qed
next
  case (Call_malloc n)
  then show ?thesis using x exact_malloc [where ph = ph and n = n and kind = 0, OF t] by (auto split: prod.splits)
next
  case (Call_calloc m n)
  show ?thesis
  proof (cases "m \<noteq> 0 \<and> SIZE_MAX div m < n")
    case True
    with x [symmetric] Call_calloc show ?thesis by (auto intro!: exact_quiet [OF t] simp: adds_of_live)
  next
    case False
    then have "(case real_calloc m n w of (p, w) \<Rightarrow>
        Done (if p = NULL then Check failed_adds (Return NULL) else Track_lock 1 p (m * n), w)) = Done (ph', w')"
      using x Call_calloc by (simp only: thread_step.simps if_not_P [OF False] if_False)
    then show ?thesis
      using exact_calloc [where ph = ph and m = m and n = n and kind = 1, OF t] Call_calloc by (auto split: prod.splits)
  qed
next
  case (Call_realloc_null n)
  then show ?thesis using x exact_malloc [where ph = ph and n = n and kind = 2, OF t]
    by (auto simp: real_realloc_def split: prod.splits)
next
  case (Track_insert kind p n)
  then have p: "live_key p" "tracked w p = None" "block_size w p n" using h b sz resolved_live [OF r] by simp_all
  have ok: "registry_ok (g_registry w)" using r by (simp add: resolved_ok_def)
  show ?thesis
  proof (cases "ao_registry_insert_locked p n (g_next_allocation_id w) (g_registry w)")
    case None
    with x [symmetric] Track_insert p show ?thesis
      by (auto intro!: exact_quiet [OF t] simp: ao_next_allocation_id_def)
  next
    case (Some r')
    let ?w = "w\<lparr>g_next_allocation_id := g_next_allocation_id w + 1, g_registry := r'\<rparr>"
    have e: "ph' = Track_unlock kind p n True" "w' = ?w" using x Track_insert Some by (simp_all add: ao_next_allocation_id_def)
    have n: "registry_map (g_registry w) p = None" using p(2) by (simp add: tracked_def)
    note i = reg.insrt_Some [OF ok p(1) Some] reg.insrt_new [OF ok p(1) n Some]
    have tr: "tracked ?w = (tracked w)(p \<mapsto> (n, g_next_allocation_id w))" using i(1) by (simp add: tracked_def)
    have "tracking_ok ?w" using t p(3) unfolding tracking_ok_def tr block_size_def by auto
    moreover have "of_nat (card (dom (tracked ?w))) = (of_nat (card (dom (tracked w))) + 1 :: 64 word)"
        "total_size (tracked ?w) = total_size (tracked w) + n"
      using i(2,3) by (simp_all add: tracked_def)
    ultimately show ?thesis
      unfolding e using Track_insert
      by (simp add: exact_effect_def balance_blocks_def balance_bytes_def adds_of_live tr del: dom_fun_upd)
  qed
next
  case (Track_unlock kind p n inserted)
  with x [symmetric] show ?thesis
    by (auto intro!: exact_quiet [OF t] simp: adds_of_live ao_registry_unlock_def tracked_def)
next
  case (Free_remove p)
  then have p: "live_key p" using h resolved_live [OF r] by simp
  have ok: "registry_ok (g_registry w)" using r by (simp add: resolved_ok_def)
  show ?thesis
  proof (cases "ao_registry_remove_locked p (g_registry w)")
    case None
    then have "tracked w p = None" using reg.remov_None [OF p] by (simp add: tracked_def)
    with None x [symmetric] Free_remove show ?thesis by (auto intro!: exact_quiet [OF t])
  next
    case (Some y)
    obtain n aid r' where y: "y = ((n, aid), r')" by (metis surj_pair)
    let ?w = "w\<lparr>g_registry := r'\<rparr>"
    have e: "ph' = Free_unlock p (Some (n, aid))" "w' = ?w" using x Free_remove Some y by simp_all
    note i = reg.remov_Some [OF ok p Some [unfolded y]] reg.remov_present [OF ok p Some [unfolded y]]
    have tr: "tracked ?w = (tracked w)(p := None)" using i(1) by (simp add: tracked_def)
    have "tracking_ok ?w" using t unfolding tracking_ok_def tr by auto
    moreover have "of_nat (card (dom (tracked w))) = (of_nat (card (dom (tracked ?w))) + 1 :: 64 word)"
      using i(2) [symmetric] by (simp add: tracked_def)
    moreover have "total_size (tracked ?w) = total_size (tracked w) - n" using i(3) by (simp add: tracked_def)
    ultimately show ?thesis
      unfolding e using Free_remove
      by (simp add: exact_effect_def balance_blocks_def balance_bytes_def adds_of_live tr del: dom_fun_upd)
  qed
next
  case (Free_unlock p entry)
  with x [symmetric] b show ?thesis
    by (cases entry)
      (auto intro!: exact_quiet [OF t] simp: adds_of_live ao_registry_unlock_def tracked_def split: prod.splits)
next
  case (Call_free p)
  then have p: "tracked w p = None" "blocks w p \<noteq> None" using b h by simp_all
  have np: "p \<noteq> NULL" using resolved_live [OF r p(2)] by (auto simp: live_key_def AO_REGISTRY_EMPTY_def)
  have e: "ph' = Return NULL" "w' = w\<lparr>blocks := (blocks w)(p := None)\<rparr>"
    using x Call_free p(2) np by (auto simp: real_free_def)
  have "tracking_ok w'" using t p(1) unfolding tracking_ok_def e by auto
  then show ?thesis
    using Call_free by (simp add: exact_effect_def balance_blocks_def balance_bytes_def e nonnull_def)
next
  case (Clear cs)
  show ?thesis
  proof (cases cs)
    case Nil
    then have "ph' = Returned NULL" "w' = w" using x Clear by simp_all
    with Clear show ?thesis by (intro exact_quiet [OF t]) simp_all
  next
    case (Cons c cs')
    then have "ph' = Clear cs'" "w' = store_zero c w" using x Clear by simp_all
    with Clear Cons pl show ?thesis by (intro exact_quiet [OF t]) (simp_all add: store_zero_def tracked_def)
  qed
next
  case (Bridge_realloc p n)
  have ph: "due c ph = 0" for c using Bridge_realloc by simp
  obtain q where r1: "real_realloc p n w = Done (q, w')" "ph' = Return q"
    using x Bridge_realloc by (auto simp: obind_eq_Done)
  have q: "libc.more w' = libc.more w \<and> (\<forall>k. tracked w k \<noteq> None \<longrightarrow> blocks w' k = blocks w k)"
  proof (cases "p = NULL")
    case True
    then have "real_malloc n w = (q, w')" using r1 by (simp add: real_realloc_def)
    note g = real_malloc_grows [OF this]
    have "blocks w' k = blocks w k" if "tracked w k \<noteq> None" for k
      by (rule g(3)) (use tracked_live [OF t, of k] that in blast)
    with g(1) show ?thesis by simp
  next
    case False
    then have n: "tracked w p = None" using b Bridge_realloc by (simp add: nonnull_def)
    obtain cs where cs: "blocks w p = Some cs" using h Bridge_realloc False by (auto simp: nonnull_def)
    from False cs show ?thesis
    proof (cases rule: real_realloc_cases [where n = n])
      case (moved q' u)
      then have "tracked w q' = None" using n tracked_live [OF t] by (auto dest: fresh_blockD(3))
      with moved r1 n show ?thesis by auto
    qed (use r1 n in auto)
  qed
  note e = mock_more_eq [OF conjunct1 [OF q]]
  have tr: "tracked w' = tracked w" using e by (simp add: tracked_def)
  have "tracking_ok w'" using t q unfolding tracking_ok_def tr by fastforce
  then show ?thesis
    using ph e tr by (simp add: exact_effect_def balance_blocks_def balance_bytes_def r1(2))
qed (use x [symmetric] pl sz b in \<open>auto intro!: exact_quiet [OF t] simp: acquire_def tracked_def ao_registry_unlock_def split: if_splits\<close>)

section \<open>Every interleaving without \<open>realloc\<close> of a block\<close>

lemma threads_exactD:
  assumes "threads_exact (ts, w)"
  shows "list_all plain ts" "tracking_ok w"
    "i < length ts \<Longrightarrow> plain (ts ! i)" "i < length ts \<Longrightarrow> size_ok (ts ! i) w"
    "i < length ts \<Longrightarrow> bare (ts ! i) \<Longrightarrow> hand (ts ! i) = Some p \<Longrightarrow> tracked w p = None"
    "live_blocks (g_stats w) + owed Live_blocks ts = of_nat (card (dom (tracked w)))"
    "live_bytes (g_stats w) + owed Live_bytes ts = total_size (tracked w)"
  using assms by (simp_all add: threads_exact_def list_all_length)

lemma sum_list_all_zero: "(\<And>x. x \<in> set xs \<Longrightarrow> x = 0) \<Longrightarrow> sum_list xs = (0 :: 'a::comm_monoid_add)"
  by (induction xs) simp_all

lemma balance_step:
  fixes a :: "'a::ab_group_add"
  assumes "a' + d' - c' = a + d - c" "a + x = c"
  shows "a' + (x + d' - d) = c'"
proof -
  have "a' + (x + d' - d) - c' = (a' + d' - c') + x - d" by (simp add: algebra_simps)
  also have "\<dots> = a + x - c" unfolding assms(1) by (simp add: algebra_simps)
  finally show ?thesis using assms(2) by simp
qed

lemma threads_exact_step:
  assumes ex: "threads_exact (ts, w)" and safe: "hands_ok ts w" and i: "i < length ts"
    and e: "exact_effect (ts ! i) w ph w'"
    and h: "\<And>p. blocks w p \<noteq> None \<Longrightarrow> hand (ts ! i) \<noteq> Some p \<Longrightarrow> blocks w' p = blocks w p"
  shows "threads_exact (ts[i := ph], w')"
proof -
  note x = threads_exactD [OF ex]
  have e': "plain ph" "tracking_ok w'" "size_ok ph w'" "\<And>p. bare ph \<Longrightarrow> hand ph = Some p \<Longrightarrow> tracked w' p = None"
      "\<And>p. hand (ts ! i) \<noteq> Some p \<Longrightarrow> tracked w' p = tracked w p"
      "balance_blocks ph w' = balance_blocks (ts ! i) w" "balance_bytes ph w' = balance_bytes (ts ! i) w"
    using e unfolding exact_effect_def by simp_all
  have pl: "list_all plain (ts[i := ph])"
    using x(1) e'(1) by (auto simp: list_all_iff dest: set_update_subset_insert [THEN subsetD])
  have other: "blocks w' p = blocks w p" "tracked w' p = tracked w p"
    if "j < length ts" "j \<noteq> i" "hand (ts ! j) = Some p" for j p
  proof -
    have "hand (ts ! i) \<noteq> Some p" by (rule hands_okD(2) [OF safe that(1,3) i]) (use that in simp)
    moreover have "blocks w p \<noteq> None" by (rule hands_okD(1) [OF safe that(1,3)])
    ultimately show "blocks w' p = blocks w p" "tracked w' p = tracked w p"
      using h e'(5) by simp_all
  qed
  have sz: "size_ok (ts[i := ph] ! j) w'" if j: "j < length ts" for j
  proof (cases "j = i")
    case False
    have "size_ok (ts ! j) w' = size_ok (ts ! j) w" by (rule size_ok_same) (rule other(1) [OF j False])
    with False x(4) [OF j] show ?thesis by simp
  qed (use i e'(3) in simp)
  have ba: "tracked w' p = None" if j: "j < length ts" "bare (ts[i := ph] ! j)" "hand (ts[i := ph] ! j) = Some p" for j p
  proof (cases "j = i")
    case False
    with j have b: "bare (ts ! j)" "hand (ts ! j) = Some p" by simp_all
    from other(2) [OF j(1) False b(2)] x(5) [OF j(1) b] show ?thesis by simp
  qed (use i e'(4) j in simp)
  have "live_blocks (g_stats w') + owed Live_blocks (ts[i := ph]) = of_nat (card (dom (tracked w')))"
    unfolding owed_update [OF i] by (rule balance_step [OF e'(6) [unfolded balance_blocks_def] x(6)])
  moreover have "live_bytes (g_stats w') + owed Live_bytes (ts[i := ph]) = total_size (tracked w')"
    unfolding owed_update [OF i] by (rule balance_step [OF e'(7) [unfolded balance_bytes_def] x(7)])
  ultimately show ?thesis
    using pl e'(2) sz ba by (simp add: threads_exact_def)
qed

lemma returned_due: "returned ph \<noteq> None \<Longrightarrow> due c ph = 0"
  by (cases ph) simp_all

lemma call_start_exact:
  assumes "call_start c w = (ph, w')" "no_realloc c" "call_allowed ts w c" "tracking_ok w"
    "due Live_blocks ph0 = 0" "due Live_bytes ph0 = 0"
  shows "exact_effect ph0 w ph w'"
proof -
  have "w' = w \<or> w' = ao_mock_begin_capture w" using assms(1) by (cases c) simp_all
  then have w': "blocks w' = blocks w" "tracked w' = tracked w"
      "live_blocks (g_stats w') = live_blocks (g_stats w)" "live_bytes (g_stats w') = live_bytes (g_stats w)"
    by (auto simp: ao_mock_begin_capture_def)
  have ph: "plain ph" "due d ph = 0" "size_ok ph w" "bare ph \<Longrightarrow> hand ph = Some p \<Longrightarrow> tracked w p = None" for d p
    using assms(1-3)
    by (cases c; auto simp: no_realloc_def call_allowed_def nonnull_def reset_counters_def split: if_splits)+
  show ?thesis using w' ph assms(5,6) by (intro exact_quiet [OF assms(4)]) simp_all
qed

lemma threads_step_exact:
  assumes "threads_step no_realloc s s'" "threads_safe s" "threads_exact s"
  shows "threads_exact s'"
  using assms
proof (induction rule: threads_step.induct)
  case (step_call i ts c w ph w')
  then have safe: "hands_ok ts w" by (simp add: threads_safe_def)
  note e = call_start_effect [OF step_call.hyps(5,4)] and d = returned_due [OF step_call.hyps(2)]
  have x: "exact_effect (ts ! i) w ph w'"
    by (rule call_start_exact [OF step_call.hyps(5,3,4) threads_exactD(2) [OF step_call.prems(2)] d d])
  show ?case by (rule threads_exact_step [OF step_call.prems(2) safe step_call.hyps(1) x]) (simp add: e(1))
next
  case (step_run i ts w ph w')
  then have safe: "hands_ok ts w" "resolved_ok w" "key_ok (ts ! i)" by (simp_all add: threads_safe_def list_all_length)
  note x = threads_exactD [OF step_run.prems(2)] and b = hands_okD(1) [OF safe(1) step_run.hyps(1)]
  have "exact_effect (ts ! i) w ph w'"
    by (rule thread_step_exact [OF safe(2) x(2) x(3) [OF step_run.hyps(1)] x(4) [OF step_run.hyps(1)]
          x(5) [OF step_run.hyps(1)] b step_run.hyps(3)])
  moreover have "hand_effect (ts ! i) w ph w'"
    using thread_step_safe [OF safe(2,3) b] step_run.hyps(3) by (simp add: safe_effect_def)
  ultimately show ?case
    by (intro threads_exact_step [OF step_run.prems(2) safe(1) step_run.hyps(1)]) (simp_all add: hand_effect_def)
next
  case (step_program ts w p cs cs')
  let ?w = "w\<lparr>blocks := (blocks w)(p \<mapsto> cs')\<rparr>"
  note x = threads_exactD [OF step_program.prems(2)]
  have "\<exists>bs. blocks ?w q = Some bs \<and> length bs = unat sz" if "tracked w q = Some (sz, aid)" for q sz aid
    using tracking_okD [OF x(2) that] step_program.hyps(2,3) by auto
  then have t: "tracking_ok ?w" unfolding tracking_ok_def tracked_simps by blast
  have sz: "size_ok (ts ! i) ?w" if "i < length ts" for i
  proof -
    have "size_ok (ts ! i) ?w = size_ok (ts ! i) w"
      using step_program.hyps(1) that by (intro size_ok_same) (auto simp: nth_mem program_owns_def)
    then show ?thesis using x(4) [OF that] by simp
  qed
  then show ?case using x(1,5-7) t by (simp add: threads_exact_def)
next
  case (step_system n w p w' ts)
  note x = threads_exactD [OF step_system.prems(2)] and g = real_malloc_grows [OF step_system.hyps]
  note e = mock_more_eq [OF g(1)]
  have safe: "hands_ok ts w" using step_system.prems(1) by (simp add: threads_safe_def)
  have tr: "tracked w' = tracked w" using e by (simp add: tracked_def)
  have "tracking_ok w'" using x(2) tracked_live [OF x(2)] g(3) unfolding tracking_ok_def tr by fastforce
  moreover have "size_ok (ts ! i) w'" if i: "i < length ts" for i
    using size_ok_same [of "ts ! i" w' w] g(3) [OF hands_okD(1) [OF safe i]] x(4) [OF i] by simp
  ultimately show ?case using x(1,5-7) e tr by (simp add: threads_exact_def)
qed

lemma threads_start_exact:
  assumes "mock_inv w"
  shows "threads_exact (replicate n (Returned NULL), w)"
proof -
  have "owed c (replicate n (Returned NULL)) = 0" for c by (simp add: owed_def sum_list_replicate)
  with assms show ?thesis by (simp add: threads_exact_def mock_inv_def live_ok_def list_all_iff)
qed

lemma threads_reach_exact: "threads_reach no_realloc s \<Longrightarrow> threads_exact s"
proof (induction rule: threads_reach.induct)
  case (reach_start w n)
  show ?case by (rule threads_start_exact [OF mock_reachable_inv [OF reach_start]])
next
  case (reach_step s s')
  show ?case by (rule threads_step_exact [OF reach_step(2) threads_reach_safe [OF reach_step(1)] reach_step(3)])
qed

text \<open>With every thread outside the library nothing is owed, and the invariant of the sequential model holds.\<close>

lemma quiescent_inv:
  assumes r: "threads_reach no_realloc (ts, w)" and q: "\<And>i. i < length ts \<Longrightarrow> returned (ts ! i) \<noteq> None"
  shows "mock_inv w"
proof -
  note x = threads_exactD [OF threads_reach_exact [OF r]]
  have safe: "lock_ok ts w" "resolved_ok w" using threads_reach_safe [OF r] by (simp_all add: threads_safe_def)
  have "\<not> holds (ts ! i)" if "i < length ts" for i using returned_hand [OF q [OF that]] by simp
  then have "\<not> g_registry_lock w" using safe(1) by (auto simp: lock_ok_def)
  moreover have "owed c ts = 0" for c
    unfolding owed_def by (rule sum_list_all_zero) (auto simp: in_set_conv_nth returned_due [OF q])
  ultimately show ?thesis
    using x(2,6,7) safe(2) by (simp add: mock_inv_def resolved_ok_def mock_ready_def live_ok_def)
qed

end
