(* ===== verification/Thread_Properties.thy ===== *)
theory Thread_Properties
  imports Sample_States Mock_Accounting
begin

text \<open>Properties of the mock allocator in several threads, each with an instance.\<close>

section \<open>Schedules\<close>

text \<open>The threads run in the given order, one step each; \<open>None\<close> where one is not inside the library or stops the process.\<close>

fun schedule :: "nat list \<Rightarrow> threads \<Rightarrow> threads option" where
  "schedule [] s = Some s"
| "schedule (i # is) (ts, w) =
     (if i < length ts \<and> returned (ts ! i) = None
      then case thread_step (ts ! i) w of Done (ph, w') \<Rightarrow> schedule is (ts[i := ph], w') | _ \<Rightarrow> None
      else None)"

lemma schedule_reach:
  "threads_reach may s \<Longrightarrow> schedule is s = Some s' \<Longrightarrow> threads_reach may s'"
proof (induction "is" s rule: schedule.induct)
  case (2 i "is" ts w)
  then obtain ph w' where i: "i < length ts" "returned (ts ! i) = None" "thread_step (ts ! i) w = Done (ph, w')"
      "schedule is (ts[i := ph], w') = Some s'"
    by (auto split: if_splits outcome.splits prod.splits)
  with 2 show ?case by (blast intro: reach_step step_run)
qed simp

text \<open>A call begins.\<close>

lemma reach_call:
  assumes "threads_reach may (ts, w)" "i < length ts" "returned (ts ! i) \<noteq> None" "may c" "call_allowed ts w c"
    "call_start c w = (ph, w')"
  shows "threads_reach may (ts[i := ph], w')"
  using assms by (blast intro: reach_step step_call)

section \<open>Two threads and one block\<close>

definition two_threads :: "ptr option list \<Rightarrow> threads" where
  "two_threads as = ([Returned NULL, Returned NULL], one_block_state (replicate 4 None) as)"

lemma two_threads_reach: "threads_reach may (two_threads as)"
  using reach_start [OF one_block_reachable, of may 2 as] by (simp add: two_threads_def numeral_2_eq_2)

lemma two_threads_call:
  assumes "call_start c (one_block_state (replicate 4 None) as) = (ph, one_block_state (replicate 4 None) as)" "may c"
    "call_allowed [Returned NULL, Returned NULL] (one_block_state (replicate 4 None) as) c"
  shows "threads_reach may ([ph, Returned NULL], one_block_state (replicate 4 None) as)"
  using reach_call [OF two_threads_reach [unfolded two_threads_def], of 0 may c as ph] assms by simp

text \<open>The registry of that state.\<close>

lemma one_block_registry_ok:
  "registry_ok one_block_registry" "registry_map one_block_registry = [0x100000 \<mapsto> (4, 1)]"
  using one_block_inv [of "replicate 4 None" "[]"]
  by (simp_all add: mock_inv_def tracked_def one_block_state_def ao_live_add_def)

lemmas run_simps = acquire_def ao_registry_unlock_def ao_live_add_def real_realloc_def real_malloc_def real_free_def
  fresh_block_def in_static_def ao_next_allocation_id_def fetch_add_def adds_defs ao_capture_enabled_def zero_stats_def
  one_block_state_def ready_state_def loaded_state_def

text \<open>Thread 0 frees the block and has the lock; thread 1 begins \<open>malloc\<close>.\<close>

definition contended :: "ptr option list \<Rightarrow> threads" where
  "contended as = ([Free_remove 0x100000, Call_malloc 4], (one_block_state (replicate 4 None) as)\<lparr>g_registry_lock := True\<rparr>)"

lemma one_block_lock: "\<not> g_registry_lock (one_block_state cs as)"
  by (simp add: one_block_state_def ready_state_def loaded_state_def ao_live_add_def)

lemma contended_reach: "threads_reach no_realloc (contended as)"
proof -
  let ?w = "one_block_state (replicate 4 None) as"
  have "threads_reach no_realloc ([Free_lock 0x100000, Returned NULL], ?w)"
    by (rule two_threads_call [of "Free 0x100000"])
      (simp_all add: call_allowed_def program_owns_def one_block_blocks no_realloc_def)
  from reach_call [OF this, of 1 "Malloc 4"] have "threads_reach no_realloc ([Free_lock 0x100000, Call_malloc 4], ?w)"
    by (simp add: call_allowed_def no_realloc_def)
  from schedule_reach [OF this, of "[0]"] show ?thesis
    by (simp add: contended_def acquire_def one_block_lock)
qed

section \<open>Every interleaving\<close>

text \<open>
  C12: in every interleaving of the calls of any number of threads, \<open>realloc\<close> included, no thread
  is stuck or accesses released memory: its next step is defined, or it is the fatal exit. The lock is
  held exactly while a thread is in a critical section and at most one is. A block that a call has in hand is live
  and in the hand of no other.
\<close>

theorem threads_mutual_exclusion:
  assumes "threads_reach may (ts, w)" "i < length ts"
  shows "(ts ! i \<noteq> Abort \<longrightarrow> (\<exists>ph w'. thread_step (ts ! i) w = Done (ph, w')))
    \<and> (g_registry_lock w \<longleftrightarrow> (\<exists>j < length ts. holds (ts ! j)))
    \<and> (\<forall>j < length ts. holds (ts ! i) \<longrightarrow> holds (ts ! j) \<longrightarrow> i = j)
    \<and> (\<forall>p. hand (ts ! i) = Some p \<longrightarrow> blocks w p \<noteq> None \<and> (\<forall>j < length ts. j \<noteq> i \<longrightarrow> hand (ts ! j) \<noteq> Some p))"
proof (intro conjI)
  have s: "lock_ok ts w" "hands_ok ts w" "resolved_ok w" "key_ok (ts ! i)"
    using threads_reach_safe [OF assms(1)] assms(2) by (simp_all add: threads_safe_def list_all_length)
  note h = hands_okD [OF s(2) assms(2)]
  show "ts ! i \<noteq> Abort \<longrightarrow> (\<exists>ph w'. thread_step (ts ! i) w = Done (ph, w'))"
    using thread_step_safe [OF s(3,4) h(1)] wp_Done_cases by fastforce
  show "g_registry_lock w \<longleftrightarrow> (\<exists>j < length ts. holds (ts ! j))"
    "\<forall>j < length ts. holds (ts ! i) \<longrightarrow> holds (ts ! j) \<longrightarrow> i = j"
    using s(1) assms(2) by (simp_all add: lock_ok_def)
  show "\<forall>p. hand (ts ! i) = Some p \<longrightarrow> blocks w p \<noteq> None \<and> (\<forall>j < length ts. j \<noteq> i \<longrightarrow> hand (ts ! j) \<noteq> Some p)"
    using h by simp
qed

theorem threads_mutual_exclusion_witness:
  "threads_reach no_realloc (contended []) \<and> holds (fst (contended []) ! 0)
   \<and> blocks (snd (contended [])) 0x100000 \<noteq> None \<and> \<not> holds (fst (contended []) ! 1)"
  using threads_mutual_exclusion [OF contended_reach [of "[]", unfolded contended_def], of 0] contended_reach [of "[]"]
  by (simp add: contended_def)

text \<open>
  C22: no interleaving gets into a deadlock: from every state that is reached the threads can be run until
  every call has returned, unless one reports that the registry is exhausted and ends the process.
\<close>

theorem threads_can_finish:
  assumes "threads_reach may (ts, w)"
  shows "\<exists>ts' w'. (threads_step may)\<^sup>*\<^sup>* (ts, w) (ts', w')
    \<and> ((\<forall>ph \<in> set ts'. returned ph \<noteq> None) \<or> Abort \<in> set ts')"
  by (rule threads_finish [OF threads_reach_safe [OF assms]])

theorem threads_can_finish_witness:
  "\<exists>ts' w'. (threads_step no_realloc)\<^sup>*\<^sup>* (contended []) (ts', w')
    \<and> ((\<forall>ph \<in> set ts'. returned ph \<noteq> None) \<or> Abort \<in> set ts')"
  unfolding contended_def by (rule threads_can_finish [OF contended_reach [of "[]", unfolded contended_def]])

text \<open>
  C24: as long as no thread calls \<open>realloc\<close> on a block, the accounting survives every interleaving: whenever all
  threads are outside the library the invariant of the sequential model holds, so the live counters
  are again exactly the number and the total size of the tracked blocks.
\<close>

theorem quiescent_accounting:
  assumes "threads_reach no_realloc (ts, w)" "list_all (\<lambda>ph. returned ph \<noteq> None) ts"
  shows "mock_inv w \<and> live_blocks (g_stats w) = of_nat (card (dom (tracked w)))
    \<and> live_bytes (g_stats w) = total_size (tracked w)"
  using quiescent_inv [OF assms(1)] assms(2) by (simp add: list_all_length mock_inv_def live_ok_def)

text \<open>Thread 1 allocates a second block while thread 0 frees the first.\<close>

lemma contended_steps:
  assumes "ao_registry_remove_locked 0x100000 one_block_registry = Some ((4, 1), r1)"
    and "ao_registry_insert_locked 0x200000 4 2 r1 = Some r2"
  shows "\<exists>w. schedule [1, 0, 1, 0, 1, 0, 1, 0, 1, 0, 1, 0, 1, 0, 1, 0, 1, 1] (contended [Some 0x200000])
      = Some ([Returned NULL, Returned 0x200000], w) \<and> g_registry w = r2"
  using assms by (simp add: contended_def run_simps)

lemma contended_run:
  "\<exists>w. schedule [1, 0, 1, 0, 1, 0, 1, 0, 1, 0, 1, 0, 1, 0, 1, 0, 1, 1] (contended [Some 0x200000])
      = Some ([Returned NULL, Returned 0x200000], w) \<and> tracked w = [0x200000 \<mapsto> (4, 2)]"
proof -
  note ok = one_block_registry_ok
  obtain v r1 where r1: "ao_registry_remove_locked 0x100000 one_block_registry = Some (v, r1)"
    using reg.remov_None [of "0x100000" one_block_registry] ok(2) by (auto simp: live_key_numeral)
  have 1: "v = (4, 1)" "registry_ok r1" "registry_map r1 = Map.empty"
    using reg.remov_Some [OF ok(1) _ r1] ok(2) by (simp_all add: live_key_numeral)
  obtain r2 where r2: "ao_registry_insert_locked 0x200000 4 2 r1 = Some r2"
    using reg.insrt_room [OF 1(2), of "0x200000" 4 2] by (auto simp: live_key_numeral 1(3) AO_REGISTRY_CAPACITY_def)
  have 2: "registry_map r2 = [0x200000 \<mapsto> (4, 2)]"
    using reg.insrt_Some [OF 1(2) _ r2] by (simp add: live_key_numeral 1(3))
  from contended_steps [OF r1 [unfolded 1(1)] r2] 2 show ?thesis by (auto simp: tracked_def)
qed

theorem quiescent_accounting_witness:
  "\<exists>ts w. threads_reach no_realloc (ts, w) \<and> ts = [Returned NULL, Returned 0x200000]
    \<and> tracked w = [0x200000 \<mapsto> (4, 2)] \<and> live_blocks (g_stats w) = 1"
proof -
  obtain w where w: "schedule [1, 0, 1, 0, 1, 0, 1, 0, 1, 0, 1, 0, 1, 0, 1, 0, 1, 1] (contended [Some 0x200000])
      = Some ([Returned NULL, Returned 0x200000], w)" and t: "tracked w = [0x200000 \<mapsto> (4, 2)]"
    using contended_run by blast
  have r: "threads_reach no_realloc ([Returned NULL, Returned 0x200000], w)"
    by (rule schedule_reach [OF contended_reach w])
  from quiescent_accounting [OF r] t have "live_blocks (g_stats w) = 1" by simp
  with r t show ?thesis by blast
qed

section \<open>Calls that interfere\<close>

text \<open>
  \<open>realloc\<close> gives the lock back between libc's \<open>realloc\<close>, which releases the old address, and the exchange of the
  entries. A \<open>malloc\<close> in between can be given that address: its entry replaces the old one, and the exchange
  then removes it. In the end one block is tracked where \<open>live_blocks\<close> says two, and a live block
  that \<open>malloc\<close> returned is not tracked.
\<close>

lemma realloc_race_run:
  assumes l: "ao_registry_lookup_locked 0x100000 one_block_registry = Some (4, 1)"
    and r1: "ao_registry_insert_locked 0x100000 4 2 one_block_registry = Some r1"
    and r2: "ao_registry_remove_locked 0x100000 r1 = Some (v, r2)"
    and r3: "ao_registry_insert_locked 0x200000 8 1 r2 = Some r3"
  shows "\<exists>w. schedule [0, 0, 0, 0, 1, 1, 1, 1, 1, 1, 1, 1, 1, 0, 0, 0, 0, 0, 0, 0]
      ([Realloc_lock 0x100000 8, Call_malloc 4], one_block_state (replicate 4 None) [Some 0x200000, Some 0x100000])
      = Some ([Returned 0x200000, Returned 0x100000], w)
    \<and> g_registry w = r3 \<and> blocks w 0x100000 \<noteq> None \<and> live_blocks (g_stats w) = 2"
  by (simp add: run_simps l r1 r2 r3)

lemma realloc_race:
  "\<exists>w. threads_reach (\<lambda>_. True) ([Returned 0x200000, Returned 0x100000], w)
    \<and> blocks w 0x100000 \<noteq> None \<and> tracked w = [0x200000 \<mapsto> (8, 1)] \<and> live_blocks (g_stats w) = 2"
proof -
  note ok = one_block_registry_ok
  let ?w = "one_block_state (replicate 4 None) [Some 0x200000, Some 0x100000]"
  have l: "ao_registry_lookup_locked 0x100000 one_block_registry = Some (4, 1)"
    using ok(2) lookup_registry_map [of "0x100000" one_block_registry] by (simp add: live_key_numeral)
  obtain r1 where r1: "ao_registry_insert_locked 0x100000 4 2 one_block_registry = Some r1"
    using reg.insrt_room [OF ok(1), of "0x100000" 4 2] by (auto simp: live_key_numeral ok(2) AO_REGISTRY_CAPACITY_def)
  have 1: "registry_ok r1" "registry_map r1 = [0x100000 \<mapsto> (4, 2)]"
    using reg.insrt_Some [OF ok(1) _ r1] by (simp_all add: live_key_numeral ok(2))
  obtain v r2 where r2: "ao_registry_remove_locked 0x100000 r1 = Some (v, r2)"
    using reg.remov_None [of "0x100000" r1] 1(2) by (auto simp: live_key_numeral)
  have 2: "registry_ok r2" "registry_map r2 = Map.empty"
    using reg.remov_Some [OF 1(1) _ r2] 1(2) by (simp_all add: live_key_numeral)
  obtain r3 where r3: "ao_registry_insert_locked 0x200000 8 1 r2 = Some r3"
    using reg.insrt_room [OF 2(1), of "0x200000" 8 1] by (auto simp: live_key_numeral 2(2) AO_REGISTRY_CAPACITY_def)
  have 3: "registry_map r3 = [0x200000 \<mapsto> (8, 1)]"
    using reg.insrt_Some [OF 2(1) _ r3] by (simp add: live_key_numeral 2(2))
  have "threads_reach (\<lambda>_. True) ([Realloc_lock 0x100000 8, Returned NULL], ?w)"
    by (rule two_threads_call [of "Realloc 0x100000 8"]) (simp_all add: call_allowed_def program_owns_def one_block_blocks)
  from reach_call [OF this, of 1 "Malloc 4"]
  have r: "threads_reach (\<lambda>_. True) ([Realloc_lock 0x100000 8, Call_malloc 4], ?w)" by (simp add: call_allowed_def)
  obtain w where w: "schedule [0, 0, 0, 0, 1, 1, 1, 1, 1, 1, 1, 1, 1, 0, 0, 0, 0, 0, 0, 0]
      ([Realloc_lock 0x100000 8, Call_malloc 4], ?w) = Some ([Returned 0x200000, Returned 0x100000], w)"
    and s: "g_registry w = r3" "blocks w 0x100000 \<noteq> None" "live_blocks (g_stats w) = 2"
    using realloc_race_run [OF l r1 r2 r3] by blast
  have "tracked w = [0x200000 \<mapsto> (8, 1)]" by (simp add: tracked_def s(1) 3)
  with schedule_reach [OF r w] s(2,3) show ?thesis by blast
qed

text \<open>
  \<open>ao_mock_end_capture\<close> reads the depth and then subtracts: two threads that end the last capture together
  make it negative, and the capture that begins next is not counted.
\<close>

lemma end_capture_race:
  "\<exists>w. threads_reach no_realloc ([Returned NULL, Returned NULL], w) \<and> g_capture_depth w = - 1
    \<and> \<not> ao_capture_enabled (ao_mock_begin_capture w)"
proof -
  let ?w = "ao_mock_begin_capture (one_block_state (replicate 4 None) [])"
  have d: "g_capture_depth ?w = 1"
    by (simp add: ao_mock_begin_capture_def one_block_state_def ready_state_def loaded_state_def ao_live_add_def)
  have "threads_reach no_realloc ([Returned NULL, Returned NULL], ?w)"
    using reach_call [OF two_threads_reach [unfolded two_threads_def], of 0 no_realloc Begin_capture]
    by (simp add: call_allowed_def no_realloc_def)
  from reach_call [OF this, of 0 End_capture] have "threads_reach no_realloc ([End_sub, Returned NULL], ?w)"
    by (simp add: call_allowed_def no_realloc_def d)
  from reach_call [OF this, of 1 End_capture] have "threads_reach no_realloc ([End_sub, End_sub], ?w)"
    by (simp add: call_allowed_def no_realloc_def d)
  from schedule_reach [OF this, of "[0, 1]"] d
  have "threads_reach no_realloc ([Returned NULL, Returned NULL], ?w\<lparr>g_capture_depth := - 1\<rparr>)" by simp
  then show ?thesis
    by (intro exI [of _ "?w\<lparr>g_capture_depth := - 1\<rparr>"]) (simp add: ao_capture_enabled_def ao_mock_begin_capture_def)
qed

text \<open>
  C11: two ways in which concurrent calls interfere. When \<open>malloc\<close> reuses the address that a \<open>realloc\<close> in
  progress has released, all calls return and the new live block is in nobody's books: one block is tracked
  where \<open>live_blocks\<close> says two. When two threads end the last capture together the depth becomes negative
  and the next capture is off.
\<close>

theorem concurrent_calls_interfere:
  "(\<exists>w. threads_reach (\<lambda>_. True) ([Returned 0x200000, Returned 0x100000], w)
     \<and> blocks w 0x100000 \<noteq> None \<and> tracked w = [0x200000 \<mapsto> (8, 1)] \<and> live_blocks (g_stats w) = 2)
   \<and> (\<exists>w. threads_reach no_realloc ([Returned NULL, Returned NULL], w) \<and> g_capture_depth w = - 1
     \<and> \<not> ao_capture_enabled (ao_mock_begin_capture w))"
  by (rule conjI [OF realloc_race end_capture_race])

end
