(* ===== verification/Spec2Isabelle.thy ===== *)
theory Spec2Isabelle
  imports Sample_States Process Stream_Properties Scanf_Properties Path_Properties Thread_Properties
begin

text \<open>
  \<^bold>\<open>libc\_override.\<close> The repository builds two shared libraries for preloading.
  \<open>liballoc_return_override.so\<close> (\<open>src/*_overrides.c\<close>) replaces the libc functions that return memory
  the caller must free, so that this memory comes from the \<open>malloc\<close> the process is linked to;
  \<open>libmock_allocator.so\<close> (\<open>src/mock_allocator.c\<close>) is an allocator that wraps libc's, tracks every
  live block in a hash table, counts calls during a capture, and exports a bridge through which the
  scanner overrides ask who owns a pointer. The overrides call the allocator and the bridge;
  nothing calls back.

  \<^bold>\<open>Machine.\<close> \<open>Prelude\<close> has the type \<open>outcome\<close> of an operation (\<open>Done\<close>, \<open>Exit\<close> with a status, \<open>Undef\<close> for undefined
  behaviour, and the endless spin on a held lock) and \<open>wp\<close>: \<open>wp E m Q\<close> says that \<open>m\<close> returns with \<open>Q\<close>, or
  that the process exits and \<open>E\<close> holds; undefined behaviour is excluded. \<open>C_Memory\<close> has the heap: a map from
  addresses to objects, an object being a list of cells that may be uninitialised, \<open>errno\<close>,
  and libc's allocator, which takes its addresses from a list of answers, so that theorems over all
  states are theorems over all placements and all failures. \<open>size_t\<close> and pointers are 64-bit words, \<open>unsigned int\<close> is
  a 32-bit word, \<open>wchar_t\<close> has four bytes.

  \<^bold>\<open>Mock allocator.\<close> \<open>Registry\<close> models \<open>ao_registry_*\<close> with linear probing and tombstones and proves that it
  implements the finite map of the locale \<open>ptr_map\<close> (\<open>Ptr_Map\<close>). \<open>Mock_State\<close> has the globals, the lock
  and the statistics, \<open>Bootstrap\<close> the static arena that serves \<open>dlsym\<close>, \<open>Mock_Allocator\<close> the entry points,
  their invariant \<open>mock_inv\<close> and the behaviour of each on every branch. The entry points call
  \<open>ao_ensure_real_functions\<close>, that calls \<open>dlsym\<close>, and \<open>dlsym\<close> calls the entry points: the bodies (\<open>malloc_body\<close>, \<open>calloc_body\<close>,
  \<open>realloc_body\<close>, \<open>free_body\<close>) take \<open>ao_ensure_real_functions\<close> as an argument, which inside the resolver is a \<open>pthread_once\<close> that
  is running and never returns; only the tests of \<open>g_in_resolver\<close> keep a call from getting there. \<open>Mock_Runs\<close> shows that
  resolution ends, and has the step relation of the allocator (\<open>mock_step\<close>, with pointers into the bootstrap heap and both
  functions of the bridge) and the proof that every reachable state satisfies the invariant. The 65536 slots of the registry are
  its fuel: each loop tries every slot once.

  \<^bold>\<open>Threads.\<close> \<open>Mock_Threads\<close> cuts every entry point of the mock allocator into its accesses to shared memory: a
  call in progress is a \<open>phase\<close>, and \<open>thread_step\<close> is its next libc call, atomic operation or registry operation under
  the lock; it shows that a call without interruption is the sequential one. \<open>Mock_Interleaving\<close> has the
  interleavings of any number of threads (\<open>threads_step\<close>, \<open>threads_reach\<close>), where the program may store into its blocks and
  libc may allocate at any time, and proves mutual exclusion, ownership of the blocks in the hand of a call, and that no
  state is a deadlock. \<open>Mock_Accounting\<close> proves that without \<open>realloc\<close> of a block the live counters are exact
  up to the additions that calls in progress still owe. The memory is sequentially consistent: the
  accesses to the registry are ordered by the lock, and every other shared variable is a single atomic counter.

  \<^bold>\<open>Interface.\<close> The locale \<open>c_allocator\<close> (\<open>Allocator\<close>) states what the overrides rely on of an
  allocator: fresh blocks, content kept by \<open>realloc\<close>, who owns a block, how many more can be tracked. It is
  interpreted for libc's allocator there and for the mock in \<open>Preload\<close>. The locale \<open>scan_bridge\<close>
  (\<open>Scanf_Rehome\<close>) extends it by the bridge functions and is interpreted for the mock's in \<open>Preload\<close>.

  \<^bold>\<open>Overrides.\<close> \<open>String_Overrides\<close>, \<open>Stdio_Overrides\<close>, \<open>Sched_Overrides\<close> and \<open>Line_Overrides\<close> model the files of
  these names. \<open>Memstream_Overrides\<close> and \<open>Wmemstream_Overrides\<close> model the two halves of
  \<open>memstream_overrides.c\<close>, and \<open>Memstream_Runs\<close> shows that any sequence of writes and seeks refines a file in
  memory. \<open>Scanf_Format\<close> has the format parsers and the plan they fill, \<open>Scanf_Plan\<close> their
  equivalence with a reference function without heap, \<open>Scanf_Overrides\<close> the symbol resolution, the rehoming of
  results, the wrappers and the 24 entry points, \<open>Scanf_Rehome\<close> what moving one and all results does, and
  \<open>Scanf_Wrappers\<close> what a whole call promises for any scanner that keeps \<open>scanner_contract\<close>, also one whose results the
  mock owns already. A result is \<open>moved\<close>, or it \<open>stayed\<close>: \<open>rehomed\<close> names the cases, and those in which the source
  leaks libc's object are a mode without copy and a \<open>malloc\<close> of the copy that returned null. \<open>Path_Overrides\<close>
  has \<open>helpers.c\<close> and, of \<open>path_overrides.c\<close>, \<open>getcwd\<close>, \<open>get_current_dir_name\<close> and \<open>tempnam\<close>; \<open>Realpath\<close> has \<open>realpath\<close>, a
  round of its loop being \<open>realpath_step\<close> and the loop a \<open>partial_function\<close> that is proved to end: a round
  follows one of at most 40 links, or moves on in its stack of 4097 bytes; \<open>Realpath_Spec\<close> says what it
  means, a relation on lists of components, \<open>Realpath_Refines\<close> that the arrays implement it, and \<open>Realpath_Result\<close>
  that a relative result is put below the current directory. \<open>Dirent_Overrides\<close> has \<open>scandir\<close> and
  \<open>scandir64\<close>. In each theory the laws are proved for every allocator of the interface.

  \<^bold>\<open>Process.\<close> \<open>Process\<close> composes all of it: a state is the memory, the open memory streams and the globals of the scanners; a
  step is a call of any override, an operation of an open stream, or anything else the program does that
  leaves the blocks of open streams alone (\<open>process_step\<close>). Every step keeps \<open>process_ok\<close>.

  \<^bold>\<open>Properties.\<close> This theory states the properties of the mock allocator and of the string, formatting,
  CPU-set and line overrides run under it; \<open>Stream_Properties\<close> those of the memory streams, \<open>Scanf_Properties\<close>
  those of the scanners, \<open>Path_Properties\<close> those of paths and directories, \<open>Thread_Properties\<close> those of
  concurrent use, with two runs in which calls interfere. \<open>Sample_States\<close> has the concrete states they are evaluated on.

  \<^bold>\<open>Parameters.\<close> Code outside the repository is an argument with a contract: libc's scanners
  (\<open>scanner_contract\<close>), \<open>fopencookie\<close> (\<open>fopencookie_contract\<close>), \<open>mbsnrtowcs\<close> (\<open>mbsnrtowcs_contract\<close>), \<open>qsort\<close> (\<open>qsort_contract\<close>), the text libc
  formats, and \<open>dlsym\<close>: which symbols it finds, and which allocation calls it makes while it looks, each of which may depend on
  the pointers it was given before (\<open>dlsym_contract\<close>). The kernel is one too: \<open>readlink\<close> is a function of the number of calls before and the path,
  \<open>getcwd\<close> a path or an error (\<open>readlink_contract\<close> and \<open>cwd_contract\<close>, for what a result of \<open>realpath\<close>
  means), \<open>stat\<close> a partial function, the clock with the thread identifier a sequence, an open directory the
  list of its entries.

  \<^bold>\<open>Not modelled.\<close> Concurrent resolution of symbols (\<open>pthread_once\<close> is modelled for one thread that may re-enter it, and threads start after it), concurrent use
  of the bootstrap heap, \<open>ao_mock_get_stats\<close> while other threads run, and threads inside the overrides: these run one operation
  after the other. The message \<open>ao_fatal\<close> prints. What \<open>opendir\<close>,
  \<open>closedir\<close> and a selection or comparison function of the caller do beside their result. The tests and the build files.
\<close>

section \<open>The mock allocator\<close>

text \<open>
  C1: in every state of a process with both libraries preloaded, whatever it calls of the mock allocator and of
  the overrides and however it uses its open memory streams, the live counters are exact (\<open>live_blocks\<close> is
  the number of tracked blocks, \<open>live_bytes\<close> the sum of their requested sizes), every tracked address is a
  live heap object of exactly the recorded size, the registry lock is free, and each open stream is well-formed in
  blocks of its own that are tracked.
\<close>

theorem process_accounting:
  assumes "process_reachable dl s" "bridge_symbols dl"
  shows "live_blocks (g_stats (mem s)) = of_nat (card (dom (tracked (mem s))))
    \<and> live_bytes (g_stats (mem s)) = total_size (tracked (mem s))
    \<and> (\<forall>p sz aid. tracked (mem s) p = Some (sz, aid) \<longrightarrow> (\<exists>cs. blocks (mem s) p = Some cs \<and> length cs = unat sz))
    \<and> \<not> g_registry_lock (mem s)
    \<and> (\<forall>st \<in> set (streams s). stream_wf (mem s) st) \<and> streams_apart (streams s)"
  using process_reachable_ok [OF assms]
  by (simp add: process_ok_def mock_inv_def live_ok_def mock_ready_def tracking_ok_def list_all_iff)

text \<open>A process with one block that duplicates a string.\<close>

theorem process_accounting_witness:
  "\<exists>p w. strdup malloc [Some 97, Some 0] (one_block_state (replicate 4 None) [Some 0x200000]) = Done (p, w)
     \<and> live_bytes (g_stats w) = total_size (tracked w) \<and> \<not> g_registry_lock w"
proof -
  let ?w = "one_block_state (replicate 4 None) [Some 0x200000]"
  let ?s = "\<lparr>mem = ?w, streams = [] :: unit open_stream list, scan_globals = initial_globals\<rparr>"
  have inv: "mock_inv ?w" and str: "cstring [97] [Some 97, Some 0]" by (simp_all add: one_block_inv cstring_def)
  have "mock_room ?w \<noteq> 0" by (simp add: mock_room_def one_block_inv AO_REGISTRY_CAPACITY_def)
  then obtain p w where d: "strdup malloc [Some 97, Some 0] ?w = Done (p, w)"
    using wp_Done_cases [OF mock_alloc.strdup_law [OF inv str]] by auto
  have "process_reachable (mock_symbols None None) ?s" by (rule process_start [OF one_block_reachable])
  moreover have "process_step (mock_symbols None None) ?s (?s\<lparr>mem := w\<rparr>)"
    by (rule step_giving) (use call_strdup [OF str _ d] in simp)
  ultimately have "process_reachable (mock_symbols None None) (?s\<lparr>mem := w\<rparr>)" by (rule process_next)
  from process_accounting [OF this] d show ?thesis by (auto simp: bridge_symbols_def mock_symbols_def)
qed

text \<open>
  C2: the first use resolves the four libc functions and leaves the allocator ready, with nothing
  tracked and no heap object changed, although \<open>dlsym\<close> itself may call the overridden \<open>malloc\<close>,
  \<open>calloc\<close>, \<open>realloc\<close> and \<open>free\<close> while it runs, any number of times and with pointers it got from earlier calls. These calls
  run the functions of the library; that none of them comes back into \<open>pthread_once\<close>, which would
  never return, is what the flag \<open>g_in_resolver\<close> is for. \<open>dlsym_contract\<close> bounds the sizes and excludes made-up
  addresses.
\<close>

theorem first_use_resolves:
  assumes "mock_loaded w" "dlsym_contract w"
    and "\<forall>name \<in> set resolver_names. dlsym_found w name"
  shows "\<exists>w'. ao_ensure_real_functions w = Done w' \<and> mock_inv w' \<and> tracked w' = (\<lambda>_. None)
    \<and> blocks w' = blocks w"
  using assms by (rule ensure_spec)

text \<open>A loader that allocates a zeroed block, grows it to 100 bytes and releases what it got.\<close>

definition busy_loader :: "string \<Rightarrow> (ptr list \<Rightarrow> dl_call) list" where
  "busy_loader name = [\<lambda>given. DL_calloc 1 32,
     \<lambda>given. (case given of [] \<Rightarrow> DL_malloc 100 | p # ps \<Rightarrow> DL_realloc p 100),
     \<lambda>given. (case given of [] \<Rightarrow> DL_malloc 1 | p # ps \<Rightarrow> DL_free p)]"

lemma busy_loader_contract: "dlsym_contract (loaded_state found busy_loader as)"
  by (simp add: dlsym_contract_def loaded_state_def busy_loader_def dl_size_ok_def split: list.splits)

theorem first_use_resolves_witness:
  "\<exists>w'. ao_ensure_real_functions (loaded_state (\<lambda>_. True) busy_loader []) = Done w' \<and> mock_inv w'"
  using first_use_resolves [OF loaded_ok busy_loader_contract [of "\<lambda>_. True" "[]"]] by (auto simp: loaded_state_def)

text \<open>
  C3: when one of the four symbols is missing, resolving ends the process with status 127 and
  never returns a half-initialised allocator.
\<close>

theorem missing_symbol_exits:
  assumes "boot_ok w" "given_ok w" "g_resolve_once w = Once_init" "dlsym_contract w"
    and "name \<in> set resolver_names" "\<not> dlsym_found w name"
  shows "ao_ensure_real_functions w = Exit 127"
proof -
  have "\<not> (\<forall>name \<in> set resolver_names. dlsym_found w name)" using assms(5,6) by blast
  then show ?thesis using once_spec [OF assms(1,2,4,3)] by argo
qed

theorem missing_symbol_exits_witness:
  "ao_ensure_real_functions (loaded_state (\<lambda>name. name \<noteq> ''realloc'') busy_loader []) = Exit 127"
proof (rule missing_symbol_exits [where name = "''realloc''", OF _ _ _ busy_loader_contract])
  show "boot_ok (loaded_state (\<lambda>name. name \<noteq> ''realloc'') busy_loader [])"
    using loaded_ok by (simp add: mock_loaded_def)
qed (simp_all add: loaded_state_def given_ok_def resolver_names_def)

text \<open>
  C4: \<open>malloc\<close> on a ready allocator either fails with \<open>ENOMEM\<close> and changes no object and no tracking,
  or returns a fresh object of the requested size and tracks it with that size and the next
  allocation identifier; the invariant is kept. Only a full registry can end the process.
\<close>

theorem malloc_correct:
  assumes "mock_inv w"
  shows "wp (mock_room w = 0) (malloc n w) (\<lambda>(p, w'). mock_inv w' \<and>
    (if p = NULL then blocks w' = blocks w \<and> errno w' = ENOMEM \<and> tracked w' = tracked w
     else blocks w p = None \<and> blocks w' = (blocks w)(p \<mapsto> replicate (unat n) None)
       \<and> tracked w' = (tracked w)(p \<mapsto> (n, g_next_allocation_id w))))"
  using malloc_spec [OF assms, of n] by (rule wp_conseq) (auto simp: malloc_result_def split: if_splits)

theorem malloc_correct_witness:
  "mock_inv (one_block_state (replicate 4 None) [])
   \<and> tracked (one_block_state (replicate 4 None) []) 0x100000 = Some (4, 1)"
  using malloc_correct [OF ready_inv [of "[Some 0x100000]"], of 4]
  by (simp add: malloc_first) (simp add: ready_state_def loaded_state_def)

text \<open>
  C5: \<open>calloc\<close> refuses exactly the products that do not fit \<open>size_t\<close>; otherwise it fails with \<open>ENOMEM\<close> or
  returns a fresh object of \<open>nmemb * size\<close> zero bytes tracked with that size.
\<close>

theorem calloc_correct:
  assumes "mock_inv w"
  shows "wp (mock_room w = 0) (calloc nmemb sz w) (\<lambda>(p, w'). mock_inv w' \<and>
    (if p = NULL then blocks w' = blocks w \<and> errno w' = ENOMEM \<and> tracked w' = tracked w
     else unat nmemb * unat sz < 2 ^ 64 \<and> blocks w p = None
       \<and> blocks w' = (blocks w)(p \<mapsto> replicate (unat nmemb * unat sz) (Some 0))
       \<and> tracked w' = (tracked w)(p \<mapsto> (nmemb * sz, g_next_allocation_id w))))"
  using assms by (rule calloc_spec)

theorem calloc_correct_witness:
  "\<exists>w'. calloc (2 ^ 63) 2 (ready_state [Some 0x100000]) = Done (NULL, w') \<and> errno w' = ENOMEM"
proof -
  from calloc_correct [OF ready_inv [of "[Some 0x100000]"], of "2 ^ 63" 2]
  obtain p w' where "calloc (2 ^ 63) 2 (ready_state [Some 0x100000]) = Done (p, w')"
      "p = NULL \<and> errno w' = ENOMEM \<or> p \<noteq> NULL \<and> unat (2 ^ 63 :: size_t) * unat (2 :: size_t) < 2 ^ 64"
    using ready_room by (auto dest!: wp_Done_cases split: if_splits)
  then show ?thesis by auto
qed

text \<open>
  C6: \<open>realloc\<close> of a tracked block never ends the process and keeps the invariant. It moves or keeps the
  object with its content up to the smaller size and re-registers it under the same allocation
  identifier and the new size; or it fails and changes nothing; or, for size zero, frees the block
  and forgets it.
\<close>

theorem realloc_tracked_correct:
  assumes "mock_inv w" "p \<noteq> NULL" "tracked w p = Some (old, aid)" "blocks w p = Some cs"
  shows "\<exists>q w'. realloc p n w = Done (q, w') \<and> mock_inv w' \<and>
    (if q \<noteq> NULL
     then (q = p \<or> blocks w q = None) \<and> blocks w' = (blocks w)(p := None, q \<mapsto> resized (unat n) cs)
       \<and> tracked w' = (tracked w)(p := None, q \<mapsto> (n, aid))
     else if n \<noteq> 0 then blocks w' = blocks w \<and> errno w' = ENOMEM \<and> tracked w' = tracked w
     else blocks w' = (blocks w)(p := None) \<and> tracked w' = (tracked w)(p := None))"
  using wp_Done_cases [OF realloc_tracked_spec [OF assms, of n]]
  by (auto simp: tracked_realloc_def split: if_splits)

theorem realloc_tracked_correct_witness:
  "\<exists>q w'. realloc 0x100000 8 (one_block_state (map Some [1, 2, 3, 4]) [Some 0x300000]) = Done (q, w')
    \<and> mock_inv w' \<and> (q \<noteq> NULL \<longrightarrow> tracked w' q = Some (8, 1))"
proof -
  have "\<exists>q w'. realloc 0x100000 8 (one_block_state (map Some [1, 2, 3, 4]) [Some 0x300000]) = Done (q, w')
      \<and> mock_inv w' \<and>
    (if q \<noteq> NULL
     then (q = 0x100000 \<or> blocks (one_block_state (map Some [1, 2, 3, 4]) [Some 0x300000]) q = None)
       \<and> blocks w' = (blocks (one_block_state (map Some [1, 2, 3, 4]) [Some 0x300000]))
           (0x100000 := None, q \<mapsto> resized (unat (8 :: size_t)) (map Some [1, 2, 3, 4]))
       \<and> tracked w' = (tracked (one_block_state (map Some [1, 2, 3, 4]) [Some 0x300000]))(0x100000 := None, q \<mapsto> (8, 1))
     else if (8 :: size_t) \<noteq> 0 then blocks w' = blocks (one_block_state (map Some [1, 2, 3, 4]) [Some 0x300000])
       \<and> errno w' = ENOMEM \<and> tracked w' = tracked (one_block_state (map Some [1, 2, 3, 4]) [Some 0x300000])
     else blocks w' = (blocks (one_block_state (map Some [1, 2, 3, 4]) [Some 0x300000]))(0x100000 := None)
       \<and> tracked w' = (tracked (one_block_state (map Some [1, 2, 3, 4]) [Some 0x300000]))(0x100000 := None))"
    by (rule realloc_tracked_correct [where old = 4]) (simp_all add: one_block_inv one_block_blocks)
  then show ?thesis by (auto split: if_splits)
qed

text \<open>
  C7: \<open>realloc\<close> of a block the mock does not track passes it to libc: the tracking is unchanged and the
  result is what libc's \<open>realloc\<close> gives.
\<close>

theorem realloc_untracked_correct:
  assumes "mock_inv w" "p \<noteq> NULL" "tracked w p = None" "blocks w p = Some cs"
  shows "\<exists>q w'. realloc p n w = Done (q, w') \<and> mock_inv w' \<and> tracked w' = tracked w \<and>
    (if q \<noteq> NULL
     then (q = p \<or> blocks w q = None) \<and> blocks w' = (blocks w)(p := None, q \<mapsto> resized (unat n) cs)
     else blocks w' = (if n = 0 then (blocks w)(p := None) else blocks w))"
  using wp_Done_cases [OF realloc_untracked_spec [OF assms, of n]] by auto

theorem realloc_untracked_correct_witness:
  "\<exists>q w'. realloc 0x200000 8 (foreign_block_state [Some 7] [Some 0x300000]) = Done (q, w')
    \<and> mock_inv w' \<and> tracked w' = (\<lambda>_. None)"
  using realloc_untracked_correct [OF foreign_inv [of "[Some 7]" "[Some 0x300000]"], of "0x200000" "[Some 7]" 8]
  by (auto simp: foreign_tracked foreign_blocks)

text \<open>
  C8: \<open>free\<close> of a live object always returns, frees exactly that object and forgets it; the live counters
  stay exact whether the object was tracked or not.
\<close>

theorem free_correct:
  assumes "mock_inv w" "p \<noteq> NULL" "blocks w p = Some cs"
  shows "\<exists>w'. free p w = Done w' \<and> mock_inv w' \<and> blocks w' = (blocks w)(p := None)
    \<and> tracked w' = (tracked w)(p := None)"
  using wp_Done_cases [OF free_spec [OF assms]] by auto

theorem free_correct_witness:
  "\<exists>w'. free 0x100000 (one_block_state (replicate 4 None) []) = Done w' \<and> mock_inv w'
     \<and> tracked w' = (\<lambda>_. None)"
  using free_correct [OF one_block_inv(1) [of "replicate 4 None" "[]"], of "0x100000" "replicate 4 None"]
  by (auto simp: one_block_inv one_block_blocks)

text \<open>
  C9: \<open>malloc\<close> followed by \<open>free\<close> of its result restores the heap, the tracking and both live counters.
\<close>

theorem malloc_free_roundtrip:
  assumes "mock_inv w" "malloc n w = Done (p, u)" "p \<noteq> NULL"
  shows "\<exists>w'. free p u = Done w' \<and> blocks w' = blocks w \<and> tracked w' = tracked w
    \<and> live_blocks (g_stats w') = live_blocks (g_stats w) \<and> live_bytes (g_stats w') = live_bytes (g_stats w)"
proof -
  have u: "mock_inv u" "blocks w p = None" "blocks u = (blocks w)(p \<mapsto> replicate (unat n) None)"
      and t: "tracked u = (tracked w)(p \<mapsto> (n, g_next_allocation_id w))"
    using malloc_spec [OF assms(1), of n] assms(2,3) by (auto simp: malloc_result_def)
  from wp_Done_cases [OF free_spec [OF u(1) assms(3)]] u(3) obtain w'
    where w': "free p u = Done w'" "mock_inv w'" "blocks w' = (blocks u)(p := None)" "tracked w' = (tracked u)(p := None)"
    by auto
  have "tracked w p = None" using mock_inv_fresh_untracked [OF assms(1) u(2)] .
  then have tr: "tracked w' = tracked w" "blocks w' = blocks w"
    using w' t u(2,3) by (simp_all add: fun_upd_idem)
  moreover have "live_blocks (g_stats w') = live_blocks (g_stats w) \<and> live_bytes (g_stats w') = live_bytes (g_stats w)"
    using assms(1) w'(2) tr(1) by (simp add: mock_inv_def live_ok_def)
  ultimately show ?thesis using w'(1) by blast
qed

theorem malloc_free_roundtrip_witness:
  "\<exists>w'. free 0x100000 (one_block_state (replicate 4 None) []) = Done w'
    \<and> live_bytes (g_stats w') = live_bytes (g_stats (ready_state [Some 0x100000]))"
  using malloc_free_roundtrip [OF ready_inv malloc_first [of "[]"]] by auto

text \<open>
  C10: the call counters change only inside a capture. A successful \<open>malloc\<close> then counts one call, one
  successful allocation and its bytes, a failed one counts one failure; \<open>free\<close> counts one call, and one bypass
  exactly when the mock did not track the block. \<open>ao_mock_reset\<close> clears these counters and keeps the tracking
  and both live counters.
\<close>

theorem call_statistics:
  assumes "mock_inv w"
  shows "(malloc n w = Done (q, u) \<longrightarrow> call_counters (g_stats u) = (let st = call_counters (g_stats w) in
      if \<not> ao_capture_enabled w then st
      else if q = NULL then st\<lparr>failed_allocations := failed_allocations st + 1\<rparr>
      else st\<lparr>malloc_calls := malloc_calls st + 1, successful_allocations := successful_allocations st + 1,
              successful_allocation_bytes := successful_allocation_bytes st + n\<rparr>))
   \<and> (blocks w p \<noteq> None \<and> free p w = Done v \<longrightarrow> call_counters (g_stats v) = (let st = call_counters (g_stats w) in
      if \<not> ao_capture_enabled w then st
      else if mock_owns w p then st\<lparr>free_calls := free_calls st + 1\<rparr>
      else st\<lparr>free_calls := free_calls st + 1, bypass_free_calls := bypass_free_calls st + 1\<rparr>))
   \<and> call_counters (g_stats (ao_mock_reset w)) = zero_stats \<and> tracked (ao_mock_reset w) = tracked w
   \<and> live_blocks (g_stats (ao_mock_reset w)) = live_blocks (g_stats w)
   \<and> live_bytes (g_stats (ao_mock_reset w)) = live_bytes (g_stats w)"
proof (intro conjI impI)
  assume "malloc n w = Done (q, u)"
  then show "call_counters (g_stats u) = (let st = call_counters (g_stats w) in
      if \<not> ao_capture_enabled w then st
      else if q = NULL then st\<lparr>failed_allocations := failed_allocations st + 1\<rparr>
      else st\<lparr>malloc_calls := malloc_calls st + 1, successful_allocations := successful_allocations st + 1,
              successful_allocation_bytes := successful_allocation_bytes st + n\<rparr>)"
    by (rule malloc_counters [OF assms])
next
  assume f: "blocks w p \<noteq> None \<and> free p w = Done v"
  then have "p \<noteq> NULL" using assms by (auto simp: mock_inv_def heap_ok_def live_key_numeral)
  with f show "call_counters (g_stats v) = (let st = call_counters (g_stats w) in
      if \<not> ao_capture_enabled w then st
      else if mock_owns w p then st\<lparr>free_calls := free_calls st + 1\<rparr>
      else st\<lparr>free_calls := free_calls st + 1, bypass_free_calls := bypass_free_calls st + 1\<rparr>)"
    using free_counters [OF assms] by blast
qed (simp_all add: ao_mock_reset_def tracked_def call_counters_def zero_stats_def)

text \<open>In a capture: a \<open>malloc\<close> that fails, and the \<open>free\<close> of a block the mock does not track.\<close>

theorem call_statistics_witness:
  "\<exists>u v. malloc 4 (ao_mock_begin_capture (foreign_block_state [Some 7] [])) = Done (NULL, u)
     \<and> failed_allocations (call_counters (g_stats u)) = 1
     \<and> free 0x200000 (ao_mock_begin_capture (foreign_block_state [Some 7] [])) = Done v
     \<and> bypass_free_calls (call_counters (g_stats v)) = 1"
proof -
  let ?w = "ao_mock_begin_capture (foreign_block_state [Some 7] [])"
  have inv: "mock_inv ?w"
    by (rule mock_step_inv [OF step_begin foreign_inv])
  have b: "blocks ?w 0x200000 = Some [Some 7]" "\<not> mock_owns ?w 0x200000" "answers ?w = []"
    "bypass_free_calls (call_counters (g_stats ?w)) = 0" "failed_allocations (call_counters (g_stats ?w)) = 0"
    "ao_capture_enabled ?w"
    using foreign_tracked [of "[Some 7]" "[]"]
    by (simp_all add: ao_mock_begin_capture_def foreign_block_state_def mock_owns_def tracked_def
        ready_state_def loaded_state_def zero_stats_def call_counters_def ao_capture_enabled_def)
  obtain v where v: "free 0x200000 ?w = Done v"
    using free_mock_inv [OF inv, of "0x200000"] b(1) by (auto dest: wp_Done_cases)
  have "\<not> g_in_resolver ?w" "ao_ensure_real_functions ?w = Done ?w"
    using inv mock_inv_ensure by (simp_all add: mock_inv_defs)
  then obtain u where u: "malloc 4 ?w = Done (NULL, u)"
    using b(3) by (simp add: malloc_def malloc_body_def real_malloc_def)
  from call_statistics [OF inv, of 4 NULL u "0x200000" v] u v b show ?thesis by (simp add: Let_def)
qed

section \<open>The allocation registry\<close>

text \<open>
  C13: inserting a block address into a well-formed registry succeeds exactly when the address is already
  there or fewer than 65536 blocks are registered, and then the registry is the old map with
  that one entry set.
\<close>

theorem registry_insert_refines:
  assumes "registry_ok reg" "live_key k"
  shows "case ao_registry_insert_locked k sz aid reg of
      None \<Rightarrow> registry_map reg k = None \<and> card (dom (registry_map reg)) = AO_REGISTRY_CAPACITY
    | Some reg' \<Rightarrow> registry_ok reg' \<and> registry_map reg' = (registry_map reg)(k \<mapsto> (sz, aid))"
  using reg.insrt_Some [OF assms] reg.insrt_None [OF assms] by (auto split: option.splits)

theorem registry_insert_refines_witness:
  "registry_map one_block_registry = [0x100000 \<mapsto> (4, 1)]"
  using registry_insert_refines [OF registry_ok_empty, of "0x100000" 4 1] insert_first
  by (simp add: live_key_numeral registry_map_empty)

text \<open>
  C14: removing an address reports and deletes exactly its entry, also when probing passes deleted
  slots, and fails exactly when the address is not registered.
\<close>

theorem registry_remove_refines:
  assumes "registry_ok reg" "live_key k"
  shows "case ao_registry_remove_locked k reg of
      None \<Rightarrow> registry_map reg k = None
    | Some (v, reg') \<Rightarrow> registry_ok reg' \<and> registry_map reg k = Some v
        \<and> registry_map reg' = (registry_map reg)(k := None)"
  using reg.remov_Some [OF assms] reg.remov_None [OF assms(2)] by (auto split: option.splits)

theorem registry_remove_refines_witness:
  "\<exists>v reg'. ao_registry_remove_locked 0x100000 one_block_registry = Some (v, reg')
     \<and> v = (4, 1) \<and> registry_map reg' = (\<lambda>_. None)"
proof -
  have ok: "registry_ok one_block_registry" "registry_map one_block_registry = [0x100000 \<mapsto> (4, 1)]"
    using reg.insrt_Some [OF registry_ok_empty _ insert_first]
    by (simp_all add: live_key_numeral registry_map_empty)
  from registry_remove_refines [OF ok(1), of "0x100000"] show ?thesis
    by (auto simp: ok(2) live_key_numeral split: option.splits)
qed

section \<open>The bootstrap heap\<close>

text \<open>
  C15: a bootstrap allocation that fits returns an aligned block inside the static heap, after
  everything allocated before, with its size in its header, and keeps the bytes of all earlier
  blocks.
\<close>

theorem bootstrap_alloc_block:
  assumes "boot_ok w" "unat n + 79 < 2 ^ 64" "unat (g_bootstrap_offset w) + boot_total n \<le> 65536"
  shows "\<exists>p w'. ao_bootstrap_alloc n w = Done (p, w') \<and> p \<noteq> NULL \<and> boot_ok w' \<and> boot_block p n w'
     \<and> boot_offset p w' = unat (g_bootstrap_offset w) + 48
     \<and> unat (g_bootstrap_offset w') = unat (g_bootstrap_offset w) + boot_total n
     \<and> (\<forall>i<unat (g_bootstrap_offset w). g_bootstrap_heap w' i = g_bootstrap_heap w i)"
  using boot_alloc_block [OF assms] by blast

theorem bootstrap_alloc_block_witness:
  "\<exists>p w'. ao_bootstrap_alloc 100 (ready_state []) = Done (p, w') \<and> boot_block p 100 w'"
proof -
  have "boot_ok (ready_state [])"
    using loaded_ok [of "\<lambda>_. True" "\<lambda>_. []" "[]"] by (simp add: mock_loaded_def ready_state_def boot_ok_def)
  moreover have "g_bootstrap_offset (ready_state []) = 0"
    by (simp add: ready_state_def loaded_state_def)
  ultimately show ?thesis
    using bootstrap_alloc_block [of "ready_state []" 100] by (auto simp: boot_total_def)
qed

text \<open>
  C16: reallocating a bootstrap block that fits gives a new bootstrap block of the requested size that starts with
  the old content up to the smaller of both sizes; the bytes of all earlier blocks, the old one included, are
  unchanged.
\<close>

theorem bootstrap_realloc_copies:
  assumes "boot_ok w" "unat n + 79 < 2 ^ 64" "unat (g_bootstrap_offset w) + boot_total n \<le> 65536"
    and "p \<noteq> NULL" "boot_block p old w"
  shows "\<exists>q w'. ao_bootstrap_realloc p n w = Done (q, w') \<and> q \<noteq> NULL \<and> boot_ok w' \<and> boot_block q n w'
     \<and> (\<forall>i<min (unat old) (unat n).
          g_bootstrap_heap w' (boot_offset q w' + i) = g_bootstrap_heap w (boot_offset p w + i))
     \<and> (\<forall>i<unat (g_bootstrap_offset w). g_bootstrap_heap w' i = g_bootstrap_heap w i)"
  using assms by (rule boot_realloc_copies)

theorem bootstrap_realloc_copies_witness:
  "\<exists>p u q w'. ao_bootstrap_alloc 16 (ready_state []) = Done (p, u)
     \<and> ao_bootstrap_realloc p 32 u = Done (q, w') \<and> boot_block q 32 w'"
proof -
  have "boot_ok (ready_state [])" "g_bootstrap_offset (ready_state []) = 0"
    using loaded_ok [of "\<lambda>_. True" "\<lambda>_. []" "[]"]
    by (simp_all add: mock_loaded_def ready_state_def boot_ok_def loaded_state_def)
  then obtain p u where u: "ao_bootstrap_alloc 16 (ready_state []) = Done (p, u)" "p \<noteq> NULL" "boot_ok u"
      "boot_block p 16 u" "unat (g_bootstrap_offset u) = 64"
    using boot_alloc_block [of "ready_state []" 16] by (auto simp: boot_total_def)
  with bootstrap_realloc_copies [of u 32 p 16] show ?thesis by (auto simp: boot_total_def)
qed

text \<open>
  C17: the size computation of \<open>ao_bootstrap_alloc\<close> wraps: a request of \<open>2 ^ 64 - 48\<close> bytes succeeds,
  reserves nothing, and the same request again returns the same address.
\<close>

theorem bootstrap_alloc_overflow:
  assumes "boot_ok w" "unat (g_bootstrap_offset w) + 48 \<le> 65536"
  shows "\<exists>p w'. ao_bootstrap_alloc (- 48) w = Done (p, w') \<and> p \<noteq> NULL
     \<and> g_bootstrap_offset w' = g_bootstrap_offset w
     \<and> (\<exists>w''. ao_bootstrap_alloc (- 48) w' = Done (p, w''))"
  using assms by (rule boot_alloc_wraps)

theorem bootstrap_alloc_overflow_witness:
  "\<exists>p w'. ao_bootstrap_alloc (- 48) (ready_state []) = Done (p, w') \<and> p \<noteq> NULL"
proof -
  have "boot_ok (ready_state [])" "g_bootstrap_offset (ready_state []) = 0"
    using loaded_ok [of "\<lambda>_. True" "\<lambda>_. []" "[]"]
    by (simp_all add: mock_loaded_def ready_state_def boot_ok_def loaded_state_def)
  then show ?thesis using bootstrap_alloc_overflow [of "ready_state []"] by auto
qed

section \<open>String, formatting and CPU-set overrides under the mock allocator\<close>

text \<open>The C string \<open>ab\<close> in an array of five bytes.\<close>

definition sample_text :: "cell list" where
  "sample_text = map Some [97, 98, 0, 99, 0]"

lemma sample_cstring: "cstring [97, 98] sample_text"
  by (simp add: cstring_def sample_text_def)

text \<open>
  C18: \<open>strdup\<close> with the mock allocator returns \<open>NULL\<close> with \<open>ENOMEM\<close> and no change, or a fresh block owned by
  the mock that holds exactly the string and its terminator; it is memory-safe and every other
  object is unchanged.
\<close>

theorem strdup_duplicates:
  assumes "mock_inv w" "cstring s cells" "length cells < 2 ^ 64"
  shows "wp (mock_room w = 0) (strdup malloc cells w)
    (\<lambda>(p, w'). mock_inv w' \<and> duplicated mock_owns (map Some (s @ [0])) w p w')"
  using assms by (rule mock_alloc.strdup_law)

theorem strdup_duplicates_witness:
  "\<exists>p w'. strdup malloc sample_text (ready_state [Some 0x100000]) = Done (p, w')
     \<and> duplicated mock_owns (map Some [97, 98, 0]) (ready_state [Some 0x100000]) p w'"
  using wp_Done_cases [OF strdup_duplicates [OF ready_inv [of "[Some 0x100000]"] sample_cstring]]
  by (auto simp: ready_room sample_text_def)

text \<open>
  C19: \<open>strndup\<close> copies at most \<open>n\<close> characters and always terminates the copy.
\<close>

theorem strndup_duplicates:
  assumes "mock_inv w" "cstring s cells" "length cells < 2 ^ 64"
  shows "wp (mock_room w = 0) (strndup malloc cells n w)
    (\<lambda>(p, w'). mock_inv w' \<and> duplicated mock_owns (map Some (take (unat n) s @ [0])) w p w')"
  using assms by (rule mock_alloc.strndup_law)

theorem strndup_duplicates_witness:
  "\<exists>p w'. strndup malloc sample_text 1 (ready_state [Some 0x100000]) = Done (p, w')
     \<and> duplicated mock_owns (map Some [97, 0]) (ready_state [Some 0x100000]) p w'"
  using wp_Done_cases [OF strndup_duplicates [OF ready_inv [of "[Some 0x100000]"] sample_cstring, of 1]]
  by (auto simp: ready_room sample_text_def)

text \<open>
  C20: \<open>wcsdup\<close> duplicates a wide string, terminator included, into a block of four bytes per character.
\<close>

theorem wcsdup_duplicates:
  assumes "mock_inv w" "wcstring ws cells" "length cells < 2 ^ 64"
  shows "wp (mock_room w = 0) (wcsdup malloc cells w)
    (\<lambda>(p, w'). mock_inv w' \<and> duplicated mock_owns (wide_cells (ws @ [0])) w p w')"
  using assms by (rule mock_alloc.wcsdup_law)

theorem wcsdup_duplicates_witness:
  "\<exists>p w'. wcsdup malloc (wide_cells [0x3b1, 0]) (ready_state [Some 0x100000]) = Done (p, w')
     \<and> duplicated mock_owns (wide_cells [0x3b1, 0]) (ready_state [Some 0x100000]) p w'"
proof -
  have "wcstring [0x3b1] (wide_cells [0x3b1, 0])"
    by (simp add: wcstring_def)
  from wp_Done_cases [OF wcsdup_duplicates [OF ready_inv [of "[Some 0x100000]"] this]] show ?thesis
    by (auto simp: ready_room)
qed

text \<open>
  C21: \<open>vasprintf\<close> of a text that fits an \<open>int\<close> sets \<open>*s\<close> to a fresh block with exactly the text and its
  terminator and returns its length, or sets \<open>*s\<close> to \<open>NULL\<close> and returns -1.
\<close>

theorem vasprintf_allocates:
  assumes "mock_inv w" "length t \<le> INT_MAX"
  shows "wp (mock_room w = 0) (vasprintf malloc (Some t) (Some t) w)
    (\<lambda>((ret, s), w'). mock_inv w' \<and> s \<noteq> None \<and> duplicated mock_owns (map Some (t @ [0])) w (the s) w'
       \<and> ret = (if the s = NULL then -1 else int (length t)))"
  using assms by (rule mock_alloc.vasprintf_law)

theorem vasprintf_allocates_witness:
  "\<exists>ret s w'. vasprintf malloc (Some [52, 50]) (Some [52, 50]) (ready_state [Some 0x100000]) = Done ((ret, s), w')
     \<and> duplicated mock_owns (map Some [52, 50, 0]) (ready_state [Some 0x100000]) (the s) w'"
  using wp_Done_cases [OF vasprintf_allocates [OF ready_inv [of "[Some 0x100000]"], of "[52, 50]"]]
  by (auto simp: ready_room INT_MAX_def)

text \<open>
  The size of a CPU set is the least number of whole 8-byte words with a bit for every CPU, for
  every count up to \<open>SIZE_MAX\<close>: the computation never wraps.
\<close>

theorem cpu_alloc_size_exact:
  "unat (ao_cpu_alloc_size cpus) = 8 * ((unat cpus + 63) div 64)"
  by (rule unat_ao_cpu_alloc_size)

section \<open>Reading lines under the mock allocator\<close>

text \<open>
  C23: \<open>getdelim\<close> on a null or valid buffer is memory-safe, releases the stream lock on every path and
  leaves the caller's buffer valid, replacing only that buffer. It returns the length of the next
  line with the line and a terminator in the buffer and the stream just after it, or -1 when
  there is no memory, nothing to read or a read error.
\<close>

theorem getdelim_correct:
  assumes "mock_inv w" "line_buffer mock_owns s n w"
  shows "wp (s = NULL \<and> mock_room w = 0) (getdelim realloc (Some s) (Some n) delim f w)
    (\<lambda>((ret, s', n'), f', w'). s' \<noteq> None \<and> n' \<noteq> None \<and> mock_inv w' \<and> replaced mock_owns s w (the s') w'
      \<and> line_buffer mock_owns (the s') (the n') w' \<and> st_locks f' = st_locks f
      \<and> line_result mock_owns (split_line delim (st_input f)) ret (the s') f' w')"
  using assms by (rule mock_alloc.getdelim_law)

definition sample_stream :: stream where
  "sample_stream = \<lparr>st_input = [97, 10, 98], st_fails = False, st_error = False, st_locks = 0\<rparr>"

theorem getdelim_correct_witness:
  "\<exists>ret s' n' f' w'. getdelim realloc (Some NULL) (Some 0) 10 sample_stream (ready_state [Some 0x100000])
       = Done ((ret, s', n'), f', w')
     \<and> line_result mock_owns ([97, 10], [98], True) ret (the s') f' w'"
  using wp_Done_cases [OF getdelim_correct [OF ready_inv [of "[Some 0x100000]"], of NULL 0 10 sample_stream]]
  by (auto simp: ready_room line_buffer_def sample_stream_def)

text \<open>
  When the caller's buffer already has room for the line, \<open>getdelim\<close> allocates nothing: it stores the
  line and the terminator at the start of the buffer and leaves the rest of the memory unchanged,
  whatever the allocator.
\<close>

theorem getdelim_in_place_exact:
  assumes "split_line delim (st_input f) = (l, r, hit)" "l \<noteq> []" "hit \<or> \<not> st_error f \<and> \<not> st_fails f"
    and "length l + 1 < unat n" "unat n \<le> length cs" "length cs \<le> SSIZE_MAX"
    and "blocks w s = Some cs" "s \<noteq> NULL"
  shows "getdelim realloc_fn (Some s) (Some n) delim f w =
    Done ((int (length l), Some s, Some n), f\<lparr>st_input := r\<rparr>,
      w\<lparr>blocks := (blocks w)(s \<mapsto> overwrite 0 (map Some (l @ [0])) cs)\<rparr>)"
  using assms by (rule getdelim_in_place)

theorem getdelim_in_place_exact_witness:
  "\<exists>f' w'. getdelim realloc (Some 0x100000) (Some 4) 10 sample_stream (one_block_state (replicate 4 None) [])
       = Done ((2, Some 0x100000, Some 4), f', w')
     \<and> blocks w' 0x100000 = Some [Some 97, Some 10, Some 0, None]"
proof -
  have "replicate 4 None = [None, None, None, None :: cell]" by (simp add: numeral_eq_Suc)
  with getdelim_in_place_exact [of 10 sample_stream "[97, 10]" "[98]" True 4 "replicate 4 None"
    "one_block_state (replicate 4 None) []" "0x100000" realloc]
  show ?thesis
    by (simp add: sample_stream_def one_block_blocks overwrite_def)
qed

end
